theory Spec2Isabelle
  imports Main "HOL-Library.Word" "HOL-Library.AList"
begin

unbundle bit_operations_syntax

section \<open>The disk image codec of diskimage.ts\<close>

text \<open>
  A shallow embedding of \<^verbatim>\<open>src/app/emulator/classes/diskimage.ts\<close>: the class
  \<^verbatim>\<open>DiskImage\<close> with its geometry, its catalog, its cached binary image, the
  single-file import and export, and the encoder and decoder of a whole disk image.
\<close>

subsection \<open>Numbers, bytes and arrays of the host language\<close>

text \<open>
  A \<^verbatim>\<open>Uint8Array\<close> is a list of bytes of fixed length. A number of the program is
  an integer, or \<open>None\<close>: the value \<^verbatim>\<open>undefined\<close> that a read outside an array
  gives, and the \<^verbatim>\<open>NaN\<close> that arithmetic makes of it. The two are never told
  apart by the code: both fail every comparison, both are 0 under a bitwise operator and
  both are stored into a \<^verbatim>\<open>Uint8Array\<close> as 0.
\<close>

type_synonym byte = "8 word"
type_synonym num = "int option"

text \<open>\<^verbatim>\<open>buf[i]\<close> on a \<^verbatim>\<open>Uint8Array\<close>: \<^verbatim>\<open>undefined\<close> outside the array.\<close>

definition rd :: "byte list \<Rightarrow> num \<Rightarrow> num" where
  "rd buf i = (case i of None \<Rightarrow> None
     | Some k \<Rightarrow> if 0 \<le> k \<and> k < int (length buf) then Some (uint (buf ! nat k)) else None)"

text \<open>\<^verbatim>\<open>x & m\<close>, \<^verbatim>\<open>x << k\<close>, \<^verbatim>\<open>x | y\<close> for the small masks and shifts of the code.\<close>

definition band :: "num \<Rightarrow> int \<Rightarrow> int" where
  "band x m = (case x of None \<Rightarrow> 0 | Some v \<Rightarrow> v AND m)"

definition shl :: "num \<Rightarrow> nat \<Rightarrow> int" where
  "shl x k = (case x of None \<Rightarrow> 0 | Some v \<Rightarrow> push_bit k v)"

definition bor :: "num \<Rightarrow> num \<Rightarrow> int" where
  "bor x y = (case x of None \<Rightarrow> 0 | Some v \<Rightarrow> v) OR (case y of None \<Rightarrow> 0 | Some w \<Rightarrow> w)"

text \<open>\<^verbatim>\<open>x + y\<close> and \<^verbatim>\<open>x * y\<close>: \<^verbatim>\<open>NaN\<close> as soon as one side is.\<close>

definition nadd :: "num \<Rightarrow> num \<Rightarrow> num" where
  "nadd x y = (case x of None \<Rightarrow> None | Some v \<Rightarrow> (case y of None \<Rightarrow> None | Some w \<Rightarrow> Some (v + w)))"

definition nmul :: "num \<Rightarrow> num \<Rightarrow> num" where
  "nmul x y = (case x of None \<Rightarrow> None | Some v \<Rightarrow> (case y of None \<Rightarrow> None | Some w \<Rightarrow> Some (v * w)))"

text \<open>\<^verbatim>\<open>x < y\<close>: false as soon as one side is \<^verbatim>\<open>undefined\<close> or \<^verbatim>\<open>NaN\<close>.\<close>

definition nless :: "num \<Rightarrow> num \<Rightarrow> bool" where
  "nless x y = (case x of None \<Rightarrow> False | Some v \<Rightarrow> (case y of None \<Rightarrow> False | Some w \<Rightarrow> v < w))"

text \<open>What \<^verbatim>\<open>Uint8Array\<close> makes of a number it is given: the low 8 bits, 0 for \<^verbatim>\<open>undefined\<close>.\<close>

definition toByte :: "num \<Rightarrow> byte" where
  "toByte x = (case x of None \<Rightarrow> 0 | Some v \<Rightarrow> word_of_int v)"

text \<open>
  \<^verbatim>\<open>data[n] = v\<close>. A \<^verbatim>\<open>Uint8Array\<close> ignores a store outside its length; a
  \<^verbatim>\<open>number[]\<close> grows to hold it, the slots it skips being \<^verbatim>\<open>undefined\<close>.
\<close>

definition u8store :: "byte list \<Rightarrow> int \<Rightarrow> num \<Rightarrow> byte list" where
  "u8store buf n v = (if 0 \<le> n \<and> n < int (length buf) then buf[nat n := toByte v] else buf)"

definition arrstore :: "num list \<Rightarrow> int \<Rightarrow> num \<Rightarrow> num list" where
  "arrstore xs n v =
     (if n < 0 then xs
      else if n < int (length xs) then xs[nat n := v]
      else xs @ replicate (nat n - length xs) None @ [v])"

text \<open>\<^verbatim>\<open>new Uint8Array(data)\<close> for a \<^verbatim>\<open>number[]\<close>.\<close>

definition newUint8Array :: "num list \<Rightarrow> byte list" where
  "newUint8Array xs = map toByte xs"

subsection \<open>The four writers\<close>

text \<open>
  \<^verbatim>\<open>writeByte\<close>, \<^verbatim>\<open>writeWord\<close>, \<^verbatim>\<open>writeLEWord\<close> and \<^verbatim>\<open>writeString\<close> take
  either kind of array; the model takes the array's store (\<open>u8store\<close> or \<open>arrstore\<close>) as
  its first argument. Each returns the array and the next position.
\<close>

definition writeByte :: "('a \<Rightarrow> int \<Rightarrow> num \<Rightarrow> 'a) \<Rightarrow> 'a \<Rightarrow> int \<Rightarrow> num \<Rightarrow> 'a \<times> int" where
  "writeByte st data n b = (st data n (Some (band b 0x00FF)), n + 1)"

definition writeWord :: "('a \<Rightarrow> int \<Rightarrow> num \<Rightarrow> 'a) \<Rightarrow> 'a \<Rightarrow> int \<Rightarrow> num \<Rightarrow> 'a \<times> int" where
  "writeWord st data n w =
     (let d1 = st data n (Some (drop_bit 8 (band w 0xFF00)));
          d2 = st d1 (n + 1) (Some (band w 0x00FF))
      in (d2, n + 2))"

definition writeLEWord :: "('a \<Rightarrow> int \<Rightarrow> num \<Rightarrow> 'a) \<Rightarrow> 'a \<Rightarrow> int \<Rightarrow> num \<Rightarrow> 'a \<times> int" where
  "writeLEWord st data n w =
     (let d1 = st data n (Some (band w 0x00FF));
          d2 = st d1 (n + 1) (Some (drop_bit 8 (band w 0xFF00)))
      in (d2, n + 2))"

text \<open>\<^verbatim>\<open>data[n++] = v\<close> for each \<open>v\<close> of a list, in order.\<close>

fun storeAll :: "('a \<Rightarrow> int \<Rightarrow> num \<Rightarrow> 'a) \<Rightarrow> 'a \<Rightarrow> int \<Rightarrow> num list \<Rightarrow> 'a \<times> int" where
  "storeAll st data n [] = (data, n)"
| "storeAll st data n (v # vs) = storeAll st (st data n v) (n + 1) vs"

text \<open>
  \<^verbatim>\<open>writeString\<close>: the first \<open>padLen\<close> character codes of \<open>str\<close>, then
  \<open>padLen - str.length\<close> spaces.
\<close>

definition writeString :: "('a \<Rightarrow> int \<Rightarrow> num \<Rightarrow> 'a) \<Rightarrow> 'a \<Rightarrow> int \<Rightarrow> string \<Rightarrow> nat \<Rightarrow> 'a \<times> int" where
  "writeString st data n str padLen =
     storeAll st data n
       (map (\<lambda>c. Some (of_char c)) (take (min (length str) padLen) str)
        @ replicate (padLen - length str) (Some 0x20))"

text \<open>\<^verbatim>\<open>for (j = 0; j < data.length; j++) n = writeByte(arr, n, data[j])\<close>.\<close>

fun writeBytes :: "('a \<Rightarrow> int \<Rightarrow> num \<Rightarrow> 'a) \<Rightarrow> 'a \<Rightarrow> int \<Rightarrow> num list \<Rightarrow> 'a \<times> int" where
  "writeBytes st data n [] = (data, n)"
| "writeBytes st data n (b # bs) = (case writeByte st data n b of (d, n') \<Rightarrow> writeBytes st d n' bs)"

subsection \<open>Allocation units\<close>

text \<open>The remainder \<^verbatim>\<open>a % b\<close> of the host language takes the sign of \<open>a\<close>.\<close>

definition jsrem :: "int \<Rightarrow> int \<Rightarrow> int" where
  "jsrem a b = sgn a * (\<bar>a\<bar> mod \<bar>b\<bar>)"

definition ceilN :: "int \<Rightarrow> int \<Rightarrow> int" where
  "ceilN n N = (if jsrem n N \<noteq> 0 then n + (N - jsrem n N) else n)"

text \<open>\<^verbatim>\<open>Math.ceil(sectors / sectorsPerAllocationUnit)\<close>, for a divisor that is not 0.\<close>

definition sectorsToAllocationUnits :: "int \<Rightarrow> int \<Rightarrow> int" where
  "sectorsToAllocationUnits sectors sectorsPerAllocationUnit =
     - ((- sectors) div sectorsPerAllocationUnit)"

subsection \<open>Geometry\<close>

record PhysicalProperties =
  totalSectors :: num
  sectorsPerTrack :: num
  tracksPerSide :: num
  numberOfSides :: num
  density :: num

definition getSectorsPerAllocationUnit :: "PhysicalProperties \<Rightarrow> int" where
  "getSectorsPerAllocationUnit g =
     (if nless (totalSectors g) (Some 1600) then 1
      else if nless (totalSectors g) (Some 3200) then 2
      else if nless (totalSectors g) (Some 6400) then 4
      else 8)"

definition getSectorsPerAllocationUnitForDataChainPointers :: "PhysicalProperties \<Rightarrow> int" where
  "getSectorsPerAllocationUnitForDataChainPointers g =
     (if nless (totalSectors g) (Some 4096) then 1 else getSectorsPerAllocationUnit g)"

subsection \<open>Files and records\<close>

text \<open>
  Modelled from the spec: the enumerations \<^verbatim>\<open>FileType\<close>, \<^verbatim>\<open>RecordType\<close> and
  \<^verbatim>\<open>DataType\<close> of disk.ts are not among the sources. The spec gives their bits in a
  flags byte (bit 0 the file type, bit 7 the record type, bit 1 the data type) and names
  the flags byte 0 "DATA, DISPLAY, FIXED", so these three are 0 and the others 1.
\<close>

datatype FileType = DATA | PROGRAM
datatype RecordType = FIXED | VARIABLE
datatype DataType = DISPLAY | INTERNAL

fun FileType_num :: "FileType \<Rightarrow> int" where
  "FileType_num DATA = 0"
| "FileType_num PROGRAM = 1"

fun RecordType_num :: "RecordType \<Rightarrow> int" where
  "RecordType_num FIXED = 0"
| "RecordType_num VARIABLE = 1"

fun DataType_num :: "DataType \<Rightarrow> int" where
  "DataType_num DISPLAY = 0"
| "DataType_num INTERNAL = 1"

text \<open>The enumeration member that a one-bit number is.\<close>

definition FileType_of :: "int \<Rightarrow> FileType" where
  "FileType_of v = (if v = 0 then DATA else PROGRAM)"

definition RecordType_of :: "int \<Rightarrow> RecordType" where
  "RecordType_of v = (if v = 0 then FIXED else VARIABLE)"

definition DataType_of :: "int \<Rightarrow> DataType" where
  "DataType_of v = (if v = 0 then DISPLAY else INTERNAL)"

text \<open>
  Modelled from the spec: the classes \<^verbatim>\<open>FixedRecord\<close> and \<^verbatim>\<open>VariableRecord\<close> of
  diskfile.ts are not among the sources. A record is a byte payload, read with
  \<^verbatim>\<open>getData()\<close>; the spec has the payload of a fixed record padded "by the packer, not
  by the record itself", so \<^verbatim>\<open>new FixedRecord(data, length)\<close> keeps \<open>data\<close> as it is.
\<close>

datatype Record = FixedRecord (getData: "num list") | VariableRecord (getData: "num list")

definition newFixedRecord :: "num list \<Rightarrow> num \<Rightarrow> Record" where
  "newFixedRecord data len = FixedRecord data"

text \<open>
  Modelled from the spec: the class \<^verbatim>\<open>DiskFile\<close> of diskfile.ts is not among the
  sources. The spec's File Catalog Entry: a name, the three types, a record length, the
  records in order (DATA) or the program bytes (PROGRAM). The fields carry the names of
  the getters the code calls.
\<close>

record DiskFile =
  getName :: string
  getFileType :: FileType
  getRecordType :: RecordType
  getRecordLength :: num
  getDataType :: DataType
  getRecords :: "Record list"
  getProgram :: "byte list"

text \<open>
  Modelled from the spec: \<^verbatim>\<open>new DiskFile(name, fileType, recordType, recordLength,
  dataType)\<close> is an entry without content; \<^verbatim>\<open>putRecord\<close> adds a record after those
  already there (the decoders open the file for sequential output first and close it
  after, which leaves its content as it is); \<^verbatim>\<open>setProgram\<close> sets the program
  bytes; \<^verbatim>\<open>getRecordCount\<close> is the number of records.
\<close>

definition newDiskFile :: "string \<Rightarrow> FileType \<Rightarrow> RecordType \<Rightarrow> num \<Rightarrow> DataType \<Rightarrow> DiskFile" where
  "newDiskFile nm ft rt rl dt =
     \<lparr>getName = nm, getFileType = ft, getRecordType = rt, getRecordLength = rl,
      getDataType = dt, getRecords = [], getProgram = []\<rparr>"

definition putRecord :: "DiskFile \<Rightarrow> Record \<Rightarrow> DiskFile" where
  "putRecord file r = file\<lparr>getRecords := getRecords file @ [r]\<rparr>"

definition setProgram :: "DiskFile \<Rightarrow> byte list \<Rightarrow> DiskFile" where
  "setProgram file p = file\<lparr>getProgram := p\<rparr>"

definition getRecordCount :: "DiskFile \<Rightarrow> int" where
  "getRecordCount file = int (length (getRecords file))"

text \<open>
  \<^verbatim>\<open>Math.floor(256 / x)\<close>. \<open>None\<close> stands for \<^verbatim>\<open>NaN\<close> (\<open>x\<close> is \<^verbatim>\<open>undefined\<close>) and
  for \<^verbatim>\<open>Infinity\<close> (\<open>x\<close> is 0): \<^verbatim>\<open>&\<close> makes 0 of both and \<^verbatim>\<open>===\<close> finds neither
  equal to a count.
\<close>

definition floor256 :: "num \<Rightarrow> num" where
  "floor256 x = (case x of None \<Rightarrow> None | Some v \<Rightarrow> if v = 0 then None else Some (256 div v))"

text \<open>
  Modelled from the spec: \<^verbatim>\<open>DiskFile.getSectorCount\<close> is not among the sources. It
  is "the number of 256-byte sectors the content occupies, rounded per packing rule":
  a program fills sectors one after the other; fixed records go \<open>floor(256 / recordLength)\<close>
  to a sector; variable records go into a sector while there is room for the length
  byte and the payload, the test the packer makes.
\<close>

fun variableSectors :: "Record list \<Rightarrow> int \<Rightarrow> int \<times> int" where
  "variableSectors [] sectorBytesLeft = (1, sectorBytesLeft)"
| "variableSectors (r # rs) sectorBytesLeft =
     (let len = int (length (getData r));
          left = (if sectorBytesLeft \<le> len then 256 else sectorBytesLeft);
          (sectors, final) = variableSectors rs (left - 1 - len)
      in ((if sectorBytesLeft \<le> len then sectors + 1 else sectors), final))"

definition getSectorCount :: "DiskFile \<Rightarrow> int" where
  "getSectorCount file =
     (case getFileType file of
        PROGRAM \<Rightarrow> (int (length (getProgram file)) + 255) div 256
      | DATA \<Rightarrow>
          (case getRecordType file of
             FIXED \<Rightarrow>
               (case getRecordLength file of
                  None \<Rightarrow> 0
                | Some l \<Rightarrow>
                    if 0 < l \<and> l \<le> 256
                    then (getRecordCount file + 256 div l - 1) div (256 div l) else 0)
           | VARIABLE \<Rightarrow> fst (variableSectors (getRecords file) 256)))"

text \<open>
  Modelled from the spec: \<^verbatim>\<open>DiskFile.getEOFOffset\<close> is not among the sources. It is
  the "bytes used in the file's last sector, 0 meaning full sector".
\<close>

definition getEOFOffset :: "DiskFile \<Rightarrow> int" where
  "getEOFOffset file =
     (case getFileType file of
        PROGRAM \<Rightarrow> int (length (getProgram file)) mod 256
      | DATA \<Rightarrow>
          (case getRecordType file of
             FIXED \<Rightarrow>
               (case getRecordLength file of
                  None \<Rightarrow> 0
                | Some l \<Rightarrow>
                    if 0 < l \<and> l \<le> 256 then (getRecordCount file mod (256 div l)) * l else 0)
           | VARIABLE \<Rightarrow> (256 - snd (variableSectors (getRecords file) 256)) mod 256))"

subsection \<open>The disk image\<close>

record DiskImageEvent =
  eventType :: string
  eventName :: string

text \<open>
  The state of a \<^verbatim>\<open>DiskImage\<close>. The catalog \<^verbatim>\<open>files\<close> is an object used as a
  dictionary: an association list with one pair for a name, in the order in which the
  host enumerates the keys. \<open>eventHandler\<close> says whether the handler is a function, and
  \<open>fired\<close> is the effect of calling it: the events handed to it so far, each with the
  cached image that the handler finds in \<^verbatim>\<open>event.diskImage\<close> at that moment. The
  handler is taken not to change the disk image it is called from.
\<close>

record DiskImage =
  name :: string
  files :: "(string \<times> DiskFile) list"
  geometry :: PhysicalProperties
  binaryImage :: "byte list option"
  eventHandler :: bool
  fired :: "(DiskImageEvent \<times> byte list option) list"

definition newDiskImage :: "string \<Rightarrow> bool \<Rightarrow> DiskImage" where
  "newDiskImage nm handler =
     \<lparr>name = nm, files = [],
      geometry = \<lparr>totalSectors = Some 1440, sectorsPerTrack = Some 18, tracksPerSide = Some 2,
                  numberOfSides = Some 2, density = Some 2\<rparr>,
      binaryImage = None, eventHandler = handler, fired = []\<rparr>"

definition setEventHandler :: "DiskImage \<Rightarrow> bool \<Rightarrow> DiskImage" where
  "setEventHandler s handler = s\<lparr>eventHandler := handler\<rparr>"

definition fireEvent :: "DiskImage \<Rightarrow> DiskImageEvent \<Rightarrow> DiskImage" where
  "fireEvent s event =
     (if eventHandler s then s\<lparr>fired := fired s @ [(event, binaryImage s)]\<rparr> else s)"

definition getFile :: "DiskImage \<Rightarrow> string \<Rightarrow> DiskFile option" where
  "getFile s fileName = map_of (files s) fileName"

text \<open>
  \<^verbatim>\<open>Array.prototype.sort\<close> with a comparison function: a stable sort, here by
  insertion. The comparison of \<open>getFilesArray\<close> is the host's \<^verbatim>\<open>localeCompare\<close> on
  the names, a parameter of the model.
\<close>

fun insertBy :: "('a \<Rightarrow> 'a \<Rightarrow> int) \<Rightarrow> 'a \<Rightarrow> 'a list \<Rightarrow> 'a list" where
  "insertBy c x [] = [x]"
| "insertBy c x (y # ys) = (if c x y < 0 then x # y # ys else y # insertBy c x ys)"

definition sortBy :: "('a \<Rightarrow> 'a \<Rightarrow> int) \<Rightarrow> 'a list \<Rightarrow> 'a list" where
  "sortBy c xs = foldl (\<lambda>acc x. insertBy c x acc) [] xs"

definition getFilesArray :: "(string \<Rightarrow> string \<Rightarrow> int) \<Rightarrow> DiskImage \<Rightarrow> DiskFile list" where
  "getFilesArray localeCompare s =
     sortBy (\<lambda>a b. localeCompare (getName a) (getName b)) (map snd (files s))"

definition invalidateBinaryImage :: "DiskImage \<Rightarrow> DiskImage" where
  "invalidateBinaryImage s = s\<lparr>binaryImage := None\<rparr>"

definition putFile :: "DiskImage \<Rightarrow> DiskFile \<Rightarrow> DiskImage" where
  "putFile s file =
     (let s1 = s\<lparr>files := AList.update (getName file) file (files s)\<rparr>;
          s2 = invalidateBinaryImage s1
      in fireEvent s2 \<lparr>eventType = ''fileAdded'', eventName = getName file\<rparr>)"

definition deleteFile :: "DiskImage \<Rightarrow> string \<Rightarrow> DiskImage" where
  "deleteFile s fileName =
     (let s1 = s\<lparr>files := AList.delete fileName (files s)\<rparr>;
          s2 = invalidateBinaryImage s1
      in fireEvent s2 \<lparr>eventType = ''fileDeleted'', eventName = fileName\<rparr>)"

subsection \<open>Packing records into sectors\<close>

text \<open>\<^verbatim>\<open>while (sectorBytesLeft > 0) { n = writeByte(data, n, 0); sectorBytesLeft--; }\<close>\<close>

fun writeZeros :: "('a \<Rightarrow> int \<Rightarrow> num \<Rightarrow> 'a) \<Rightarrow> 'a \<Rightarrow> int \<Rightarrow> nat \<Rightarrow> 'a \<times> int" where
  "writeZeros st data n 0 = (data, n)"
| "writeZeros st data n (Suc k) = (case writeByte st data n (Some 0) of (d, n') \<Rightarrow> writeZeros st d n' k)"

text \<open>
  The block that closes a sector, written four times in the source (lines 321-328,
  338-345, 599-606 and 618-625): when bytes are left in the sector, 0xFF and then zeros
  for the rest. It returns the array, the position and the bytes left.
\<close>

definition closeSector :: "('a \<Rightarrow> int \<Rightarrow> num \<Rightarrow> 'a) \<Rightarrow> 'a \<Rightarrow> int \<Rightarrow> int \<Rightarrow> 'a \<times> int \<times> int" where
  "closeSector st data n sectorBytesLeft =
     (if 0 < sectorBytesLeft then
        (case writeByte st data n (Some 0xFF) of
           (d1, n1) \<Rightarrow>
             (case writeZeros st d1 n1 (nat (sectorBytesLeft - 1)) of
                (d2, n2) \<Rightarrow> (d2, n2, 0)))
      else (data, n, sectorBytesLeft))"

text \<open>
  \<^verbatim>\<open>while ((n & 0xFF) !== 0) n = writeByte(data, n, 0)\<close> of createTIFile: zeros up to
  the next multiple of 256.
\<close>

function padSector :: "('a \<Rightarrow> int \<Rightarrow> num \<Rightarrow> 'a) \<Rightarrow> 'a \<Rightarrow> int \<Rightarrow> 'a \<times> int" where
  "padSector st data n =
     (if n AND 0xFF \<noteq> 0 then (case writeByte st data n (Some 0) of (d, n') \<Rightarrow> padSector st d n')
      else (data, n))"
  by pat_completeness auto


lemma and_255_mod: "(n::int) AND 0xFF = n mod 256"
proof -
  have "n AND mask 8 = take_bit 8 n" by (simp add: take_bit_eq_mask)
  then show ?thesis by (simp add: take_bit_eq_mod mask_eq_exp_minus_1)
qed

lemma neg_mod_step: "(n::int) mod 256 \<noteq> 0 \<Longrightarrow> (- (n + 1)) mod 256 < (- n) mod 256"
proof -
  assume nz: "n mod 256 \<noteq> 0"
  have r: "0 \<le> n mod 256" "n mod 256 < 256" by simp_all
  have a: "(- n) mod 256 = 256 - n mod 256" using nz by (simp add: zmod_zminus1_eq_if)
  have b: "(n + 1) mod 256 = (if n mod 256 = 255 then 0 else n mod 256 + 1)"
    using r by (smt (verit) mod_add_left_eq mod_pos_pos_trivial mod_self)
  have c: "(- (n + 1)) mod 256 = (if (n + 1) mod 256 = 0 then 0 else 256 - (n + 1) mod 256)"
    by (rule zmod_zminus1_eq_if)
  show ?thesis
    unfolding a c b using r nz by (auto split: if_splits)
qed

termination padSector
  apply (relation "measure (\<lambda>(st, data, n). nat ((- n) mod 256))")
   apply simp
  apply (clarsimp simp: writeByte_def and_255_mod)
  apply (drule neg_mod_step)
  apply simp
  done

declare padSector.simps [simp del]

subsection \<open>Single-file export: createTIFile\<close>

text \<open>
  \<^verbatim>\<open>(file.getRecordType() << 7) | (file.getDataType() << 1) | file.getFileType()\<close>
\<close>

definition statusFlagsOf :: "DiskFile \<Rightarrow> int" where
  "statusFlagsOf file =
     push_bit 7 (RecordType_num (getRecordType file))
       OR push_bit 1 (DataType_num (getDataType file))
       OR FileType_num (getFileType file)"

text \<open>
  The number of level 3 records: the record count of a file of fixed records, the sector
  count of a file of variable records, 0 for a program.
\<close>

definition level3Records :: "DiskFile \<Rightarrow> int" where
  "level3Records file =
     (if getFileType file = DATA
      then (if getRecordType file = FIXED then getRecordCount file else getSectorCount file)
      else 0)"

text \<open>One turn of the loop over fixed records (lines 303-315); the state is the array,
  the position and \<^verbatim>\<open>recCnt\<close>.\<close>

fun tiFixedStep :: "num \<Rightarrow> num list \<times> int \<times> int \<Rightarrow> Record \<Rightarrow> num list \<times> int \<times> int" where
  "tiFixedStep recordPerSector (data, n, recCnt) r =
     (case writeBytes arrstore data n (getData r) of
        (d, n1) \<Rightarrow>
          if Some (recCnt + 1) = recordPerSector
          then (case padSector arrstore d n1 of (d2, n2) \<Rightarrow> (d2, n2, 0))
          else (d, n1, recCnt + 1))"

text \<open>One turn of the loop over variable records (lines 318-337); the state is the
  array, the position and \<^verbatim>\<open>sectorBytesLeft\<close>.\<close>

fun tiVariableStep :: "num list \<times> int \<times> int \<Rightarrow> Record \<Rightarrow> num list \<times> int \<times> int" where
  "tiVariableStep (data, n, sectorBytesLeft) r =
     (let recData = getData r; len = int (length recData) in
      case (if sectorBytesLeft \<le> len
            then (case closeSector arrstore data n sectorBytesLeft of (d, n', left') \<Rightarrow> (d, n', 256))
            else (data, n, sectorBytesLeft)) of
        (d1, n1, left1) \<Rightarrow>
          (case writeByte arrstore d1 n1 (Some len) of
             (d2, n2) \<Rightarrow>
               (case writeBytes arrstore d2 n2 recData of
                  (d3, n3) \<Rightarrow> (d3, n3, left1 - 1 - len))))"

text \<open>The content of the file after the header (lines 296-353), from position \<open>n\<close>.\<close>

definition tiContent :: "DiskFile \<Rightarrow> num list \<Rightarrow> int \<Rightarrow> num list" where
  "tiContent file data n =
     (case getFileType file of
        DATA \<Rightarrow>
          (case getRecordType file of
             FIXED \<Rightarrow>
               (case foldl (tiFixedStep (floor256 (getRecordLength file))) (data, n, 0)
                       (getRecords file) of
                  (d, n', recCnt) \<Rightarrow> d)
           | VARIABLE \<Rightarrow>
               (case foldl tiVariableStep (data, n, 256) (getRecords file) of
                  (d, n', sectorBytesLeft) \<Rightarrow>
                    (case closeSector arrstore d n' sectorBytesLeft of (d2, n2, left2) \<Rightarrow> d2)))
      | PROGRAM \<Rightarrow> fst (storeAll arrstore data n (map (\<lambda>b. Some (uint b)) (getProgram file))))"

definition createTIFile :: "DiskImage \<Rightarrow> string \<Rightarrow> byte list option" where
  "createTIFile s fileName =
     (case getFile s fileName of
        None \<Rightarrow> None
      | Some file \<Rightarrow>
          (case writeByte arrstore [] 0 (Some 0x07) of (d1, n1) \<Rightarrow>
           case writeString arrstore d1 n1 ''TIFILES'' 7 of (d2, n2) \<Rightarrow>
           case writeWord arrstore d2 n2 (Some (getSectorCount file)) of (d3, n3) \<Rightarrow>
           case writeByte arrstore d3 n3 (Some (statusFlagsOf file)) of (d4, n4) \<Rightarrow>
           case writeByte arrstore d4 n4
                  (if getFileType file = DATA \<and> nless (Some 0) (getRecordLength file)
                   then floor256 (nadd (getRecordLength file)
                                   (Some (if getRecordType file = VARIABLE then 1 else 0)))
                   else Some 0) of (d5, n5) \<Rightarrow>
           case writeByte arrstore d5 n5 (Some (getEOFOffset file)) of (d6, n6) \<Rightarrow>
           case writeByte arrstore d6 n6 (getRecordLength file) of (d7, n7) \<Rightarrow>
           case writeLEWord arrstore d7 n7 (Some (level3Records file)) of (d8, n8) \<Rightarrow>
           case writeString arrstore d8 n8 fileName 10 of (d9, n9) \<Rightarrow>
           case storeAll arrstore d9 n9 (replicate (nat (128 - n9)) (Some 0)) of (d10, n10) \<Rightarrow>
             Some (newUint8Array (tiContent file d10 n10))))"

subsection \<open>Disk image encode: createBinaryImage\<close>

datatype error = RangeError

text \<open>\<^verbatim>\<open>new Uint8Array(length)\<close>: zeros; no element for \<^verbatim>\<open>NaN\<close>; a negative length
  raises.\<close>

definition allocUint8Array :: "num \<Rightarrow> error + byte list" where
  "allocUint8Array len =
     (case len of
        None \<Rightarrow> Inr []
      | Some l \<Rightarrow> if l < 0 then Inl RangeError else Inr (replicate (nat l) 0))"

text \<open>One turn of the loop over fixed records (lines 579-590); the state is the image,
  the position, \<^verbatim>\<open>sectorNo\<close> and \<^verbatim>\<open>recCnt\<close>.\<close>

fun imageFixedStep ::
  "num \<Rightarrow> byte list \<times> int \<times> int \<times> int \<Rightarrow> Record \<Rightarrow> byte list \<times> int \<times> int \<times> int" where
  "imageFixedStep recordPerSector (dskImg, n, sectorNo, recCnt) r =
     (case writeBytes u8store dskImg n (getData r) of
        (d, n1) \<Rightarrow>
          if Some (recCnt + 1) = recordPerSector
          then (d, (sectorNo + 1) * 256, sectorNo + 1, 0)
          else (d, n1, sectorNo, recCnt + 1))"

text \<open>One turn of the loop over variable records (lines 596-617); the state is the
  image, the position, \<^verbatim>\<open>sectorNo\<close> and \<^verbatim>\<open>sectorBytesLeft\<close>.\<close>

fun imageVariableStep ::
  "byte list \<times> int \<times> int \<times> int \<Rightarrow> Record \<Rightarrow> byte list \<times> int \<times> int \<times> int" where
  "imageVariableStep (dskImg, n, sectorNo, sectorBytesLeft) r =
     (let data = getData r; len = int (length data) in
      case (if sectorBytesLeft \<le> len
            then (case closeSector u8store dskImg n sectorBytesLeft of
                    (d, n', left') \<Rightarrow> (d, (sectorNo + 1) * 256, sectorNo + 1, 256))
            else (dskImg, n, sectorNo, sectorBytesLeft)) of
        (d1, n1, sectorNo1, left1) \<Rightarrow>
          (case writeByte u8store d1 n1 (Some len) of
             (d2, n2) \<Rightarrow>
               (case writeBytes u8store d2 n2 data of
                  (d3, n3) \<Rightarrow> (d3, n3, sectorNo1, left1 - 1 - len))))"

text \<open>The data sectors of one file (lines 569-637), from sector \<open>startSectorNo\<close>: the
  image and the number of the last sector used.\<close>

definition writeDataSectors :: "byte list \<Rightarrow> DiskFile \<Rightarrow> int \<Rightarrow> byte list \<times> int" where
  "writeDataSectors dskImg file startSectorNo =
     (case getFileType file of
        DATA \<Rightarrow>
          (case getRecordType file of
             FIXED \<Rightarrow>
               (case foldl (imageFixedStep (floor256 (getRecordLength file)))
                       (dskImg, startSectorNo * 256, startSectorNo, 0) (getRecords file) of
                  (d, n, sectorNo, recCnt) \<Rightarrow> (d, if recCnt = 0 then sectorNo - 1 else sectorNo))
           | VARIABLE \<Rightarrow>
               (case foldl imageVariableStep
                       (dskImg, startSectorNo * 256, startSectorNo, 256) (getRecords file) of
                  (d, n, sectorNo, sectorBytesLeft) \<Rightarrow>
                    (case closeSector u8store d n sectorBytesLeft of
                       (d2, n2, left2) \<Rightarrow> (d2, if left2 = 256 then sectorNo - 1 else sectorNo))))
      | PROGRAM \<Rightarrow>
          (case writeBytes u8store dskImg (startSectorNo * 256)
                  (map (\<lambda>b. Some (uint b)) (getProgram file)) of
             (d, n) \<Rightarrow>
               (d, startSectorNo + int (length (getProgram file)) div 256
                     - (if int (length (getProgram file)) mod 256 = 0 then 1 else 0))))"

text \<open>The file descriptor record up to the level 3 record count (lines 550-567).\<close>

definition writeFileDescriptor :: "byte list \<Rightarrow> DiskFile \<Rightarrow> int \<Rightarrow> byte list" where
  "writeFileDescriptor dskImg file fileDescriptorAddr =
     (case writeString u8store dskImg fileDescriptorAddr (getName file) 10 of (d1, n1) \<Rightarrow>
      case writeWord u8store d1 n1 (Some 0) of (d2, n2) \<Rightarrow>
      case writeByte u8store d2 n2 (Some (statusFlagsOf file)) of (d3, n3) \<Rightarrow>
      case writeByte u8store d3 n3
             (if getFileType file = DATA
              then floor256 (nadd (getRecordLength file)
                              (Some (if getRecordType file = VARIABLE then 1 else 0)))
              else Some 0) of (d4, n4) \<Rightarrow>
      case writeWord u8store d4 n4 (Some (getSectorCount file)) of (d5, n5) \<Rightarrow>
      case writeByte u8store d5 n5 (Some (getEOFOffset file)) of (d6, n6) \<Rightarrow>
      case writeByte u8store d6 n6
             (if getFileType file = DATA then getRecordLength file else Some 0) of (d7, n7) \<Rightarrow>
      case writeLEWord u8store d7 n7 (Some (level3Records file)) of (d8, n8) \<Rightarrow> d8)"

text \<open>The data chain pointer block (lines 640-645).\<close>

definition writeDataChainPointer :: "byte list \<Rightarrow> int \<Rightarrow> int \<Rightarrow> int \<Rightarrow> byte list" where
  "writeDataChainPointer dskImg fileDescriptorAddr au sectorCount =
     (case writeByte u8store dskImg (fileDescriptorAddr + 0x1C) (Some (au AND 0x00FF)) of (d1, n1) \<Rightarrow>
      case writeByte u8store d1 n1
             (Some (push_bit 4 (sectorCount AND 0x000F) OR drop_bit 8 (au AND 0x0F00))) of (d2, n2) \<Rightarrow>
      case writeByte u8store d2 n2 (Some (drop_bit 4 (sectorCount AND 0x0FF0))) of (d3, n3) \<Rightarrow> d3)"

text \<open>\<^verbatim>\<open>dskImg[0x38 + (i >> 3)] |= (1 << (i & 7))\<close>\<close>

definition markAllocationUnit :: "byte list \<Rightarrow> int \<Rightarrow> byte list" where
  "markAllocationUnit dskImg i =
     (let k = 0x38 + drop_bit 3 i
      in u8store dskImg k (Some (bor (rd dskImg (Some k)) (Some (push_bit (nat (i AND 7)) 1)))))"

text \<open>One turn of the loop over the files (lines 544-656); the state is the image and
  \<^verbatim>\<open>nextDataSectorNo\<close>, \<open>f\<close> is the index of the file.\<close>

fun encodeFile :: "int \<Rightarrow> int \<Rightarrow> int \<Rightarrow> byte list \<times> int \<Rightarrow> int \<times> DiskFile \<Rightarrow> byte list \<times> int" where
  "encodeFile sectorsPerAU sectorsPerAUForDataChainPointers firstFdrSector
       (dskImg, nextDataSectorNo) (f, file) =
     (let fdrSectorNo = firstFdrSector + f * sectorsPerAU;
          d1 = fst (writeWord u8store dskImg (256 + 2 * f) (Some fdrSectorNo));
          fileDescriptorAddr = fdrSectorNo * 256;
          d2 = writeFileDescriptor d1 file fileDescriptorAddr;
          startSectorNo = nextDataSectorNo
      in case writeDataSectors d2 file startSectorNo of
           (d3, sectorNo) \<Rightarrow>
             (let au = sectorsToAllocationUnits startSectorNo sectorsPerAUForDataChainPointers;
                  sectorCount = sectorNo - startSectorNo;
                  d4 = writeDataChainPointer d3 fileDescriptorAddr au sectorCount;
                  startAU = sectorsToAllocationUnits startSectorNo sectorsPerAU;
                  endAU = sectorsToAllocationUnits sectorNo sectorsPerAU;
                  d5 = foldl markAllocationUnit d4 [startAU..endAU];
                  fdrAU = sectorsToAllocationUnits fdrSectorNo sectorsPerAU;
                  d6 = markAllocationUnit d5 fdrAU
              in (d6, ceilN (sectorNo + 1) sectorsPerAU)))"

text \<open>The volume information block and the start of the allocation bit map (lines
  526-539).\<close>

definition writeVolumeInformation :: "byte list \<Rightarrow> string \<Rightarrow> PhysicalProperties \<Rightarrow> int \<Rightarrow> byte list" where
  "writeVolumeInformation dskImg volumeName g sectorsPerAU =
     (case writeString u8store dskImg 0 volumeName 10 of (d1, n1) \<Rightarrow>
      case writeWord u8store d1 n1 (totalSectors g) of (d2, n2) \<Rightarrow>
      case writeByte u8store d2 n2 (sectorsPerTrack g) of (d3, n3) \<Rightarrow>
      case writeString u8store d3 n3 ''DSK'' 3 of (d4, n4) \<Rightarrow>
      case writeByte u8store d4 n4 (Some 0x20) of (d5, n5) \<Rightarrow>
      case writeByte u8store d5 n5 (tracksPerSide g) of (d6, n6) \<Rightarrow>
      case writeByte u8store d6 n6 (numberOfSides g) of (d7, n7) \<Rightarrow>
      case writeByte u8store d7 n7 (density g) of (d8, n8) \<Rightarrow>
      case writeByte u8store d8 0x38 (Some (if sectorsPerAU = 1 then 0x03 else 0x01)) of (d9, n9) \<Rightarrow>
        fst (storeAll u8store d9 0xEC (replicate 20 (Some 0xFF))))"

text \<open>The encoding of a catalog, given as the sorted array of its files, into a fresh
  image \<open>dskImg\<close> (lines 526-657).\<close>

definition encodeImage :: "byte list \<Rightarrow> string \<Rightarrow> PhysicalProperties \<Rightarrow> DiskFile list \<Rightarrow> byte list" where
  "encodeImage dskImg volumeName g filesArray =
     (let sectorsPerAU = getSectorsPerAllocationUnit g;
          sectorsPerAUForDataChainPointers = getSectorsPerAllocationUnitForDataChainPointers g;
          d0 = writeVolumeInformation dskImg volumeName g sectorsPerAU;
          fileCount = min (length filesArray) 127;
          firstFdrSector = max 2 sectorsPerAU;
          nextDataSectorNo = ceilN (firstFdrSector + int fileCount * sectorsPerAU) sectorsPerAU
      in fst (foldl (encodeFile sectorsPerAU sectorsPerAUForDataChainPointers firstFdrSector)
                (d0, nextDataSectorNo) (zip (map int [0..<fileCount]) filesArray)))"

definition createBinaryImage :: "(string \<Rightarrow> string \<Rightarrow> int) \<Rightarrow> DiskImage \<Rightarrow> error + byte list" where
  "createBinaryImage localeCompare s =
     (case allocUint8Array (nmul (totalSectors (geometry s)) (Some 256)) of
        Inl e \<Rightarrow> Inl e
      | Inr dskImg \<Rightarrow>
          Inr (encodeImage dskImg (name s) (geometry s) (getFilesArray localeCompare s)))"

definition getBinaryImage ::
  "(string \<Rightarrow> string \<Rightarrow> int) \<Rightarrow> DiskImage \<Rightarrow> (error + byte list) \<times> DiskImage" where
  "getBinaryImage localeCompare s =
     (case binaryImage s of
        None \<Rightarrow>
          (case createBinaryImage localeCompare s of
             Inl e \<Rightarrow> (Inl e, s)
           | Inr img \<Rightarrow> (Inr img, s\<lparr>binaryImage := Some img\<rparr>))
      | Some img \<Rightarrow> (Inr img, s))"

text \<open>\<^verbatim>\<open>readSector\<close>: a fresh array of 256 bytes, filled from the binary image.\<close>

definition readSector ::
  "(string \<Rightarrow> string \<Rightarrow> int) \<Rightarrow> DiskImage \<Rightarrow> int \<Rightarrow> (error + byte list) \<times> DiskImage" where
  "readSector localeCompare s sectorNo =
     (case getBinaryImage localeCompare s of
        (Inl e, s') \<Rightarrow> (Inl e, s')
      | (Inr tiDiskImage, s') \<Rightarrow>
          (let sectorOffset = 256 * sectorNo
           in (Inr (fst (storeAll u8store (replicate 256 0) 0
                          (map (\<lambda>i. rd tiDiskImage (Some (sectorOffset + int i))) [0..<256]))),
               s')))"

subsection \<open>Strings read from a buffer\<close>

text \<open>
  Strings are lists of 8-bit characters. \<^verbatim>\<open>trim()\<close> removes the white space of the
  host language at both ends; among 8-bit characters that is tab, line feed, vertical
  tab, form feed, carriage return, space and the no-break space.
\<close>

definition isWhiteSpace :: "char \<Rightarrow> bool" where
  "isWhiteSpace c = ((of_char c :: nat) \<in> {9, 10, 11, 12, 13, 32, 160})"

definition trim :: "string \<Rightarrow> string" where
  "trim str = rev (dropWhile isWhiteSpace (rev (dropWhile isWhiteSpace str)))"

text \<open>
  The loop that reads a name (lines 118-122, 146-150, 383-388 and 405-410): of the
  \<open>count\<close> bytes from \<open>start\<close>, those from 32 to 127 as characters.
\<close>

definition readChars :: "byte list \<Rightarrow> num \<Rightarrow> nat \<Rightarrow> string" where
  "readChars fileBuffer start count =
     concat (map (\<lambda>i. case rd fileBuffer (nadd start (Some (int i))) of
                         None \<Rightarrow> []
                       | Some ch \<Rightarrow> if 32 \<le> ch \<and> ch < 128 then [char_of ch] else [])
                 [0..<count])"

text \<open>The characters that \<^verbatim>\<open>/[0-9A-Za-z_\-]/\<close> matches.\<close>

definition isFileNameChar :: "char \<Rightarrow> bool" where
  "isFileNameChar c =
     (let k = (of_char c :: nat)
      in (48 \<le> k \<and> k \<le> 57) \<or> (65 \<le> k \<and> k \<le> 90) \<or> (97 \<le> k \<and> k \<le> 122) \<or> k = 95 \<or> k = 45)"

subsection \<open>Reading the records of a sector\<close>

text \<open>
  The loop over the variable records of a sector (lines 234-245 and 478-489): \<open>i\<close> is
  the position in the buffer, \<open>recordLength\<close> the length byte read last. Each turn reads
  a record of \<open>recordLength\<close> bytes, or of the bytes left in the sector when they are
  fewer, and then the next length byte when the sector has one.
\<close>

function variableLoop :: "byte list \<Rightarrow> int \<Rightarrow> int \<Rightarrow> num \<Rightarrow> Record list \<Rightarrow> Record list" where
  "variableLoop fileBuffer i sectorBytesLeft recordLength recs =
     (if recordLength \<noteq> Some 0xFF \<and> 0 < sectorBytesLeft then
        (let k = (case recordLength of None \<Rightarrow> 0 | Some l \<Rightarrow> min (max l 0) sectorBytesLeft);
             data = map (\<lambda>j. rd fileBuffer (Some (i + int j))) [0..<nat k];
             recs1 = recs @ [VariableRecord data]
         in if 0 < sectorBytesLeft - k
            then variableLoop fileBuffer (i + k + 1) (sectorBytesLeft - k - 1)
                   (rd fileBuffer (Some (i + k))) recs1
            else variableLoop fileBuffer (i + k) (sectorBytesLeft - k) recordLength recs1)
      else recs)"
  by pat_completeness auto
termination
  apply (relation "measure (\<lambda>(fileBuffer, i, sectorBytesLeft, recordLength, recs). nat sectorBytesLeft)")
    apply simp
   apply (auto split: option.splits)
  done

declare variableLoop.simps [simp del]

text \<open>The variable records of the sector at position \<open>i\<close>: the first length byte, then
  the loop with 255 bytes left.\<close>

definition readVariableSector :: "byte list \<Rightarrow> int \<Rightarrow> Record list" where
  "readVariableSector fileBuffer i = variableLoop fileBuffer (i + 1) 255 (rd fileBuffer (Some i)) []"

text \<open>How often a loop \<^verbatim>\<open>for (j = 0; j < x; j++)\<close> turns.\<close>

definition turns :: "num \<Rightarrow> nat" where
  "turns x = (case x of None \<Rightarrow> 0 | Some v \<Rightarrow> nat v)"

text \<open>The fixed records of sector \<open>sector\<close> of a disk image (lines 465-471).\<close>

definition readFixedSector :: "byte list \<Rightarrow> int \<Rightarrow> num \<Rightarrow> num \<Rightarrow> Record list" where
  "readFixedSector fileBuffer sector recordsPerSector recordLength =
     map (\<lambda>recordIndex.
            newFixedRecord
              (map (\<lambda>i. rd fileBuffer
                          (nadd (Some (sector * 256))
                             (nadd (nmul (Some (int recordIndex)) recordLength) (Some (int i)))))
                   [0..<turns recordLength])
              recordLength)
         [0..<turns recordsPerSector]"

subsection \<open>Disk image decode: loadBinaryImage\<close>

text \<open>
  The loop over the sectors of a run (lines 461-502); the state is the file, the
  program bytes read so far and \<^verbatim>\<open>sectorsLeft\<close>. A sector of variable records that
  starts outside the buffer ends the loop.
\<close>

function sectorLoop ::
  "byte list \<Rightarrow> int \<Rightarrow> int \<Rightarrow> num \<Rightarrow> num \<Rightarrow> num \<Rightarrow> int \<Rightarrow> int
     \<Rightarrow> DiskFile \<times> num list \<times> int \<Rightarrow> DiskFile \<times> num list \<times> int" where
  "sectorLoop fileBuffer fileType recordType recordsPerSector recordLength endOfFileOffset
       sector endSector (diskFile, program, sectorsLeft) =
     (if sector \<le> endSector then
        (if fileType = FileType_num DATA then
           (if recordType = RecordType_num FIXED then
              sectorLoop fileBuffer fileType recordType recordsPerSector recordLength
                endOfFileOffset (sector + 1) endSector
                (foldl putRecord diskFile
                   (readFixedSector fileBuffer sector recordsPerSector recordLength),
                 program, sectorsLeft - 1)
            else if sector * 256 < int (length fileBuffer) then
              sectorLoop fileBuffer fileType recordType recordsPerSector recordLength
                endOfFileOffset (sector + 1) endSector
                (foldl putRecord diskFile (readVariableSector fileBuffer (sector * 256)),
                 program, sectorsLeft - 1)
            else (diskFile, program, sectorsLeft))
         else if 0 < sectorsLeft then
           sectorLoop fileBuffer fileType recordType recordsPerSector recordLength
             endOfFileOffset (sector + 1) endSector
             (diskFile,
              program @ map (\<lambda>i. rd fileBuffer (Some (sector * 256 + int i)))
                          [0..<(if 1 < sectorsLeft \<or> sectorsLeft = 1 \<and> endOfFileOffset = Some 0
                                then 256 else turns endOfFileOffset)],
              sectorsLeft - 1)
         else
           sectorLoop fileBuffer fileType recordType recordsPerSector recordLength
             endOfFileOffset (sector + 1) endSector (diskFile, program, sectorsLeft - 1))
      else (diskFile, program, sectorsLeft))"
  by pat_completeness auto
termination
  apply (relation "measure (\<lambda>(fileBuffer, fileType, recordType, recordsPerSector, recordLength,
            endOfFileOffset, sector, endSector, st). nat (endSector + 1 - sector))")
      apply simp_all
  done

declare sectorLoop.simps [simp del]

text \<open>
  The loop over the data chain pointers of a file descriptor record (lines 446-504);
  the state is the file, the program bytes, \<^verbatim>\<open>sectorsLeft\<close> and \<^verbatim>\<open>nLast\<close>.
  \<open>sectorsPerAU\<close> is what \<^verbatim>\<open>getSectorsPerAllocationUnitForDataChainPointers\<close> gives
  for the geometry the disk image has while it loads.
\<close>

function dataChainLoop ::
  "byte list \<Rightarrow> int \<Rightarrow> num \<Rightarrow> int \<Rightarrow> int \<Rightarrow> num \<Rightarrow> num \<Rightarrow> num \<Rightarrow> nat
     \<Rightarrow> DiskFile \<times> num list \<times> int \<times> int \<Rightarrow> DiskFile \<times> num list \<times> int \<times> int" where
  "dataChainLoop fileBuffer sectorsPerAU fileDescriptorRecord fileType recordType
       recordsPerSector recordLength endOfFileOffset dataChainPointerIndex
       (diskFile, program, sectorsLeft, nLast) =
     (if dataChainPointerIndex < 0x4C \<and> 0 < sectorsLeft then
        (let dataChainPointer =
               nadd fileDescriptorRecord (Some (0x1C + 3 * int dataChainPointerIndex));
             b0 = rd fileBuffer dataChainPointer;
             b1 = rd fileBuffer (nadd dataChainPointer (Some 1));
             b2 = rd fileBuffer (nadd dataChainPointer (Some 2));
             m = bor (Some (push_bit 8 (band b1 0x0F))) b0 * sectorsPerAU;
             n = bor (Some (shl b2 4)) (Some (drop_bit 4 (band b1 0xF0)))
         in if m \<noteq> 0 then
              (case sectorLoop fileBuffer fileType recordType recordsPerSector recordLength
                      endOfFileOffset m (m + n - (nLast + 1)) (diskFile, program, sectorsLeft) of
                 (diskFile', program', sectorsLeft') \<Rightarrow>
                   dataChainLoop fileBuffer sectorsPerAU fileDescriptorRecord fileType recordType
                     recordsPerSector recordLength endOfFileOffset (dataChainPointerIndex + 1)
                     (diskFile', program', sectorsLeft', n))
            else
              dataChainLoop fileBuffer sectorsPerAU fileDescriptorRecord fileType recordType
                recordsPerSector recordLength endOfFileOffset (dataChainPointerIndex + 1)
                (diskFile, program, sectorsLeft, nLast))
      else (diskFile, program, sectorsLeft, nLast))"
  by pat_completeness auto
termination
  apply (relation "measure (\<lambda>(fileBuffer, sectorsPerAU, fileDescriptorRecord, fileType,
            recordType, recordsPerSector, recordLength, endOfFileOffset, dataChainPointerIndex,
            st). 0x4C - dataChainPointerIndex)")
    apply auto
  done

declare dataChainLoop.simps [simp del]

text \<open>
  The file that a file descriptor record describes (lines 403-508), before it is put
  into the catalog. When the number of sectors allocated is \<^verbatim>\<open>NaN\<close> the loop over
  the data chain pointers does not turn.
\<close>

definition decodeFile :: "byte list \<Rightarrow> int \<Rightarrow> num \<Rightarrow> DiskFile" where
  "decodeFile fileBuffer sectorsPerAU fileDescriptorRecord =
     (let fileName = trim (readChars fileBuffer fileDescriptorRecord 10);
          statusFlags = rd fileBuffer (nadd fileDescriptorRecord (Some 0x0C));
          recordType = drop_bit 7 (band statusFlags 0x80);
          datatype = drop_bit 1 (band statusFlags 0x02);
          fileType = band statusFlags 0x01;
          recordsPerSector = rd fileBuffer (nadd fileDescriptorRecord (Some 0x0D));
          sectorsAllocated =
            nadd (Some (shl (rd fileBuffer (nadd fileDescriptorRecord (Some 0x0E))) 8))
              (rd fileBuffer (nadd fileDescriptorRecord (Some 0x0F)));
          endOfFileOffset = rd fileBuffer (nadd fileDescriptorRecord (Some 0x10));
          recordLength = rd fileBuffer (nadd fileDescriptorRecord (Some 0x11));
          diskFile =
            (if fileType = FileType_num DATA
             then newDiskFile fileName (FileType_of fileType) (RecordType_of recordType)
                    recordLength (DataType_of datatype)
             else newDiskFile fileName (FileType_of fileType) (RecordType_of 0) (Some 0)
                    (DataType_of 0))
      in case (case sectorsAllocated of
                 None \<Rightarrow> (diskFile, [], 0, -1)
               | Some sectorsLeft \<Rightarrow>
                   dataChainLoop fileBuffer sectorsPerAU fileDescriptorRecord fileType recordType
                     recordsPerSector recordLength endOfFileOffset 0
                     (diskFile, [], sectorsLeft, -1)) of
           (diskFile', program, sectorsLeft', nLast) \<Rightarrow>
             if fileType = FileType_num PROGRAM
             then setProgram diskFile' (newUint8Array program) else diskFile')"

text \<open>The entry \<open>fileDescriptorIndex\<close> of the file descriptor index: the sector number
  of a file descriptor record (line 401).\<close>

definition fileDescriptorSectorNo :: "byte list \<Rightarrow> nat \<Rightarrow> num" where
  "fileDescriptorSectorNo fileBuffer fileDescriptorIndex =
     nadd (Some (shl (rd fileBuffer (Some (0x100 + int fileDescriptorIndex * 2))) 8))
       (rd fileBuffer (Some (0x100 + int fileDescriptorIndex * 2 + 1)))"

text \<open>One turn of the loop over the 128 entries of the file descriptor index (lines
  400-511): an entry that is not 0 gives a file, which \<^verbatim>\<open>putFile\<close> puts into the
  catalog.\<close>

definition loadDescriptor :: "byte list \<Rightarrow> int \<Rightarrow> DiskImage \<Rightarrow> nat \<Rightarrow> DiskImage" where
  "loadDescriptor fileBuffer sectorsPerAU s fileDescriptorIndex =
     (if fileDescriptorSectorNo fileBuffer fileDescriptorIndex \<noteq> Some 0
      then putFile s
             (decodeFile fileBuffer sectorsPerAU
                (nmul (fileDescriptorSectorNo fileBuffer fileDescriptorIndex) (Some 256)))
      else s)"

definition loadBinaryImage :: "DiskImage \<Rightarrow> byte list \<Rightarrow> DiskImage" where
  "loadBinaryImage s fileBuffer =
     (let volumeName = trim (readChars fileBuffer (Some 0) 10);
          totalSectors = nadd (Some (shl (rd fileBuffer (Some 0x0A)) 8)) (rd fileBuffer (Some 0x0B));
          sectorsPerAU = getSectorsPerAllocationUnitForDataChainPointers (geometry s);
          sectorsPerTrack = rd fileBuffer (Some 0x0C);
          tracksPerSide = rd fileBuffer (Some 0x11);
          numberOfSides = rd fileBuffer (Some 0x12);
          density = rd fileBuffer (Some 0x13);
          s1 = s\<lparr>files := []\<rparr>;
          s2 = foldl (loadDescriptor fileBuffer sectorsPerAU) s1 [0..<128]
      in s2\<lparr>name := volumeName,
            geometry := \<lparr>totalSectors = totalSectors, sectorsPerTrack = sectorsPerTrack,
                          tracksPerSide = tracksPerSide, numberOfSides = numberOfSides,
                          density = density\<rparr>,
            binaryImage := Some fileBuffer\<rparr>)"

subsection \<open>Single-file import: loadTIFile\<close>

text \<open>What the header of the buffer gives (lines 100-180).\<close>

record TIHeader =
  hFileName :: string
  hSectors :: int
  hRecsPerSector :: int
  hRecordLength :: int
  hRecordType :: int
  hDatatype :: int
  hFileType :: int
  hFileLength :: int
  hSectorOffset :: int
  hPcFormat :: bool

text \<open>\<^verbatim>\<open>fileBuffer[k]\<close> for a position below 0x80, read where the buffer is known to be
  longer than 0x80 bytes.\<close>

definition byteAt :: "byte list \<Rightarrow> nat \<Rightarrow> int" where
  "byteAt fileBuffer k = uint (fileBuffer ! k)"

text \<open>\<^verbatim>\<open>sectors * 256 - (eofOffset > 0 ? 256 - eofOffset : 0)\<close>\<close>

definition declaredLength :: "int \<Rightarrow> int \<Rightarrow> int" where
  "declaredLength sectors eofOffset = sectors * 256 - (if 0 < eofOffset then 256 - eofOffset else 0)"

text \<open>
  The three formats. \<open>toUpperCase\<close> is the host's function of that name, a parameter of
  the model: the code only compares two of its results. The buffer is longer than 0x80
  bytes here.
\<close>

definition isTIFiles :: "byte list \<Rightarrow> bool" where
  "isTIFiles fileBuffer =
     (byteAt fileBuffer 0 = 0x07
      \<and> map (\<lambda>i. char_of (byteAt fileBuffer i)) [1..<8] = ''TIFILES'')"

definition isV9T9 :: "(string \<Rightarrow> 'u) \<Rightarrow> string \<Rightarrow> byte list \<Rightarrow> bool" where
  "isV9T9 toUpperCase fileName fileBuffer =
     (toUpperCase (trim (map (\<lambda>i. char_of (byteAt fileBuffer i)) [0..<8]))
      = toUpperCase (trim (take 8 fileName)))"

definition tiFilesHeader :: "string \<Rightarrow> byte list \<Rightarrow> bool \<Rightarrow> TIHeader" where
  "tiFilesHeader fileName fileBuffer ignoreTIFileName =
     (let embedded =
            (if \<not> ignoreTIFileName \<and> byteAt fileBuffer 0x10 \<noteq> 0xCA
             then trim (readChars fileBuffer (Some 0x10) 10) else []);
          tiFileName =
            (if 0 < length embedded then embedded else take 10 (filter isFileNameChar fileName));
          sectors = push_bit 8 (byteAt fileBuffer 0x8) OR byteAt fileBuffer 0x9;
          flags = byteAt fileBuffer 0xA;
          eofOffset = byteAt fileBuffer 0xC
      in \<lparr>hFileName = tiFileName, hSectors = sectors, hRecsPerSector = byteAt fileBuffer 0xB,
          hRecordLength = byteAt fileBuffer 0xD, hRecordType = drop_bit 7 (flags AND 0x80),
          hDatatype = drop_bit 1 (flags AND 0x02), hFileType = flags AND 0x01,
          hFileLength = declaredLength sectors eofOffset, hSectorOffset = 0x80,
          hPcFormat = False\<rparr>)"

definition v9t9Header :: "byte list \<Rightarrow> TIHeader" where
  "v9t9Header fileBuffer =
     (let flags = byteAt fileBuffer 0x0C;
          sectors = push_bit 8 (byteAt fileBuffer 0x0E) + byteAt fileBuffer 0x0F;
          eofOffset = byteAt fileBuffer 0x10
      in \<lparr>hFileName = trim (readChars fileBuffer (Some 0) 10), hSectors = sectors,
          hRecsPerSector = byteAt fileBuffer 0x0D, hRecordLength = byteAt fileBuffer 0x11,
          hRecordType = drop_bit 7 (flags AND 0x80), hDatatype = drop_bit 1 (flags AND 0x02),
          hFileType = flags AND 0x01, hFileLength = declaredLength sectors eofOffset,
          hSectorOffset = 0x80, hPcFormat = False\<rparr>)"

text \<open>The third format (lines 163-180). The loop adds a character of \<open>fileName\<close> when it
  is of the charset and \<^verbatim>\<open>fileName.length < 10\<close>.\<close>

definition fallbackHeader :: "string \<Rightarrow> byte list \<Rightarrow> TIHeader" where
  "fallbackHeader fileName fileBuffer =
     \<lparr>hFileName = filter (\<lambda>c. isFileNameChar c \<and> length fileName < 10) fileName,
      hSectors = int (length fileBuffer) div 256, hRecsPerSector = 3, hRecordLength = 80,
      hRecordType = RecordType_num FIXED, hDatatype = DataType_num DISPLAY,
      hFileType = FileType_num DATA, hFileLength = int (length fileBuffer), hSectorOffset = 0,
      hPcFormat = True\<rparr>"

definition tiHeader :: "(string \<Rightarrow> 'u) \<Rightarrow> string \<Rightarrow> byte list \<Rightarrow> bool \<Rightarrow> TIHeader" where
  "tiHeader toUpperCase fileName fileBuffer ignoreTIFileName =
     (if isTIFiles fileBuffer then tiFilesHeader fileName fileBuffer ignoreTIFileName
      else if isV9T9 toUpperCase fileName fileBuffer then v9t9Header fileBuffer
      else fallbackHeader fileName fileBuffer)"

text \<open>The fixed records of a file with a header (lines 200-210).\<close>

definition tiFixedRecords :: "byte list \<Rightarrow> TIHeader \<Rightarrow> Record list" where
  "tiFixedRecords fileBuffer h =
     concat (map (\<lambda>sector.
       concat (map (\<lambda>rec.
         if int sector * 256 + int rec * hRecordLength h < hFileLength h
         then [newFixedRecord
                 (map (\<lambda>i. rd fileBuffer
                             (Some (hSectorOffset h + int sector * 256 + int rec * hRecordLength h
                                    + int i)))
                      [0..<nat (hRecordLength h)])
                 (Some (hRecordLength h))]
         else [])
         [0..<nat (hRecsPerSector h)]))
       [0..<nat (hSectors h)])"

text \<open>
  The fixed records of a buffer without a header (lines 212-226): the bytes in chunks of
  \<open>recordLength\<close>; after a chunk two bytes are skipped when the first is 0x0D or the
  second is 0x0A. The state is the position, the chunk and the records so far.
\<close>

function pcLoop :: "byte list \<Rightarrow> int \<Rightarrow> nat \<Rightarrow> num list \<Rightarrow> Record list \<Rightarrow> num list \<times> Record list" where
  "pcLoop fileBuffer recordLength i data recs =
     (if i < length fileBuffer then
        (let data1 = data @ [rd fileBuffer (Some (int i))] in
         if int (length data1) = recordLength then
           pcLoop fileBuffer recordLength
             (if rd fileBuffer (Some (int i + 1)) = Some 0xd \<or> rd fileBuffer (Some (int i + 2)) = Some 0xa
              then i + 3 else i + 1)
             [] (recs @ [newFixedRecord data1 (Some recordLength)])
         else pcLoop fileBuffer recordLength (i + 1) data1 recs)
      else (data, recs))"
  by pat_completeness auto
termination
  apply (relation "measure (\<lambda>(fileBuffer, recordLength, i, data, recs). length fileBuffer - i)")
    apply auto
  done

declare pcLoop.simps [simp del]

definition pcRecords :: "byte list \<Rightarrow> int \<Rightarrow> Record list" where
  "pcRecords fileBuffer recordLength =
     (case pcLoop fileBuffer recordLength 0 [] [] of
        (data, recs) \<Rightarrow>
          if 0 < length data then recs @ [newFixedRecord data (Some recordLength)] else recs)"

text \<open>The file that the content of the buffer gives (lines 193-257). A program of a
  negative declared length raises, \<^verbatim>\<open>new Uint8Array\<close> refusing the length.\<close>

definition tiFile :: "byte list \<Rightarrow> TIHeader \<Rightarrow> error + DiskFile" where
  "tiFile fileBuffer h =
     (if hFileType h = FileType_num DATA then
        Inr (foldl putRecord
               (newDiskFile (hFileName h) (FileType_of (hFileType h)) (RecordType_of (hRecordType h))
                  (Some (hRecordLength h)) (DataType_of (hDatatype h)))
               (if hRecordType h = RecordType_num FIXED then
                  (if \<not> hPcFormat h then tiFixedRecords fileBuffer h
                   else pcRecords fileBuffer (hRecordLength h))
                else
                  concat (map (\<lambda>sector. readVariableSector fileBuffer
                                            (hSectorOffset h + int sector * 256))
                            [0..<nat (hSectors h)])))
      else
        (case allocUint8Array (Some (hFileLength h)) of
           Inl e \<Rightarrow> Inl e
         | Inr program \<Rightarrow>
             Inr (setProgram
                    (newDiskFile (hFileName h) (FileType_of (hFileType h)) (RecordType_of 0)
                       (Some 0) (DataType_of 0))
                    (fst (storeAll u8store program 0
                            (map (\<lambda>i. rd fileBuffer (Some (hSectorOffset h + int i)))
                               [0..<nat (hFileLength h)]))))))"

text \<open>\<^verbatim>\<open>loadTIFile\<close>: the file, or \<open>None\<close> for \<^verbatim>\<open>null\<close>, and the disk image after.\<close>

definition loadTIFile ::
  "(string \<Rightarrow> 'u) \<Rightarrow> DiskImage \<Rightarrow> string \<Rightarrow> byte list option \<Rightarrow> bool
     \<Rightarrow> (error + DiskFile option) \<times> DiskImage" where
  "loadTIFile toUpperCase s fileName fileBuffer ignoreTIFileName =
     (case fileBuffer of
        None \<Rightarrow> (Inr None, s)
      | Some buf \<Rightarrow>
          if 0x80 < length buf then
            (let h = tiHeader toUpperCase fileName buf ignoreTIFileName in
             if hSectorOffset h + hFileLength h \<le> int (length buf) then
               (case tiFile buf h of
                  Inl e \<Rightarrow> (Inl e, s)
                | Inr file \<Rightarrow> (Inr (Some file), putFile s file))
             else (Inr None, s))
          else (Inr None, s))"

subsection \<open>Snapshots: getState and restoreState\<close>

text \<open>
  The state of a file is the file's own affair: \<open>fileGetState\<close> and \<open>fileRestoreState\<close>
  stand for \<^verbatim>\<open>DiskFile.getState\<close> and \<^verbatim>\<open>DiskFile.restoreState\<close>, which are not among
  the sources.
\<close>

record 'fs DiskImageState =
  stateName :: string
  stateFiles :: "(string \<times> 'fs) list"

definition getState :: "(DiskFile \<Rightarrow> 'fs) \<Rightarrow> DiskImage \<Rightarrow> 'fs DiskImageState" where
  "getState fileGetState s =
     \<lparr>stateName = name s,
      stateFiles = foldl (\<lambda>acc (fileName, file). AList.update fileName (fileGetState file) acc)
                     [] (files s)\<rparr>"

definition restoreState :: "(DiskFile \<Rightarrow> 'fs \<Rightarrow> DiskFile) \<Rightarrow> DiskImage \<Rightarrow> 'fs DiskImageState \<Rightarrow> DiskImage" where
  "restoreState fileRestoreState s state =
     s\<lparr>name := stateName state,
       files := foldl (\<lambda>acc (fileName, fileState).
                         AList.update fileName
                           (fileRestoreState
                              (newDiskFile fileName DATA FIXED (Some 80) INTERNAL) fileState) acc)
                  [] (stateFiles state)\<rparr>"

subsection \<open>Inputs for the examples\<close>

text \<open>An instance of the host's \<^verbatim>\<open>toUpperCase\<close> for the examples: what it does to
  a string of ASCII characters.\<close>

definition toUpperCaseAscii :: "string \<Rightarrow> string" where
  "toUpperCaseAscii str =
     map (\<lambda>c. if 97 \<le> (of_char c :: nat) \<and> (of_char c :: nat) \<le> 122
               then char_of ((of_char c :: nat) - 32) else c) str"

text \<open>An instance of the host's \<^verbatim>\<open>localeCompare\<close> for the examples: the order of the
  character codes.\<close>

fun compareCodes :: "string \<Rightarrow> string \<Rightarrow> int" where
  "compareCodes [] [] = 0"
| "compareCodes [] (y # ys) = -1"
| "compareCodes (x # xs) [] = 1"
| "compareCodes (x # xs) (y # ys) =
     (if (of_char x :: nat) < of_char y then -1
      else if (of_char y :: nat) < of_char x then 1
      else compareCodes xs ys)"

text \<open>A buffer of 129 bytes with the header of a tagged archive that declares one
  sector of content.\<close>

definition shortTIFile :: "byte list" where
  "shortTIFile = [0x07, 0x54, 0x49, 0x46, 0x49, 0x4C, 0x45, 0x53, 0x00, 0x01] @ replicate 119 0"

text \<open>A disk image of three sectors: an empty volume information block, a file
  descriptor index whose first entry is sector 2, and in sector 2 the descriptor of an
  empty program named A.\<close>

definition oneFileImage :: "byte list" where
  "oneFileImage =
     replicate 256 0 @ [0x00, 0x02] @ replicate 254 0
     @ [0x41] @ replicate 9 0x20 @ [0x00, 0x00, 0x01] @ replicate 243 0"

text \<open>A file of variable records named V, the records of the given lengths and every
  byte of them 0x41, and a disk image with one file.\<close>

definition variableFile :: "nat list \<Rightarrow> DiskFile" where
  "variableFile lens =
     \<lparr>getName = ''V'', getFileType = DATA, getRecordType = VARIABLE,
      getRecordLength = Some 255, getDataType = DISPLAY,
      getRecords = map (\<lambda>k. VariableRecord (replicate k (Some 0x41))) lens,
      getProgram = []\<rparr>"

definition diskWith :: "DiskFile \<Rightarrow> DiskImage" where
  "diskWith f = putFile (newDiskImage ''DSK1'' False) f"

text \<open>A disk image of four sectors whose catalog has one file of fixed records, named A,
  of record length 128 and with one record, every byte of it 0x41.\<close>

definition fixedFile :: DiskFile where
  "fixedFile =
     \<lparr>getName = ''A'', getFileType = DATA, getRecordType = FIXED,
      getRecordLength = Some 128, getDataType = DISPLAY,
      getRecords = [FixedRecord (replicate 128 (Some 0x41))], getProgram = []\<rparr>"

definition smallDisk :: "DiskFile \<Rightarrow> DiskImage" where
  "smallDisk f =
     \<lparr>name = ''DSK1'', files = [(getName f, f)],
      geometry = \<lparr>totalSectors = Some 4, sectorsPerTrack = Some 9, tracksPerSide = Some 40,
                  numberOfSides = Some 1, density = Some 1\<rparr>,
      binaryImage = None, eventHandler = False, fired = []\<rparr>"


text \<open>Another instance of the host's \<^verbatim>\<open>localeCompare\<close>, the order that hosts with
  the internationalisation interface give to names of letters: by the alphabet first,
  and for names that differ in case only the lower case first.\<close>

definition foldCase :: "string \<Rightarrow> string" where
  "foldCase str =
     map (\<lambda>c. if 65 \<le> (of_char c :: nat) \<and> (of_char c :: nat) \<le> 90
               then char_of ((of_char c :: nat) + 32) else c) str"

definition compareLetters :: "string \<Rightarrow> string \<Rightarrow> int" where
  "compareLetters a b =
     (if compareCodes (foldCase a) (foldCase b) \<noteq> 0
      then compareCodes (foldCase a) (foldCase b) else compareCodes b a)"

text \<open>A catalog of two empty programs, named B and a.\<close>

definition twoNames :: DiskImage where
  "twoNames =
     putFile (putFile (newDiskImage ''DSK1'' False)
                (newDiskFile ''B'' PROGRAM FIXED (Some 0) DISPLAY))
       (newDiskFile ''a'' PROGRAM FIXED (Some 0) DISPLAY)"

text \<open>A disk image of 360 sectors whose catalog has a program of two bytes, named P, and a
  file of variable records with one record of three bytes, named T.\<close>

definition programFile :: DiskFile where
  "programFile =
     \<lparr>getName = ''P'', getFileType = PROGRAM, getRecordType = FIXED,
      getRecordLength = Some 0, getDataType = DISPLAY,
      getRecords = [], getProgram = [0x01, 0x02]\<rparr>"

definition textFile :: DiskFile where
  "textFile =
     \<lparr>getName = ''T'', getFileType = DATA, getRecordType = VARIABLE,
      getRecordLength = Some 80, getDataType = DISPLAY,
      getRecords = [VariableRecord [Some 0x54, Some 0x49, Some 0x21]], getProgram = []\<rparr>"

definition exampleDisk :: DiskImage where
  "exampleDisk =
     \<lparr>name = ''DSK1'', files = [(''P'', programFile), (''T'', textFile)],
      geometry = \<lparr>totalSectors = Some 360, sectorsPerTrack = Some 9, tracksPerSide = Some 40,
                  numberOfSides = Some 1, density = Some 1\<rparr>,
      binaryImage = None, eventHandler = False, fired = []\<rparr>"
subsection \<open>The invariant of the cached image\<close>

text \<open>The cached binary image, when there is one, is what \<^verbatim>\<open>createBinaryImage\<close> makes
  of the disk image as it is.\<close>

definition cacheFresh :: "(string \<Rightarrow> string \<Rightarrow> int) \<Rightarrow> DiskImage \<Rightarrow> bool" where
  "cacheFresh localeCompare s =
     (case binaryImage s of
        None \<Rightarrow> True
      | Some img \<Rightarrow> createBinaryImage localeCompare s = Inr img)"

subsection \<open>The bytes that close a sector\<close>

text \<open>What the block that closes a sector writes when \<open>left\<close> bytes of the sector are
  left: 0xFF and zeros for the rest of them, or nothing when none is left.\<close>

definition closing :: "int \<Rightarrow> num list" where
  "closing left = (if 0 < left then Some 0xFF # replicate (nat (left - 1)) (Some 0) else [])"

subsection \<open>Notions for the round trip\<close>

text \<open>The image holds the stored values \<open>vs\<close> from position \<open>n\<close> on.\<close>

definition holds :: "byte list \<Rightarrow> int \<Rightarrow> num list \<Rightarrow> bool" where
  "holds img n vs = (\<forall>i<length vs. rd img (Some (n + int i)) = Some (uint (toByte (vs ! i))))"

text \<open>A payload of bytes.\<close>

definition wfBytes :: "num list \<Rightarrow> bool" where
  "wfBytes data =
     list_all (\<lambda>x. case x of None \<Rightarrow> False | Some b \<Rightarrow> 0 \<le> b \<and> b < 256) data"

text \<open>The bytes that the loop over variable records and the block after it write one
  after the other, \<open>left\<close> bytes of the sector being left at the start, and the number of
  sectors that they begin.\<close>

fun varBytes :: "int \<Rightarrow> Record list \<Rightarrow> num list" where
  "varBytes left [] = closing left"
| "varBytes left (r # rs) =
     (if left \<le> int (length (getData r)) then closing left else [])
     @ Some (int (length (getData r)) AND 0xFF) # map (\<lambda>b. Some (band b 0xFF)) (getData r)
     @ varBytes ((if left \<le> int (length (getData r)) then 256 else left) - 1
                 - int (length (getData r))) rs"

fun moreSectors :: "int \<Rightarrow> Record list \<Rightarrow> int" where
  "moreSectors left [] = 0"
| "moreSectors left (r # rs) =
     (if left \<le> int (length (getData r)) then 1 else 0)
     + moreSectors ((if left \<le> int (length (getData r)) then 256 else left) - 1
                    - int (length (getData r))) rs"

text \<open>The last data sector of a file whose data start at sector \<open>startSectorNo\<close>, as
  \<open>writeDataSectors\<close> returns it (it does not depend on the image), and the sector
  after the data of a list of files, each starting at the next allocation unit.\<close>

definition lastSector :: "DiskFile \<Rightarrow> int \<Rightarrow> int" where
  "lastSector f startSectorNo = snd (writeDataSectors [] f startSectorNo)"

fun layout :: "int \<Rightarrow> int \<Rightarrow> DiskFile list \<Rightarrow> int" where
  "layout sectorsPerAU nextDataSectorNo [] = nextDataSectorNo"
| "layout sectorsPerAU nextDataSectorNo (f # fs) =
     layout sectorsPerAU (ceilN (lastSector f nextDataSectorNo + 1) sectorsPerAU) fs"

text \<open>
  A name that the image keeps: at most 10 characters from space to DEL, none of them a
  space at either end. The name \<^verbatim>\<open>__proto__\<close> is left out: the object that holds the
  catalog does not keep it as a key of its own.
\<close>

definition wfName :: "string \<Rightarrow> bool" where
  "wfName str =
     (length str \<le> 10 \<and> (\<forall>c\<in>set str. 32 \<le> (of_char c :: nat) \<and> (of_char c :: nat) < 128)
      \<and> (str = [] \<or> hd str \<noteq> CHR '' '' \<and> last str \<noteq> CHR '' '')
      \<and> str \<noteq> ''__proto__'')"

text \<open>
  A file that the image keeps: fixed records of the record length, which is from 2 to
  255, that fill their sectors; variable records of 1 to 254 bytes; payloads of bytes.
\<close>

definition wfFile :: "DiskFile \<Rightarrow> bool" where
  "wfFile f =
     (wfName (getName f)
      \<and> (case getFileType f of
            PROGRAM \<Rightarrow> True
          | DATA \<Rightarrow>
              (case getRecordLength f of
                 None \<Rightarrow> False
               | Some l \<Rightarrow>
                   (case getRecordType f of
                      FIXED \<Rightarrow>
                        2 \<le> l \<and> l \<le> 255
                        \<and> (\<forall>r\<in>set (getRecords f). int (length (getData r)) = l \<and> wfBytes (getData r))
                        \<and> int (length (getRecords f)) mod (256 div l) = 0
                    | VARIABLE \<Rightarrow>
                        0 \<le> l \<and> l \<le> 255
                        \<and> (\<forall>r\<in>set (getRecords f).
                              1 \<le> length (getData r) \<and> length (getData r) \<le> 254
                              \<and> wfBytes (getData r))))))"

text \<open>A catalog that the image keeps: every file under its own name, at most 127 files,
  each of them well formed.\<close>

definition wfCatalog :: "DiskImage \<Rightarrow> bool" where
  "wfCatalog s =
     (distinct (map fst (files s)) \<and> length (files s) \<le> 127
      \<and> (\<forall>(k, f)\<in>set (files s). k = getName f \<and> wfFile f))"

text \<open>The files fit: the sector after the data of the last file is on the disk.\<close>

definition fitsOnDisk :: "(string \<Rightarrow> string \<Rightarrow> int) \<Rightarrow> DiskImage \<Rightarrow> bool" where
  "fitsOnDisk localeCompare s =
     (let sectorsPerAU = getSectorsPerAllocationUnit (geometry s);
          filesArray = getFilesArray localeCompare s
      in case totalSectors (geometry s) of
           None \<Rightarrow> False
         | Some t \<Rightarrow>
             layout sectorsPerAU
               (ceilN (max 2 sectorsPerAU + int (length filesArray) * sectorsPerAU) sectorsPerAU)
               filesArray \<le> t)"

text \<open>The decoded file \<open>f'\<close> has the name, the types and the payload of \<open>f\<close>.\<close>

definition sameContent :: "DiskFile \<Rightarrow> DiskFile \<Rightarrow> bool" where
  "sameContent f f' =
     (getName f' = getName f \<and> getFileType f' = getFileType f
      \<and> (case getFileType f of
            DATA \<Rightarrow>
              getRecordType f' = getRecordType f \<and> getRecordLength f' = getRecordLength f
              \<and> getDataType f' = getDataType f
              \<and> map getData (getRecords f') = map getData (getRecords f)
          | PROGRAM \<Rightarrow> getProgram f' = getProgram f))"

text \<open>Where the reader of a sector of variable records goes on, at position \<open>n\<close> with
  \<open>left\<close> bytes of the sector left: at the start of the sector and after a record alike
  it reads a length byte, when a byte is left, and enters the loop.\<close>

definition cont :: "byte list \<Rightarrow> int \<Rightarrow> int \<Rightarrow> Record list \<Rightarrow> Record list" where
  "cont img n left acc =
     (if 0 < left then variableLoop img (n + 1) (left - 1) (rd img (Some n)) acc else acc)"


text \<open>Where the encoder puts record \<open>j\<close> of a file of fixed records of length \<open>l\<close>, \<open>k\<close> to a
  sector, whose data start at sector \<open>start\<close>.\<close>

definition fixedPos :: "int \<Rightarrow> int \<Rightarrow> nat \<Rightarrow> nat \<Rightarrow> int" where
  "fixedPos start l k j = (start + int (j div k)) * 256 + int (j mod k) * l"

text \<open>The bytes of a file descriptor record as the encoder writes them: the name padded
  to 10 characters, the 10 bytes after it, and the data chain pointer. With them and
  the data in the image, the image describes the file.\<close>

definition nameBytes :: "string \<Rightarrow> num list" where
  "nameBytes str =
     map (\<lambda>c. Some (of_char c)) (take (min (length str) 10) str)
     @ replicate (10 - length str) (Some 0x20)"

definition descriptorBytes :: "DiskFile \<Rightarrow> num list" where
  "descriptorBytes f =
     [Some (drop_bit 8 (band (Some 0) 0xFF00)), Some (band (Some 0) 0xFF),
      Some (band (Some (statusFlagsOf f)) 0xFF),
      Some (band (if getFileType f = DATA
                  then floor256 (nadd (getRecordLength f)
                                  (Some (if getRecordType f = VARIABLE then 1 else 0)))
                  else Some 0) 0xFF),
      Some (drop_bit 8 (band (Some (getSectorCount f)) 0xFF00)),
      Some (band (Some (getSectorCount f)) 0xFF),
      Some (band (Some (getEOFOffset f)) 0xFF),
      Some (band (if getFileType f = DATA then getRecordLength f else Some 0) 0xFF),
      Some (band (Some (level3Records f)) 0xFF),
      Some (drop_bit 8 (band (Some (level3Records f)) 0xFF00))]"

definition pointerBytes :: "int \<Rightarrow> int \<Rightarrow> num list" where
  "pointerBytes au sectorCount =
     [Some (band (Some (au AND 0x00FF)) 0xFF),
      Some (band (Some (push_bit 4 (sectorCount AND 0x000F) OR drop_bit 8 (au AND 0x0F00))) 0xFF),
      Some (band (Some (drop_bit 4 (sectorCount AND 0x0FF0))) 0xFF)]"

definition dataStored :: "byte list \<Rightarrow> DiskFile \<Rightarrow> int \<Rightarrow> bool" where
  "dataStored img f start =
     (case getFileType f of
        PROGRAM \<Rightarrow>
          holds img (start * 256)
            (map (\<lambda>b. Some (band b 0xFF)) (map (\<lambda>b. Some (uint b)) (getProgram f)))
      | DATA \<Rightarrow>
          (case getRecordType f of
             VARIABLE \<Rightarrow> holds img (start * 256) (varBytes 256 (getRecords f))
           | FIXED \<Rightarrow>
               (case getRecordLength f of
                  None \<Rightarrow> True
                | Some l \<Rightarrow>
                    (\<forall>j<length (getRecords f).
                       holds img (fixedPos start l (nat (256 div l)) j)
                         (map (\<lambda>b. Some (band b 0xFF)) (getData (getRecords f ! j)))))))"

definition describes :: "byte list \<Rightarrow> int \<Rightarrow> DiskFile \<Rightarrow> int \<Rightarrow> bool" where
  "describes img fdr f start =
     (holds img (fdr * 256) (nameBytes (getName f))
      \<and> holds img (fdr * 256 + 10) (descriptorBytes f)
      \<and> holds img (fdr * 256 + 0x1C) (pointerBytes start (lastSector f start - start))
      \<and> dataStored img f start)"

text \<open>The image \<open>d'\<close> differs from \<open>d\<close> at most at the positions \<open>W\<close>.\<close>

definition sameOutside :: "byte list \<Rightarrow> byte list \<Rightarrow> (int \<Rightarrow> bool) \<Rightarrow> bool" where
  "sameOutside d d' W =
     (length d' = length d \<and> (\<forall>p. \<not> W p \<longrightarrow> rd d' (Some p) = rd d (Some p)))"

text \<open>A file whose records the encoder packs as they are: variable records of at most 255
  bytes, or fixed records of the record length, which is from 1 to 256.\<close>

definition packable :: "DiskFile \<Rightarrow> bool" where
  "packable f =
     (case getFileType f of
        PROGRAM \<Rightarrow> True
      | DATA \<Rightarrow>
          (case getRecordType f of
             VARIABLE \<Rightarrow> list_all (\<lambda>r. length (getData r) \<le> 255) (getRecords f)
           | FIXED \<Rightarrow>
               (case getRecordLength f of
                  None \<Rightarrow> False
                | Some l \<Rightarrow>
                    0 < l \<and> l \<le> 256
                    \<and> list_all (\<lambda>r. int (length (getData r)) = l) (getRecords f))))"

text \<open>The positions that the encoder may write for the file of index \<open>k\<close>, whose file
  descriptor record is sector \<open>fdr\<close> and whose data are in the sectors from \<open>start\<close> to
  before \<open>end\<close>: the allocation bit map, the entry of the file descriptor index, the
  descriptor and the data.\<close>

definition fileRegion :: "int \<Rightarrow> int \<Rightarrow> int \<Rightarrow> int \<Rightarrow> int \<Rightarrow> bool" where
  "fileRegion k fdr start end p =
     ((0x38 \<le> p \<and> p < 0x100) \<or> (256 + 2 * k \<le> p \<and> p < 256 + 2 * k + 2)
      \<or> (fdr * 256 \<le> p \<and> p < fdr * 256 + 0x1F) \<or> (start * 256 \<le> p \<and> p < end * 256))"

text \<open>The positions that the encoder may write for \<open>n\<close> files from index \<open>j\<close> on,
  whose file descriptor records are in the sectors from \<open>fa\<close> to before \<open>fb\<close> and whose
  data are in the sectors from \<open>start\<close> to before \<open>end\<close>.\<close>

definition filesRegion :: "nat \<Rightarrow> nat \<Rightarrow> int \<Rightarrow> int \<Rightarrow> int \<Rightarrow> int \<Rightarrow> int \<Rightarrow> bool" where
  "filesRegion j n fa fb start end p =
     ((0x38 \<le> p \<and> p < 0x100) \<or> (256 + 2 * int j \<le> p \<and> p < 256 + 2 * int (j + n))
      \<or> (fa * 256 \<le> p \<and> p < fb * 256) \<or> (start * 256 \<le> p \<and> p < end * 256))"

text \<open>The two bytes of a 16-bit number as \<^verbatim>\<open>writeWord\<close> stores them.\<close>

definition wordBytes :: "int \<Rightarrow> num list" where
  "wordBytes w = [Some (drop_bit 8 (band (Some w) 0xFF00)), Some (band (Some w) 0xFF)]"
section \<open>Stores and reads\<close>

lemma length_u8store [simp]: "length (u8store buf n v) = length buf"
  by (simp add: u8store_def)

lemma snd_storeAll [simp]: "snd (storeAll st data n vs) = n + int (length vs)"
  by (induction vs arbitrary: data n) auto

lemma length_storeAll_u8 [simp]: "length (fst (storeAll u8store buf n vs)) = length buf"
  by (induction vs arbitrary: buf n) auto

lemma nth_u8store:
  "i < length buf \<Longrightarrow> u8store buf n v ! i = (if n = int i then toByte v else buf ! i)"
  by (auto simp: u8store_def nth_list_update)

lemma nth_storeAll_u8:
  "i < length buf \<Longrightarrow>
   fst (storeAll u8store buf (int k) vs) ! i =
     (if k \<le> i \<and> i < k + length vs then toByte (vs ! (i - k)) else buf ! i)"
proof (induction vs arbitrary: buf k)
  case Nil
  then show ?case by auto
next
  case (Cons v vs)
  have e: "int k + 1 = int (Suc k)" by simp
  show ?case
    using Cons.prems Cons.IH [of "u8store buf (int k) v" "Suc k"]
    by (auto simp: e nth_u8store nth_Cons' simp del: of_nat_Suc)
qed

section \<open>What decoding keeps\<close>

lemma getName_putRecords [simp]: "getName (foldl putRecord f rs) = getName f"
  by (induction rs arbitrary: f) (simp_all add: putRecord_def)

lemma getName_sectorLoop:
  "getName (fst (sectorLoop fb ft rt rps rl eof sector endSector st)) = getName (fst st)"
proof (induction fb ft rt rps rl eof sector endSector st rule: sectorLoop.induct)
  case (1 fb ft rt rps rl eof sector endSector f p sl)
  show ?case
    apply (subst sectorLoop.simps)
    using 1 apply auto
    done
qed

lemma getName_dataChainLoop:
  "getName (fst (dataChainLoop fb S fdr ft rt rps rl eof i st)) = getName (fst st)"
proof (induction fb S fdr ft rt rps rl eof i st rule: dataChainLoop.induct)
  case (1 fb S fdr ft rt rps rl eof i f p sl nl)
  show ?case
    apply (subst dataChainLoop.simps)
    using 1 apply (auto simp: Let_def split: prod.splits dest: arg_cong [where f = "\<lambda>x. getName (fst x)"] simp: getName_sectorLoop)
    done
qed

lemma getName_decodeFile:
  "getName (decodeFile fb S fdr) = trim (readChars fb fdr 10)"
proof -
  have d: "getName (fst (case sa of None \<Rightarrow> (f0, [], 0, -1)
             | Some sl \<Rightarrow> dataChainLoop fb S fdr ft rt rps rl eof 0 (f0, [], sl, -1))) = getName f0"
    for sa f0 ft rt rps rl eof
    by (cases sa) (simp_all add: getName_dataChainLoop)
  show ?thesis
    unfolding decodeFile_def Let_def
    by (auto simp: setProgram_def newDiskFile_def split: prod.splits
        dest!: arg_cong [where f = "\<lambda>x. getName (fst x)"] simp: d)
qed

lemma fired_putFile:
  "fired (putFile s f) =
     fired s @ (if eventHandler s
                then [(\<lparr>eventType = ''fileAdded'', eventName = getName f\<rparr>, None)] else [])"
  by (simp add: putFile_def fireEvent_def invalidateBinaryImage_def Let_def)

lemma eventHandler_putFile [simp]: "eventHandler (putFile s f) = eventHandler s"
  by (simp add: putFile_def fireEvent_def invalidateBinaryImage_def Let_def)

lemma eventHandler_loadDescriptor [simp]:
  "eventHandler (loadDescriptor fb S s i) = eventHandler s"
  by (simp add: loadDescriptor_def)

lemma fired_loadDescriptor:
  "fired (loadDescriptor fb S s i) =
     fired s @ (if eventHandler s \<and> fileDescriptorSectorNo fb i \<noteq> Some 0
                then [(\<lparr>eventType = ''fileAdded'',
                         eventName = trim (readChars fb
                           (nmul (fileDescriptorSectorNo fb i) (Some 256)) 10)\<rparr>, None)]
                else [])"
  by (simp add: loadDescriptor_def fired_putFile getName_decodeFile)

lemma eventHandler_loadDescriptors [simp]:
  "eventHandler (foldl (loadDescriptor fb S) s is) = eventHandler s"
  by (induction "is" arbitrary: s) simp_all

lemma fired_loadDescriptors:
  "fired (foldl (loadDescriptor fb S) s is) =
     fired s @ (if eventHandler s
                then map (\<lambda>i. (\<lparr>eventType = ''fileAdded'',
                                eventName = trim (readChars fb
                                  (nmul (fileDescriptorSectorNo fb i) (Some 256)) 10)\<rparr>, None))
                       (filter (\<lambda>i. fileDescriptorSectorNo fb i \<noteq> Some 0) is)
                else [])"
proof (induction "is" arbitrary: s)
  case Nil
  show ?case by simp
next
  case (Cons i "is")
  show ?case
    by (simp add: Cons.IH fired_loadDescriptor)
qed

section \<open>The encoder keeps the length of the image\<close>

lemma length_writeByte [simp]: "length (fst (writeByte u8store d n b)) = length d"
  by (simp add: writeByte_def)

lemma length_writeWord [simp]: "length (fst (writeWord u8store d n w)) = length d"
  by (simp add: writeWord_def Let_def)

lemma length_writeLEWord [simp]: "length (fst (writeLEWord u8store d n w)) = length d"
  by (simp add: writeLEWord_def Let_def)

lemma length_writeString [simp]: "length (fst (writeString u8store d n str k)) = length d"
  by (simp add: writeString_def)

lemma length_writeBytes [simp]: "length (fst (writeBytes u8store d n bs)) = length d"
  by (induction bs arbitrary: d n) (simp_all add: writeByte_def)

lemma length_writeZeros [simp]: "length (fst (writeZeros u8store d n k)) = length d"
  by (induction k arbitrary: d n) (simp_all add: writeByte_def)

lemma length_closeSector [simp]: "length (fst (closeSector u8store d n left)) = length d"
  by (simp add: closeSector_def split: prod.splits)
     (metis fst_conv length_writeByte length_writeZeros)

lemma length_imageFixedStep [simp]:
  "length (fst (imageFixedStep rps st r)) = length (fst st)"
  by (cases st) (auto split: prod.splits dest: arg_cong [where f = "\<lambda>x. length (fst x)"])

lemma length_imageVariableStep [simp]:
  "length (fst (imageVariableStep st r)) = length (fst st)"
  by (cases st)
     (auto simp: Let_def split: prod.splits dest!: arg_cong [where f = "\<lambda>x. length (fst x)"])

lemma length_foldl_imageFixedStep [simp]:
  "length (fst (foldl (imageFixedStep rps) st rs)) = length (fst st)"
  by (induction rs arbitrary: st) simp_all

lemma length_foldl_imageVariableStep [simp]:
  "length (fst (foldl imageVariableStep st rs)) = length (fst st)"
  by (induction rs arbitrary: st) simp_all

lemma length_writeDataSectors [simp]:
  "length (fst (writeDataSectors d f start)) = length d"
  unfolding writeDataSectors_def
  by (auto split: FileType.splits RecordType.splits prod.splits
      dest!: arg_cong [where f = "\<lambda>x. length (fst x)"])

lemma length_writeFileDescriptor [simp]: "length (writeFileDescriptor d f a) = length d"
  unfolding writeFileDescriptor_def
  by (auto split: prod.splits dest!: arg_cong [where f = "\<lambda>x. length (fst x)"])

lemma length_writeDataChainPointer [simp]: "length (writeDataChainPointer d a au sc) = length d"
  unfolding writeDataChainPointer_def
  by (auto split: prod.splits dest!: arg_cong [where f = "\<lambda>x. length (fst x)"])

lemma length_markAllocationUnit [simp]: "length (markAllocationUnit d i) = length d"
  by (simp add: markAllocationUnit_def Let_def)

lemma length_foldl_markAllocationUnit [simp]:
  "length (foldl markAllocationUnit d is) = length d"
  by (induction "is" arbitrary: d) simp_all

lemma length_encodeFile [simp]:
  "length (fst (encodeFile S Sd first st x)) = length (fst st)"
  by (cases st; cases x)
     (auto simp: Let_def split: prod.splits dest!: arg_cong [where f = "\<lambda>x. length (fst x)"])

lemma length_foldl_encodeFile [simp]:
  "length (fst (foldl (encodeFile S Sd first) st xs)) = length (fst st)"
  by (induction xs arbitrary: st) simp_all

lemma length_writeVolumeInformation [simp]:
  "length (writeVolumeInformation d nm g S) = length d"
  unfolding writeVolumeInformation_def
  by (auto split: prod.splits dest!: arg_cong [where f = "\<lambda>x. length (fst x)"])

lemma length_encodeImage [simp]: "length (encodeImage d nm g fs) = length d"
  by (simp add: encodeImage_def Let_def)

section \<open>Every writer is a run of stores\<close>

lemma storeAll_append:
  "storeAll st d n (xs @ ys) = storeAll st (fst (storeAll st d n xs)) (n + int (length xs)) ys"
  by (induction xs arbitrary: d n) (simp_all add: add.assoc)

lemma writeByte_storeAll: "writeByte st d n b = storeAll st d n [Some (band b 0xFF)]"
  by (simp add: writeByte_def)

lemma writeBytes_storeAll:
  "writeBytes st d n bs = storeAll st d n (map (\<lambda>b. Some (band b 0xFF)) bs)"
  by (induction bs arbitrary: d n) (simp_all add: writeByte_def)

lemma writeZeros_storeAll: "writeZeros st d n k = storeAll st d n (replicate k (Some 0))"
  by (induction k arbitrary: d n) (simp_all add: writeByte_def band_def)

lemma writeWord_storeAll:
  "writeWord st d n w = storeAll st d n [Some (drop_bit 8 (band w 0xFF00)), Some (band w 0xFF)]"
  by (simp add: writeWord_def Let_def)

lemma writeLEWord_storeAll:
  "writeLEWord st d n w = storeAll st d n [Some (band w 0xFF), Some (drop_bit 8 (band w 0xFF00))]"
  by (simp add: writeLEWord_def Let_def)

lemma length_closing: "length (closing left) = nat left"
  by (auto simp: closing_def)

lemma closeSector_storeAll:
  "closeSector st d n left =
     (fst (storeAll st d n (closing left)), n + int (length (closing left)),
      if 0 < left then 0 else left)"
proof (cases "0 < left")
  case True
  have "storeAll st d n (closing left)
          = storeAll st (st d n (Some 0xFF)) (n + 1) (replicate (nat (left - 1)) (Some 0))"
    using True by (simp add: closing_def)
  moreover have "n + 1 + int (nat (left - 1)) = n + left" using True by simp
  ultimately show ?thesis
    using True
    by (simp add: closeSector_def writeByte_def band_def writeZeros_storeAll case_prod_beta
        length_closing prod_eq_iff del: storeAll.simps)
next
  case False
  then show ?thesis by (simp add: closeSector_def closing_def)
qed

lemma fst_storeAll_arr:
  "n = int (length d) \<Longrightarrow> fst (storeAll arrstore d n vs) = d @ vs"
proof (induction vs arbitrary: d n)
  case Nil
  show ?case by simp
next
  case (Cons v vs)
  have a: "arrstore d n v = d @ [v]" using Cons.prems by (simp add: arrstore_def)
  have b: "n + 1 = int (length (d @ [v]))" using Cons.prems by simp
  show ?case using Cons.IH [OF b] by (simp add: a)
qed

lemma tiVariableStep_append:
  assumes "n = int (length data)"
  shows "tiVariableStep (data, n, left) r =
     (data @ (if left \<le> int (length (getData r)) then closing left else [])
        @ [Some (int (length (getData r)) AND 0xFF)]
        @ map (\<lambda>b. Some (band b 0xFF)) (getData r),
      n + (if left \<le> int (length (getData r)) then int (length (closing left)) else 0)
        + 1 + int (length (getData r)),
      (if left \<le> int (length (getData r)) then 256 else left) - 1 - int (length (getData r)))"
  using assms
  by (simp add: Let_def closeSector_storeAll writeByte_storeAll writeBytes_storeAll
      fst_storeAll_arr case_prod_beta prod_eq_iff band_def [of "Some _"] del: storeAll.simps)

lemma nth_storeAll_u8_int:
  "i < length buf \<Longrightarrow>
   fst (storeAll u8store buf n vs) ! i =
     (if n \<le> int i \<and> int i < n + int (length vs) then toByte (vs ! nat (int i - n)) else buf ! i)"
proof (induction vs arbitrary: buf n)
  case Nil
  then show ?case by auto
next
  case (Cons v vs)
  have s: "nat (int i - n) = Suc (nat (int i - (n + 1)))" if "n < int i" using that by simp
  show ?case
  proof (cases "n < int i")
    case True
    then show ?thesis
      using Cons.prems Cons.IH [of "u8store buf n v" "n + 1"]
      by (auto simp: nth_u8store s)
  next
    case False
    then show ?thesis
      using Cons.prems Cons.IH [of "u8store buf n v" "n + 1"]
      by (auto simp: nth_u8store)
  qed
qed

lemma rd_storeAll_u8:
  "rd (fst (storeAll u8store buf n vs)) (Some k) =
     (if 0 \<le> k \<and> k < int (length buf)
      then (if n \<le> k \<and> k < n + int (length vs) then Some (uint (toByte (vs ! nat (k - n))))
            else rd buf (Some k))
      else None)"
  using nth_storeAll_u8_int [of "nat k" buf n vs]
  by (auto simp: rd_def)

section \<open>Packing variable records\<close>

lemma tiVariableLoop_invariant:
  assumes "\<forall>r\<in>set rs. length (getData r) \<le> 255"
      and "n = int (length d)" and "0 \<le> left" and "left \<le> 256"
      and "(n - base + left) mod 256 = 0"
  shows "\<exists>d' n' left'. foldl tiVariableStep (d, n, left) rs = (d', n', left')
           \<and> n' = int (length d') \<and> 0 \<le> left' \<and> left' \<le> 256
           \<and> (n' - base + left') mod 256 = 0"
  using assms
proof (induction rs arbitrary: d n left)
  case Nil
  then show ?case by simp
next
  case (Cons r rs)
  let ?len = "int (length (getData r))"
  let ?d1 = "d @ (if left \<le> ?len then closing left else [])
        @ [Some (?len AND 0xFF)] @ map (\<lambda>b. Some (band b 0xFF)) (getData r)"
  let ?n1 = "n + (if left \<le> ?len then int (length (closing left)) else 0) + 1 + ?len"
  let ?left1 = "(if left \<le> ?len then 256 else left) - 1 - ?len"
  have len: "?len \<le> 255" using Cons.prems(1) by simp
  have step: "tiVariableStep (d, n, left) r = (?d1, ?n1, ?left1)"
    by (rule tiVariableStep_append [OF Cons.prems(2)])
  have a: "?n1 = int (length ?d1)" using Cons.prems(2) by simp
  have b: "0 \<le> ?left1" using len Cons.prems(3) by auto
  have c: "?left1 \<le> 256" using Cons.prems(4) by auto
  have d: "(?n1 - base + ?left1) mod 256 = 0"
  proof (cases "left \<le> ?len")
    case True
    have e: "?n1 - base + ?left1 = (n - base + left) + 256"
      using True Cons.prems(3) by (simp add: length_closing)
    have "(?n1 - base + ?left1) mod 256 = ((n - base + left) + 256) mod 256"
      by (simp only: e)
    also have "\<dots> = 0" using Cons.prems(5) by simp
    finally show ?thesis .
  next
    case False
    have e: "?n1 - base + ?left1 = n - base + left" using False by simp
    have "(?n1 - base + ?left1) mod 256 = (n - base + left) mod 256"
      by (simp only: e)
    also have "\<dots> = 0" using Cons.prems(5) by simp
    finally show ?thesis .
  qed
  have rest: "\<forall>r\<in>set rs. length (getData r) \<le> 255" using Cons.prems(1) by simp
  from Cons.IH [OF rest a b c d] show ?case by (simp add: step del: tiVariableStep.simps)
qed

lemma imageVariableStep_stores:
  "imageVariableStep (d, n, sectorNo, left) r =
     (let len = int (length (getData r));
          d1 = (if left \<le> len then fst (storeAll u8store d n (closing left)) else d);
          n1 = (if left \<le> len then (sectorNo + 1) * 256 else n)
      in (fst (storeAll u8store d1 n1
                (Some (len AND 0xFF) # map (\<lambda>b. Some (band b 0xFF)) (getData r))),
          n1 + 1 + len,
          (if left \<le> len then sectorNo + 1 else sectorNo),
          (if left \<le> len then 256 else left) - 1 - len))"
  by (simp add: Let_def closeSector_storeAll writeByte_storeAll writeBytes_storeAll
      case_prod_beta prod_eq_iff band_def [of "Some _"] del: storeAll.simps)
     (simp add: add.commute add.left_commute)

lemma imageVariableLoop_invariant:
  assumes "\<forall>r\<in>set rs. length (getData r) \<le> 255"
      and "0 \<le> left" and "left \<le> 256" and "n + left = (sectorNo + 1) * 256"
  shows "\<exists>d' n' sectorNo' left'.
           foldl imageVariableStep (d, n, sectorNo, left) rs = (d', n', sectorNo', left')
           \<and> 0 \<le> left' \<and> left' \<le> 256 \<and> n' + left' = (sectorNo' + 1) * 256"
  using assms
proof (induction rs arbitrary: d n sectorNo left)
  case Nil
  then show ?case by simp
next
  case (Cons r rs)
  let ?len = "int (length (getData r))"
  obtain d1 n1 s1 l1 where step: "imageVariableStep (d, n, sectorNo, left) r = (d1, n1, s1, l1)"
    by (metis prod_cases4)
  have len: "?len \<le> 255" using Cons.prems(1) by simp
  from step have n1: "n1 = (if left \<le> ?len then (sectorNo + 1) * 256 else n) + 1 + ?len"
    and s1: "s1 = (if left \<le> ?len then sectorNo + 1 else sectorNo)"
    and l1: "l1 = (if left \<le> ?len then 256 else left) - 1 - ?len"
    unfolding imageVariableStep_stores Let_def by simp_all
  have a: "0 \<le> l1" using len Cons.prems(2) l1 by auto
  have b: "l1 \<le> 256" using Cons.prems(3) l1 by auto
  have c: "n1 + l1 = (s1 + 1) * 256" using n1 s1 l1 Cons.prems(4) by (auto simp: algebra_simps)
  have rest: "\<forall>r\<in>set rs. length (getData r) \<le> 255" using Cons.prems(1) by simp
  from Cons.IH [OF rest a b c] show ?case by (simp add: step del: imageVariableStep.simps)
qed

lemma length_fst_storeAll_arr:
  "n = int (length d) \<Longrightarrow> length (fst (storeAll arrstore d n vs)) = length d + length vs"
  by (simp add: fst_storeAll_arr)

lemma createTIFile_header:
  assumes "getFile s fileName = Some f"
  shows "\<exists>header. length header = 128
           \<and> createTIFile s fileName = Some (newUint8Array (tiContent f header 128))"
proof -
  have a: "fst (storeAll arrstore d n vs) = d @ vs" if "n = int (length d)" for d n vs
    using that by (rule fst_storeAll_arr)
  have m: "int (min (length fileName) 10) + int (10 - length fileName) = 10" by auto
  have m': "112 + (- int (min (length fileName) 10) - int (10 - length fileName)) = 102"
    using m by simp
  show ?thesis
    using assms
    apply (simp add: createTIFile_def case_prod_beta writeByte_storeAll writeWord_storeAll
        writeLEWord_storeAll writeString_def del: storeAll.simps)
    apply (simp add: a m m' del: storeAll.simps)
    apply (intro conjI impI)
    apply ((rule exI, rule conjI, rule_tac [2] refl, simp add: min_def)+)
    done
qed

lemma tiContent_variable:
  assumes "getFileType f = DATA" and "getRecordType f = VARIABLE"
      and "foldl tiVariableStep (header, n, 256) (getRecords f) = (d, n', left)"
      and "n' = int (length d)"
  shows "tiContent f header n = d @ closing left"
  using assms
  by (simp add: tiContent_def closeSector_storeAll fst_storeAll_arr del: storeAll.simps)

lemma getFile_diskWith: "getFile (diskWith f) (getName f) = Some f"
  by (simp add: diskWith_def getFile_def putFile_def fireEvent_def invalidateBinaryImage_def
      newDiskImage_def Let_def)

lemma and_255_id: "0 \<le> (k::int) \<Longrightarrow> k \<le> 255 \<Longrightarrow> k AND 0xFF = k"
  by (simp add: and_255_mod)

lemma uint_toByte: "0 \<le> k \<Longrightarrow> k \<le> 255 \<Longrightarrow> uint (toByte (Some k)) = k"
  by (simp add: toByte_def uint_word_of_int_eq take_bit_int_eq_self)

section \<open>What an image holds\<close>

lemma getRecords_putRecords [simp]:
  "getRecords (foldl putRecord f rs) = getRecords f @ rs"
  by (induction rs arbitrary: f) (simp_all add: putRecord_def)

lemma putRecords_eq: "foldl putRecord f rs = f\<lparr>getRecords := getRecords f @ rs\<rparr>"
  by (induction rs arbitrary: f) (simp_all add: putRecord_def)

lemma readVariableSector_cont: "readVariableSector img n = cont img n 256 []"
  by (simp add: readVariableSector_def cont_def)

lemma holds_Cons:
  "holds img n (v # vs) \<longleftrightarrow>
     rd img (Some n) = Some (uint (toByte v)) \<and> holds img (n + 1) vs"
proof -
  have "(\<forall>i<Suc (length vs). P i) \<longleftrightarrow> P 0 \<and> (\<forall>i<length vs. P (Suc i))" for P
    by (metis less_Suc_eq_0_disj)
  then show ?thesis by (simp add: holds_def add.assoc)
qed

lemma holds_Nil [simp]: "holds img n []"
  by (simp add: holds_def)

lemma holds_append:
  "holds img n (xs @ ys) \<longleftrightarrow> holds img n xs \<and> holds img (n + int (length xs)) ys"
  by (induction xs arbitrary: n) (simp_all add: holds_Cons add.assoc)

lemma holds_nth:
  "holds img n vs \<Longrightarrow> i < length vs \<Longrightarrow> rd img (Some (n + int i)) = Some (uint (toByte (vs ! i)))"
  by (simp add: holds_def)

section \<open>Reading back variable records\<close>

lemma mask_wfBytes:
  assumes "wfBytes data"
  shows "map (\<lambda>v. Some (uint (toByte v))) (map (\<lambda>b. Some (band b 0xFF)) data) = data"
proof (rule nth_equalityI)
  show "length (map (\<lambda>v. Some (uint (toByte v))) (map (\<lambda>b. Some (band b 0xFF)) data)) = length data"
    by simp
next
  fix i assume "i < length (map (\<lambda>v. Some (uint (toByte v))) (map (\<lambda>b. Some (band b 0xFF)) data))"
  then have i: "i < length data" by simp
  then obtain b where b: "data ! i = Some b" "0 \<le> b" "b < 256"
    using assms by (auto simp: wfBytes_def list_all_iff dest!: nth_mem split: option.splits)
  have "b AND 0xFF = b" using b by (intro and_255_id) simp_all
  moreover have "uint (toByte (Some b)) = b" using b by (intro uint_toByte) simp_all
  ultimately show "map (\<lambda>v. Some (uint (toByte v))) (map (\<lambda>b. Some (band b 0xFF)) data) ! i = data ! i"
    using i b by (simp add: band_def)
qed

lemma holds_map_rd:
  assumes "holds img n vs"
  shows "map (\<lambda>j. rd img (Some (n + int j))) [0..<length vs] = map (\<lambda>v. Some (uint (toByte v))) vs"
  using assms by (intro nth_equalityI) (simp_all add: holds_def)

lemma cont_record:
  assumes h: "holds img n (Some (int (length data) AND 0xFF) # map (\<lambda>b. Some (band b 0xFF)) data)"
      and w: "wfBytes data" and l1: "1 \<le> length data" and l2: "length data \<le> 254"
      and room: "int (length data) < left"
  shows "cont img n left acc
         = cont img (n + 1 + int (length data)) (left - 1 - int (length data))
             (acc @ [VariableRecord data])"
proof -
  let ?len = "int (length data)"
  have m: "?len AND 0xFF = ?len" using l2 by (intro and_255_id) simp_all
  have u: "uint (toByte (Some ?len)) = ?len" using l2 by (intro uint_toByte) simp_all
  from h have r: "rd img (Some n) = Some ?len"
    and hp: "holds img (n + 1) (map (\<lambda>b. Some (band b 0xFF)) data)"
    by (simp_all add: holds_Cons m u)
  have d: "map (\<lambda>j. rd img (Some (n + 1 + int j))) [0..<length data] = data"
    using holds_map_rd [OF hp] mask_wfBytes [OF w] by simp
  have k: "min (max ?len 0) (left - 1) = ?len" using room by simp
  have "cont img n left acc = variableLoop img (n + 1) (left - 1) (Some ?len) acc"
    using room r by (simp add: cont_def)
  also have "\<dots> = (if 0 < left - 1 - ?len
                   then variableLoop img (n + 1 + ?len + 1) (left - 1 - ?len - 1)
                          (rd img (Some (n + 1 + ?len))) (acc @ [VariableRecord data])
                   else variableLoop img (n + 1 + ?len) (left - 1 - ?len) (Some ?len)
                          (acc @ [VariableRecord data]))"
    using room l1 l2 by (subst variableLoop.simps) (simp add: k d Let_def)
  also have "\<dots> = cont img (n + 1 + ?len) (left - 1 - ?len) (acc @ [VariableRecord data])"
  proof (cases "0 < left - 1 - ?len")
    case True
    then show ?thesis by (simp add: cont_def)
  next
    case False
    then show ?thesis by (subst variableLoop.simps) (simp add: cont_def)
  qed
  finally show ?thesis .
qed

lemma cont_closing:
  assumes "holds img n (closing left)"
  shows "cont img n left acc = acc"
proof (cases "0 < left")
  case True
  with assms have "rd img (Some n) = Some 0xFF"
    by (simp add: closing_def holds_Cons toByte_def)
  with True show ?thesis by (simp add: cont_def) (subst variableLoop.simps, simp)
next
  case False
  then show ?thesis by (simp add: cont_def)
qed

lemma moreSectors_nonneg: "0 \<le> moreSectors left rs"
  by (induction rs arbitrary: left) auto

lemma putRecords_append: "foldl putRecord (foldl putRecord f xs) ys = foldl putRecord f (xs @ ys)"
  by simp

lemma holds_in_range:
  "holds img n (v # vs) \<Longrightarrow> 0 \<le> n \<and> n < int (length img)"
  by (auto simp: holds_Cons rd_def split: if_splits)

lemma sectorLoop_variable_step:
  assumes "sector \<le> endSector" and "rt \<noteq> RecordType_num FIXED"
      and "sector * 256 < int (length img)"
  shows "sectorLoop img (FileType_num DATA) rt rps rl eof sector endSector (f, p, sl)
         = sectorLoop img (FileType_num DATA) rt rps rl eof (sector + 1) endSector
             (foldl putRecord f (readVariableSector img (sector * 256)), p, sl - 1)"
  using assms by (subst sectorLoop.simps) simp

lemma sectorLoop_done:
  "endSector < sector \<Longrightarrow> sectorLoop img ft rt rps rl eof sector endSector st = st"
  by (cases st) (simp add: sectorLoop.simps)

lemma sectorLoop_variable:
  assumes "holds img n (varBytes left rs)"
      and "n + left = (sec + 1) * 256" and "0 \<le> left" and "left \<le> 256"
      and "\<forall>r\<in>set rs. 1 \<le> length (getData r) \<and> length (getData r) \<le> 254 \<and> wfBytes (getData r)"
      and "rt \<noteq> RecordType_num FIXED"
  shows "sectorLoop img (FileType_num DATA) rt rps rl eof (sec + 1) (sec + moreSectors left rs)
           (foldl putRecord f (cont img n left acc), p, sl)
         = (foldl putRecord f (acc @ map (\<lambda>r. VariableRecord (getData r)) rs), p,
            sl - moreSectors left rs)"
  using assms(1-5)
proof (induction rs arbitrary: n left sec acc f sl)
  case Nil
  then have "cont img n left acc = acc" by (simp add: cont_closing)
  then show ?case by (simp add: sectorLoop_done)
next
  case (Cons r rs)
  let ?data = "getData r"
  let ?len = "int (length ?data)"
  let ?rec = "Some (?len AND 0xFF) # map (\<lambda>b. Some (band b 0xFF)) ?data"
  have w: "wfBytes ?data" "1 \<le> length ?data" "length ?data \<le> 254"
    using Cons.prems(5) by simp_all
  have rest: "\<forall>r\<in>set rs. 1 \<le> length (getData r) \<and> length (getData r) \<le> 254 \<and> wfBytes (getData r)"
    using Cons.prems(5) by simp
  show ?case
  proof (cases "left \<le> ?len")
    case True
    let ?n1 = "(sec + 1) * 256"
    have lc: "n + int (length (closing left)) = ?n1"
      using Cons.prems(2,3) by (simp add: length_closing)
    from Cons.prems(1) True
    have "holds img n (closing left @ (?rec @ varBytes (255 - ?len) rs))" by simp
    then have "holds img n (closing left)
             \<and> holds img (n + int (length (closing left))) (?rec @ varBytes (255 - ?len) rs)"
      by (simp only: holds_append)
    then have hc: "holds img n (closing left)"
      and hr: "holds img ?n1 (?rec @ varBytes (255 - ?len) rs)"
      by (simp_all only: lc)
    from hr have "holds img ?n1 ?rec \<and> holds img (?n1 + int (length ?rec)) (varBytes (255 - ?len) rs)"
      by (simp only: holds_append)
    then have hrec: "holds img ?n1 ?rec"
      and hrest: "holds img (?n1 + 1 + ?len) (varBytes (255 - ?len) rs)"
      by (simp_all add: ac_simps)
    have c0: "cont img n left acc = acc" using hc by (rule cont_closing)
    have inr: "?n1 < int (length img)" using holds_in_range [OF hrec] by simp
    have rv: "readVariableSector img ?n1
                = cont img (?n1 + 1 + ?len) (255 - ?len) [VariableRecord ?data]"
      using cont_record [OF hrec w, of 256 "[]"] w(3) by (simp add: readVariableSector_cont)
    have ms: "sec + moreSectors left (r # rs) = sec + 1 + moreSectors (255 - ?len) rs"
      using True by simp
    have ih: "sectorLoop img (FileType_num DATA) rt rps rl eof (sec + 1 + 1)
                (sec + 1 + moreSectors (255 - ?len) rs)
                (foldl putRecord (foldl putRecord f acc)
                   (cont img (?n1 + 1 + ?len) (255 - ?len) [VariableRecord ?data]), p, sl - 1)
              = (foldl putRecord (foldl putRecord f acc)
                   ([VariableRecord ?data] @ map (\<lambda>r. VariableRecord (getData r)) rs), p,
                 sl - 1 - moreSectors (255 - ?len) rs)"
      using w(3) by (intro Cons.IH [OF hrest _ _ _ rest]) (simp_all add: algebra_simps)
    have le: "sec + 1 \<le> sec + 1 + moreSectors (255 - ?len) rs"
      using moreSectors_nonneg [of "255 - ?len" rs] by simp
    have "sectorLoop img (FileType_num DATA) rt rps rl eof (sec + 1)
            (sec + moreSectors left (r # rs)) (foldl putRecord f (cont img n left acc), p, sl)
        = sectorLoop img (FileType_num DATA) rt rps rl eof (sec + 1)
            (sec + 1 + moreSectors (255 - ?len) rs) (foldl putRecord f acc, p, sl)"
      by (simp only: c0 ms)
    also have "\<dots> = sectorLoop img (FileType_num DATA) rt rps rl eof (sec + 1 + 1)
            (sec + 1 + moreSectors (255 - ?len) rs)
            (foldl putRecord (foldl putRecord f acc) (readVariableSector img ?n1), p, sl - 1)"
      by (rule sectorLoop_variable_step [OF le assms(6) inr])
    also have "\<dots> = (foldl putRecord (foldl putRecord f acc)
                   ([VariableRecord ?data] @ map (\<lambda>r. VariableRecord (getData r)) rs), p,
                 sl - 1 - moreSectors (255 - ?len) rs)"
      by (simp only: rv ih)
    also have "\<dots> = (foldl putRecord f
                   (acc @ map (\<lambda>r. VariableRecord (getData r)) (r # rs)), p,
                 sl - moreSectors left (r # rs))"
      using True by simp
    finally show ?thesis .
  next
    case False
    from Cons.prems(1) False
    have "holds img n (?rec @ varBytes (left - 1 - ?len) rs)" by simp
    then have "holds img n ?rec \<and> holds img (n + int (length ?rec)) (varBytes (left - 1 - ?len) rs)"
      by (simp only: holds_append)
    then have hrec: "holds img n ?rec"
      and hrest: "holds img (n + 1 + ?len) (varBytes (left - 1 - ?len) rs)"
      by (simp_all add: ac_simps)
    have c: "cont img n left acc
               = cont img (n + 1 + ?len) (left - 1 - ?len) (acc @ [VariableRecord ?data])"
      using False by (intro cont_record [OF hrec w]) simp
    have ms: "moreSectors left (r # rs) = moreSectors (left - 1 - ?len) rs" using False by simp
    have "sectorLoop img (FileType_num DATA) rt rps rl eof (sec + 1)
            (sec + moreSectors (left - 1 - ?len) rs)
            (foldl putRecord f
               (cont img (n + 1 + ?len) (left - 1 - ?len) (acc @ [VariableRecord ?data])), p, sl)
          = (foldl putRecord f
               ((acc @ [VariableRecord ?data]) @ map (\<lambda>r. VariableRecord (getData r)) rs), p,
             sl - moreSectors (left - 1 - ?len) rs)"
      using False Cons.prems(2,3,4)
      by (intro Cons.IH [OF hrest _ _ _ rest]) simp_all
    then show ?thesis by (simp add: c ms del: moreSectors.simps)
  qed
qed

lemma holds_split:
  assumes "holds img n vs" and "k \<le> length vs"
  shows "holds img n (take k vs)" and "holds img (n + int k) (drop k vs)"
proof -
  have "holds img n (take k vs @ drop k vs)" using assms(1) by simp
  then have "holds img n (take k vs) \<and> holds img (n + int (length (take k vs))) (drop k vs)"
    by (simp only: holds_append)
  moreover have "length (take k vs) = k" using assms(2) by simp
  ultimately show "holds img n (take k vs)" and "holds img (n + int k) (drop k vs)"
    by simp_all
qed

lemma holds_at: "holds img n vs \<Longrightarrow> n = m \<Longrightarrow> holds img m vs"
  by simp

lemma sectorLoop_program:
  assumes "ft \<noteq> FileType_num DATA" and "0 \<le> eof" and "eof < 256"
      and "holds img (sec * 256) vs"
      and "length vs = n * 256 + (if eof = 0 then 256 else nat eof)"
  shows "sectorLoop img ft rt rps rl (Some eof) sec (sec + int n) (f, p, int n + 1)
         = (f, p @ map (\<lambda>v. Some (uint (toByte v))) vs, 0)"
  using assms(4,5)
proof (induction n arbitrary: sec vs p)
  case 0
  show ?case
  proof (cases "eof = 0")
    case True
    then have "length vs = 256" using 0(2) by simp
    then have "map (\<lambda>i. rd img (Some (sec * 256 + int i))) [0..<256]
        = map (\<lambda>v. Some (uint (toByte v))) vs"
      using holds_map_rd [OF 0(1)] by simp
    then show ?thesis
      using assms(1) True
      by (subst sectorLoop.simps) (simp add: sectorLoop_done del: upt_Suc)
  next
    case False
    then have "length vs = turns (Some eof)" using 0(2) by (simp add: turns_def)
    then have "map (\<lambda>i. rd img (Some (sec * 256 + int i))) [0..<turns (Some eof)]
        = map (\<lambda>v. Some (uint (toByte v))) vs"
      using holds_map_rd [OF 0(1)] by simp
    then show ?thesis
      using assms(1) False
      by (subst sectorLoop.simps) (simp add: sectorLoop_done del: upt_Suc)
  qed
next
  case (Suc n)
  have l: "256 \<le> length vs" using Suc.prems(2) by simp
  have h1: "holds img (sec * 256) (take 256 vs)"
    by (rule holds_split(1) [OF Suc.prems(1) l])
  have h2: "holds img ((sec + 1) * 256) (drop 256 vs)"
    by (rule holds_at [OF holds_split(2) [OF Suc.prems(1) l]]) (simp add: algebra_simps)
  have l2: "length (drop 256 vs) = n * 256 + (if eof = 0 then 256 else nat eof)"
    using Suc.prems(2) by simp
  have r: "map (\<lambda>i. rd img (Some (sec * 256 + int i))) [0..<256]
        = map (\<lambda>v. Some (uint (toByte v))) (take 256 vs)"
  proof -
    have lt: "length (take 256 vs) = 256" using l by simp
    show ?thesis using holds_map_rd [OF h1] by (simp only: lt)
  qed
  have c: "(if 1 < int (Suc n) + 1 \<or> int (Suc n) + 1 = 1 \<and> Some eof = Some 0
            then 256 else turns (Some eof)) = 256"
    by simp
  have "sectorLoop img ft rt rps rl (Some eof) sec (sec + int (Suc n)) (f, p, int (Suc n) + 1)
        = sectorLoop img ft rt rps rl (Some eof) (sec + 1) (sec + 1 + int n)
            (f, p @ map (\<lambda>v. Some (uint (toByte v))) (take 256 vs), int n + 1)"
    using assms(1)
    by (subst sectorLoop.simps) (simp add: r del: upt_Suc; simp add: ac_simps)
  also have "\<dots> = (f, (p @ map (\<lambda>v. Some (uint (toByte v))) (take 256 vs))
                        @ map (\<lambda>v. Some (uint (toByte v))) (drop 256 vs), 0)"
    by (rule Suc.IH [OF h2 l2])
  also have "\<dots> = (f, p @ map (\<lambda>v. Some (uint (toByte v))) vs, 0)"
    by (simp flip: map_append)
  finally show ?case .
qed


lemma sectorLoop_fixed_step:
  assumes "sector \<le> endSector"
  shows "sectorLoop img (FileType_num DATA) (RecordType_num FIXED) rps rl eof sector endSector (f, p, sl)
         = sectorLoop img (FileType_num DATA) (RecordType_num FIXED) rps rl eof (sector + 1) endSector
             (foldl putRecord f (readFixedSector img sector rps rl), p, sl - 1)"
  using assms by (subst sectorLoop.simps) simp

lemma readFixedSector_holds:
  assumes h: "\<forall>j<k. holds img (sec * 256 + int j * l) (map (\<lambda>b. Some (band b 0xFF)) (getData (rs ! j)))"
      and w: "\<forall>j<k. int (length (getData (rs ! j))) = l \<and> wfBytes (getData (rs ! j))"
      and k: "k \<le> length rs"
  shows "readFixedSector img sec (Some (int k)) (Some l)
         = map (\<lambda>r. FixedRecord (getData r)) (take k rs)"
proof (rule nth_equalityI)
  show "length (readFixedSector img sec (Some (int k)) (Some l))
        = length (map (\<lambda>r. FixedRecord (getData r)) (take k rs))"
    using k by (simp add: readFixedSector_def turns_def)
next
  fix j assume "j < length (readFixedSector img sec (Some (int k)) (Some l))"
  then have j: "j < k" by (simp add: readFixedSector_def turns_def)
  let ?data = "getData (rs ! j)"
  have len: "int (length ?data) = l" and wf: "wfBytes ?data" using w j by simp_all
  have n: "nat l = length ?data" using len by simp
  have hj: "holds img (sec * 256 + int j * l) (map (\<lambda>b. Some (band b 0xFF)) ?data)"
    using h j by simp
  have "map (\<lambda>i. rd img (Some (sec * 256 + int j * l + int i))) [0..<length ?data] = ?data"
    using holds_map_rd [OF hj] mask_wfBytes [OF wf] by simp
  then have "map (\<lambda>i. rd img (Some (sec * 256 + (int j * l + int i)))) [0..<nat l] = ?data"
    by (simp add: n add.assoc)
  then show "readFixedSector img sec (Some (int k)) (Some l) ! j
        = map (\<lambda>r. FixedRecord (getData r)) (take k rs) ! j"
    using j k by (simp add: readFixedSector_def turns_def nadd_def nmul_def newFixedRecord_def)
qed

lemma sectorLoop_fixed:
  assumes "0 < k"
      and "\<forall>j<length rs. holds img (fixedPos sec l k j) (map (\<lambda>b. Some (band b 0xFF)) (getData (rs ! j)))"
      and "\<forall>r\<in>set rs. int (length (getData r)) = l \<and> wfBytes (getData r)"
      and "length rs = m * k" and "e = sec + int m - 1"
  shows "sectorLoop img (FileType_num DATA) (RecordType_num FIXED) (Some (int k)) (Some l) eof
           sec e (f, p, sl)
         = (foldl putRecord f (map (\<lambda>r. FixedRecord (getData r)) rs), p, sl - int m)"
  using assms(2-5)
proof (induction m arbitrary: sec rs f sl)
  case 0
  then show ?case by (simp add: sectorLoop_done)
next
  case (Suc m)
  have kl: "k \<le> length rs" using Suc.prems(3) by simp
  have h0: "\<forall>j<k. holds img (sec * 256 + int j * l) (map (\<lambda>b. Some (band b 0xFF)) (getData (rs ! j)))"
  proof (intro allI impI)
    fix j assume j: "j < k"
    then have "j < length rs" using kl by simp
    then have "holds img (fixedPos sec l k j) (map (\<lambda>b. Some (band b 0xFF)) (getData (rs ! j)))"
      using Suc.prems(1) by simp
    then show "holds img (sec * 256 + int j * l) (map (\<lambda>b. Some (band b 0xFF)) (getData (rs ! j)))"
      using j by (simp add: fixedPos_def)
  qed
  have w0: "\<forall>j<k. int (length (getData (rs ! j))) = l \<and> wfBytes (getData (rs ! j))"
    using Suc.prems(2) kl by (simp add: all_set_conv_all_nth)
  have rf: "readFixedSector img sec (Some (int k)) (Some l)
            = map (\<lambda>r. FixedRecord (getData r)) (take k rs)"
    by (rule readFixedSector_holds [OF h0 w0 kl])
  have h1: "\<forall>j<length (drop k rs). holds img (fixedPos (sec + 1) l k j)
              (map (\<lambda>b. Some (band b 0xFF)) (getData (drop k rs ! j)))"
  proof (intro allI impI)
    fix j assume j: "j < length (drop k rs)"
    then have jk: "k + j < length rs" by simp
    have d: "(k + j) div k = Suc (j div k)" "(k + j) mod k = j mod k"
      using assms(1) div_add_self1 [of k j] by simp_all
    have "holds img (fixedPos sec l k (k + j)) (map (\<lambda>b. Some (band b 0xFF)) (getData (rs ! (k + j))))"
      using Suc.prems(1) jk by simp
    moreover have "fixedPos sec l k (k + j) = fixedPos (sec + 1) l k j"
      by (simp only: fixedPos_def d) simp
    ultimately show "holds img (fixedPos (sec + 1) l k j)
              (map (\<lambda>b. Some (band b 0xFF)) (getData (drop k rs ! j)))"
      using kl by simp
  qed
  have w1: "\<forall>r\<in>set (drop k rs). int (length (getData r)) = l \<and> wfBytes (getData r)"
    using Suc.prems(2) by (meson in_set_dropD)
  have l1: "length (drop k rs) = m * k" using Suc.prems(3) by simp
  have le: "sec \<le> e" using Suc.prems(4) by simp
  have e1: "e = sec + 1 + int m - 1" using Suc.prems(4) by simp
  have "sectorLoop img (FileType_num DATA) (RecordType_num FIXED) (Some (int k)) (Some l) eof
           sec e (f, p, sl)
        = sectorLoop img (FileType_num DATA) (RecordType_num FIXED) (Some (int k)) (Some l) eof
           (sec + 1) e
           (foldl putRecord f (map (\<lambda>r. FixedRecord (getData r)) (take k rs)), p, sl - 1)"
    by (simp only: sectorLoop_fixed_step [OF le] rf)
  also have "\<dots> = (foldl putRecord (foldl putRecord f (map (\<lambda>r. FixedRecord (getData r)) (take k rs)))
             (map (\<lambda>r. FixedRecord (getData r)) (drop k rs)), p, sl - 1 - int m)"
    by (rule Suc.IH [OF h1 w1 l1 e1])
  also have "\<dots> = (foldl putRecord f (map (\<lambda>r. FixedRecord (getData r)) rs), p, sl - int (Suc m))"
    by (simp add: putRecords_append flip: map_append)
  finally show ?case .
qed


subsection \<open>Sorting by insertion\<close>

lemma count_list_insertBy: "count_list (insertBy c x ys) y = count_list (x # ys) y"
  by (induction ys) auto

lemma count_list_sortBy: "count_list (sortBy c xs) y = count_list xs y"
proof -
  have "count_list (foldl (\<lambda>acc x. insertBy c x acc) acc xs) y
        = count_list acc y + count_list xs y" for acc
    by (induction xs arbitrary: acc) (simp_all add: count_list_insertBy)
  then show ?thesis by (simp add: sortBy_def)
qed

lemma set_insertBy: "set (insertBy c x ys) = insert x (set ys)"
  by (induction ys) auto

lemma sorted_insertBy:
  assumes total: "\<And>a b. c a b < 0 \<or> c b a \<le> 0"
      and trans: "\<And>a b d. c a b \<le> 0 \<Longrightarrow> c b d \<le> 0 \<Longrightarrow> c a d \<le> 0"
      and s: "sorted_wrt (\<lambda>a b. c a b \<le> 0) ys"
  shows "sorted_wrt (\<lambda>a b. c a b \<le> (0::int)) (insertBy c x ys)"
  using s
proof (induction ys)
  case Nil
  then show ?case by simp
next
  case (Cons y ys)
  show ?case
  proof (cases "c x y < 0")
    case True
    then have "c x y \<le> 0" by simp
    then have "\<forall>z\<in>set ys. c x z \<le> 0" using Cons.prems trans by auto
    then show ?thesis using True Cons.prems by simp
  next
    case False
    then have "c y x \<le> 0" using total [of x y] by simp
    then show ?thesis using False Cons by (simp add: set_insertBy)
  qed
qed

lemma sorted_sortBy:
  assumes total: "\<And>a b. c a b < 0 \<or> c b a \<le> 0"
      and trans: "\<And>a b d. c a b \<le> 0 \<Longrightarrow> c b d \<le> 0 \<Longrightarrow> c a d \<le> 0"
  shows "sorted_wrt (\<lambda>a b. c a b \<le> (0::int)) (sortBy c xs)"
proof -
  have "sorted_wrt (\<lambda>a b. c a b \<le> 0) acc
        \<Longrightarrow> sorted_wrt (\<lambda>a b. c a b \<le> 0) (foldl (\<lambda>acc x. insertBy c x acc) acc xs)" for acc
    by (induction xs arbitrary: acc) (simp_all add: sorted_insertBy [OF total trans])
  then show ?thesis by (simp add: sortBy_def)
qed

lemma compareCodes_total: "compareCodes a b < 0 \<or> compareCodes b a \<le> 0"
  by (induction a b rule: compareCodes.induct) auto

lemma compareCodes_trans:
  "compareCodes a b \<le> 0 \<Longrightarrow> compareCodes b d \<le> 0 \<Longrightarrow> compareCodes a d \<le> 0"
proof (induction a b arbitrary: d rule: compareCodes.induct)
  case 1
  then show ?case by simp
next
  case (2 y ys)
  then show ?case by (cases d) simp_all
next
  case (3 x xs)
  then show ?case by simp
next
  case (4 x xs y ys)
  show ?case
  proof (cases d)
    case Nil
    then show ?thesis using 4 by simp
  next
    case (Cons z zs)
    show ?thesis
    proof (cases "(of_char x :: nat) < of_char y")
      case True
      then show ?thesis using 4(3) Cons by (auto split: if_splits)
    next
      case False
      then have e: "(of_char x :: nat) = of_char y" using 4(2) by (simp split: if_splits)
      have a: "compareCodes xs ys \<le> 0" using 4(2) e by simp
      show ?thesis
      proof (cases "(of_char y :: nat) < of_char z")
        case True
        then show ?thesis using e Cons by simp
      next
        case False
        then have e2: "(of_char y :: nat) = of_char z" using 4(3) Cons by (simp split: if_splits)
        have b: "compareCodes ys zs \<le> 0" using 4(3) Cons e2 by simp
        have "compareCodes xs zs \<le> 0" using 4(1) [OF _ _ a b] e by simp
        then show ?thesis using e e2 Cons by simp
      qed
    qed
  qed
qed

subsection \<open>Bytes and bits\<close>

lemma masks:
  "(0xF00::int) = push_bit 8 (mask 4)" "(15::int) = mask 4" "(255::int) = mask 8"
  "(0xFF0::int) = push_bit 4 (mask 8)" "(0xF0::int) = push_bit 4 (mask 4)"
  "(0xFF00::int) = push_bit 8 (mask 8)"
  by (simp_all add: mask_eq_exp_minus_1)

lemma low_bit:
  assumes "0 \<le> (a::int)" and "a < 2 ^ k" and "bit a n"
  shows "n < k"
proof (rule ccontr)
  assume "\<not> n < k"
  have "take_bit k a = a" using assms(1,2) by (simp add: take_bit_int_eq_self)
  then have "bit a n = bit (take_bit k a) n" by simp
  then show False using assms(3) \<open>\<not> n < k\<close> by (simp add: bit_take_bit_iff)
qed

lemma dcp_au:
  assumes "0 \<le> a" "a < 4096"
  shows "push_bit 8 ((push_bit 4 (c AND 15) OR drop_bit 8 (a AND 0xF00)) AND 15) OR (a AND 255) = (a::int)"
proof (rule bit_eqI)
  fix n
  have hi: "m < 12" if "bit a m" for m
    using low_bit [of a 12 m] assms that by simp
  show "bit (push_bit 8 ((push_bit 4 (c AND 15) OR drop_bit 8 (a AND 0xF00)) AND 15) OR (a AND 255)) n
        = bit a n"
    unfolding masks using hi [of n] by (auto simp add: bit_simps)
qed

lemma dcp_count:
  assumes "0 \<le> c" "c < 4096"
  shows "push_bit 4 (drop_bit 4 (c AND 0xFF0)) OR drop_bit 4 ((push_bit 4 (c AND 15) OR drop_bit 8 (a AND 0xF00)) AND 0xF0) = (c::int)"
proof (rule bit_eqI)
  fix n
  have hi: "m < 12" if "bit c m" for m
    using low_bit [of c 12 m] assms that by simp
  show "bit (push_bit 4 (drop_bit 4 (c AND 0xFF0)) OR drop_bit 4 ((push_bit 4 (c AND 15) OR drop_bit 8 (a AND 0xF00)) AND 0xF0)) n
        = bit c n"
    unfolding masks using hi [of n] by (auto simp add: bit_simps)
qed

lemma byte_bound:
  assumes "\<And>n. bit (x::int) n \<Longrightarrow> n < 8"
  shows "0 \<le> x \<and> x < 256"
proof -
  have "take_bit 8 x = x"
    by (rule bit_eqI) (use assms in \<open>auto simp add: bit_take_bit_iff\<close>)
  moreover have "0 \<le> take_bit 8 x" by simp
  moreover have "take_bit 8 x < 2 ^ 8" by (rule take_bit_int_less_exp)
  ultimately show ?thesis by simp
qed

lemma dcp_byte1:
  "0 \<le> push_bit 4 (c AND 15) OR drop_bit 8 (a AND 0xF00)
   \<and> push_bit 4 (c AND 15) OR drop_bit 8 (a AND 0xF00) < (256::int)"
  unfolding masks by (rule byte_bound) (auto simp add: bit_simps)

lemma dcp_byte2: "0 \<le> drop_bit 4 (c AND 0xFF0) \<and> drop_bit 4 (c AND 0xFF0) < (256::int)"
  unfolding masks by (rule byte_bound) (auto simp add: bit_simps)

lemma low_byte: "0 \<le> a AND 255 \<and> a AND 255 < (256::int)"
  unfolding masks by (rule byte_bound) (auto simp add: bit_simps)

lemma high_byte: "0 \<le> drop_bit 8 (a AND 0xFF00) \<and> drop_bit 8 (a AND 0xFF00) < (256::int)"
  unfolding masks by (rule byte_bound) (auto simp add: bit_simps)

lemma word16:
  assumes "0 \<le> a" "a < 65536"
  shows "push_bit 8 (drop_bit 8 (a AND 0xFF00)) + (a AND 255) = (a::int)"
proof -
  have hi: "m < 16" if "bit a m" for m
    using low_bit [of a 16 m] assms that by simp
  have "push_bit 8 (drop_bit 8 (a AND 0xFF00)) + (a AND 255)
        = push_bit 8 (drop_bit 8 (a AND 0xFF00)) OR (a AND 255)"
    unfolding masks
    by (rule disjunctive_add_eq_or) (rule bit_eqI, auto simp add: bit_simps)
  also have "\<dots> = a"
  proof (rule bit_eqI)
    fix n
    show "bit (push_bit 8 (drop_bit 8 (a AND 0xFF00)) OR (a AND 255)) n = bit a n"
      unfolding masks using hi [of n] by (auto simp add: bit_simps)
  qed
  finally show ?thesis .
qed


subsection \<open>Decoding a file descriptor record\<close>

lemma uint_toByte_band: "uint (toByte (Some (band (Some v) 0xFF))) = v AND 0xFF"
proof -
  have "0 \<le> v AND 255 \<and> v AND 255 < 256" by (rule low_byte)
  then show ?thesis by (simp add: band_def uint_toByte)
qed

lemma dataChainLoop_first:
  assumes h: "holds img (addr + 0x1C) (pointerBytes start cnt)"
      and s: "0 < start" "start < 4096" and c: "0 \<le> cnt" "cnt < 4096" and sl: "0 < sl"
      and run: "sectorLoop img ft rt rps rl eof start (start + cnt) (f, p, sl) = (f', p', 0)"
  shows "dataChainLoop img 1 (Some addr) ft rt rps rl eof 0 (f, p, sl, -1) = (f', p', 0, cnt)"
proof -
  define b0 where "b0 = start AND 255"
  define b1 where "b1 = push_bit 4 (cnt AND 15) OR drop_bit 8 (start AND 0xF00)"
  define b2 where "b2 = drop_bit 4 (cnt AND 0xFF0)"
  have m0: "b0 AND 0xFF = b0" unfolding b0_def by simp
  have m1: "b1 AND 0xFF = b1"
    unfolding b1_def using dcp_byte1 [of cnt start] by (intro and_255_id) simp_all
  have m2: "b2 AND 0xFF = b2"
    unfolding b2_def using dcp_byte2 [of cnt] by (intro and_255_id) simp_all
  have "holds img (addr + 0x1C)
          [Some (band (Some b0) 0xFF), Some (band (Some b1) 0xFF), Some (band (Some b2) 0xFF)]"
    using h unfolding pointerBytes_def b0_def b1_def b2_def .
  then have r0: "rd img (Some (addr + 28)) = Some b0"
    and r1: "rd img (Some (addr + 29)) = Some b1"
    and r2: "rd img (Some (addr + 30)) = Some b2"
    by (simp_all add: holds_Cons uint_toByte_band m0 m1 m2 add.assoc)
  have r1': "rd img (Some (29 + addr)) = Some b1" and r2': "rd img (Some (30 + addr)) = Some b2"
    using r1 r2 by (simp_all add: add.commute)
  have m: "push_bit 8 (b1 AND 15) OR b0 = start"
    unfolding b0_def b1_def using s by (intro dcp_au) simp_all
  have n: "push_bit 4 b2 OR drop_bit 4 (b1 AND 0xF0) = cnt"
    unfolding b1_def b2_def using c by (intro dcp_count) simp_all
  have "dataChainLoop img 1 (Some addr) ft rt rps rl eof 0 (f, p, sl, -1)
        = dataChainLoop img 1 (Some addr) ft rt rps rl eof 1 (f', p', 0, cnt)"
    using sl s(1) run m n r0 r1 r2 r1' r2'
    by (subst dataChainLoop.simps)
       (simp add: nadd_def bor_def band_def shl_def Let_def)
  also have "\<dots> = (f', p', 0, cnt)"
    by (subst dataChainLoop.simps) simp
  finally show ?thesis .
qed


lemma nameBytes_padded:
  assumes "length str \<le> 10"
  shows "nameBytes str = map (\<lambda>c. Some (of_char c)) (str @ replicate (10 - length str) CHR '' '')"
  using assms by (simp add: nameBytes_def min_def)

lemma int_of_char: "(of_char c :: int) = int (of_char c)"
  by (simp add: of_nat_of_char)

lemma uint_toByte_char: "uint (toByte (Some (of_char c))) = of_char c"
proof -
  have "(of_char c :: nat) < 256" by simp
  then have "(of_char c :: int) < 256" "0 \<le> (of_char c :: int)"
    unfolding int_of_char by simp_all
  then show ?thesis by (intro uint_toByte) simp_all
qed

lemma readChars_holds:
  assumes h: "holds img addr (map (\<lambda>c. Some (of_char c)) str)"
      and c: "\<forall>c\<in>set str. 32 \<le> (of_char c :: nat) \<and> (of_char c :: nat) < 128"
  shows "readChars img (Some addr) (length str) = str"
proof -
  have "(case rd img (nadd (Some addr) (Some (int i))) of
           None \<Rightarrow> []
         | Some ch \<Rightarrow> if 32 \<le> ch \<and> ch < 128 then [char_of ch] else []) = [str ! i]"
    if i: "i < length str" for i
  proof -
    have r: "rd img (Some (addr + int i)) = Some (of_char (str ! i))"
      using holds_nth [OF h, of i] i by (simp add: uint_toByte_char)
    have n: "32 \<le> (of_char (str ! i) :: nat)" "(of_char (str ! i) :: nat) < 128"
      using c i by simp_all
    from n have "32 \<le> (of_char (str ! i) :: int)" "(of_char (str ! i) :: int) < 128"
      unfolding int_of_char by simp_all
    then show ?thesis by (simp add: nadd_def r)
  qed
  then have "map (\<lambda>i. case rd img (nadd (Some addr) (Some (int i))) of
                         None \<Rightarrow> []
                       | Some ch \<Rightarrow> if 32 \<le> ch \<and> ch < 128 then [char_of ch] else [])
                 [0..<length str]
             = map (\<lambda>i. [str ! i]) [0..<length str]"
    by simp
  then have "readChars img (Some addr) (length str) = concat (map (\<lambda>i. [str ! i]) [0..<length str])"
    by (simp only: readChars_def)
  also have "\<dots> = map (\<lambda>i. str ! i) [0..<length str]" by (simp add: concat_map_singleton)
  also have "\<dots> = str" by (rule map_nth)
  finally show ?thesis .
qed

lemma trim_padded:
  assumes "\<forall>c\<in>set str. 32 \<le> (of_char c :: nat) \<and> (of_char c :: nat) < 128"
      and "str = [] \<or> hd str \<noteq> CHR '' '' \<and> last str \<noteq> CHR '' ''"
  shows "trim (str @ replicate k CHR '' '') = str"
proof (cases "str = []")
  case True
  have "dropWhile isWhiteSpace (replicate k CHR '' '') = []"
    by (simp add: isWhiteSpace_def)
  then show ?thesis using True by (simp add: trim_def)
next
  case False
  have ws: "\<not> isWhiteSpace c" if "c \<in> set str" "c \<noteq> CHR '' ''" for c
  proof -
    have "32 \<le> (of_char c :: nat)" "(of_char c :: nat) < 128" using assms(1) that by simp_all
    moreover have "(of_char c :: nat) \<noteq> 32"
    proof
      assume "(of_char c :: nat) = 32"
      then have "(of_char c :: nat) = of_char CHR '' ''" by simp
      then show False using that(2) by (simp only: of_char_eq_iff)
    qed
    ultimately show ?thesis by (simp add: isWhiteSpace_def)
  qed
  have h: "\<not> isWhiteSpace (hd str)" using False assms(2) by (intro ws) simp_all
  have l: "\<not> isWhiteSpace (last str)" using False assms(2) by (intro ws) simp_all
  have 1: "dropWhile isWhiteSpace (str @ replicate k CHR '' '') = str @ replicate k CHR '' ''"
    using False h by (cases str) simp_all
  have 2: "dropWhile isWhiteSpace (replicate k CHR '' '' @ rev str) = rev str"
  proof -
    have "dropWhile isWhiteSpace (replicate k CHR '' '' @ rev str) = dropWhile isWhiteSpace (rev str)"
      by (intro dropWhile_append2) (simp add: isWhiteSpace_def)
    also have "\<dots> = rev str" using False l by (cases "rev str") (simp_all add: hd_rev)
    finally show ?thesis .
  qed
  show ?thesis by (simp add: trim_def 1 2)
qed

lemma fileName_decoded:
  assumes "holds img addr (nameBytes str)" and "wfName str"
  shows "trim (readChars img (Some addr) 10) = str"
proof -
  let ?p = "str @ replicate (10 - length str) CHR '' ''"
  have len: "length str \<le> 10" using assms(2) by (simp add: wfName_def)
  have l10: "length ?p = 10" using len by simp
  have "holds img addr (map (\<lambda>c. Some (of_char c)) ?p)"
    using assms(1) nameBytes_padded [OF len] by simp
  moreover have "\<forall>c\<in>set ?p. 32 \<le> (of_char c :: nat) \<and> (of_char c :: nat) < 128"
    using assms(2) by (auto simp add: wfName_def)
  ultimately have "readChars img (Some addr) (length ?p) = ?p" by (rule readChars_holds)
  then have "readChars img (Some addr) 10 = ?p" by (simp only: l10)
  then show ?thesis using assms(2) by (simp add: trim_padded wfName_def)
qed


subsection \<open>The data sectors that the encoder writes\<close>

lemma imageVariableLoop_blit:
  assumes "\<forall>r\<in>set rs. length (getData r) \<le> 255"
      and "0 \<le> left" and "left \<le> 256" and "n + left = (sec + 1) * 256"
  shows "\<exists>d' n' left'.
           foldl imageVariableStep (d, n, sec, left) rs = (d', n', sec + moreSectors left rs, left')
           \<and> fst (storeAll u8store d' n' (closing left'))
               = fst (storeAll u8store d n (varBytes left rs))
           \<and> 0 \<le> left' \<and> left' \<le> 256"
  using assms
proof (induction rs arbitrary: d n sec left)
  case Nil
  then show ?case by simp
next
  case (Cons r rs)
  let ?len = "int (length (getData r))"
  let ?c = "if left \<le> ?len then closing left else []"
  let ?d1 = "if left \<le> ?len then fst (storeAll u8store d n (closing left)) else d"
  let ?n1 = "if left \<le> ?len then (sec + 1) * 256 else n"
  let ?rec = "Some (?len AND 0xFF) # map (\<lambda>b. Some (band b 0xFF)) (getData r)"
  let ?d2 = "fst (storeAll u8store ?d1 ?n1 ?rec)"
  let ?n2 = "?n1 + 1 + ?len"
  let ?sec2 = "if left \<le> ?len then sec + 1 else sec"
  let ?left2 = "(if left \<le> ?len then 256 else left) - 1 - ?len"
  have len: "?len \<le> 255" using Cons.prems(1) by simp
  have step: "imageVariableStep (d, n, sec, left) r = (?d2, ?n2, ?sec2, ?left2)"
    by (simp only: imageVariableStep_stores Let_def)
  have a: "\<forall>r\<in>set rs. length (getData r) \<le> 255" using Cons.prems(1) by simp
  have b: "0 \<le> ?left2" "?left2 \<le> 256" using len Cons.prems(2,3) by auto
  have c: "?n2 + ?left2 = (?sec2 + 1) * 256" using Cons.prems(4) by auto
  obtain d' n' left' where
    f: "foldl imageVariableStep (?d2, ?n2, ?sec2, ?left2) rs
        = (d', n', ?sec2 + moreSectors ?left2 rs, left')"
    and s: "fst (storeAll u8store d' n' (closing left'))
            = fst (storeAll u8store ?d2 ?n2 (varBytes ?left2 rs))"
    and l: "0 \<le> left'" "left' \<le> 256"
    using Cons.IH [OF a b c] by blast
  have n1: "?n1 = n + int (length ?c)"
    using Cons.prems(2,4) by (simp add: length_closing)
  have d1: "?d1 = fst (storeAll u8store d n ?c)" by simp
  have "fst (storeAll u8store d n (varBytes left (r # rs)))
        = fst (storeAll u8store d n (?c @ ?rec @ varBytes ?left2 rs))"
    by simp
  also have "\<dots> = fst (storeAll u8store
                      (fst (storeAll u8store (fst (storeAll u8store d n ?c)) (n + int (length ?c)) ?rec))
                      (n + int (length ?c) + int (length ?rec)) (varBytes ?left2 rs))"
    by (simp only: storeAll_append)
  also have "\<dots> = fst (storeAll u8store ?d2 ?n2 (varBytes ?left2 rs))"
    by (simp only: d1 [symmetric] n1 [symmetric]) (simp add: add.assoc)
  finally have e: "fst (storeAll u8store d' n' (closing left'))
                   = fst (storeAll u8store d n (varBytes left (r # rs)))"
    using s by simp
  have ms: "sec + moreSectors left (r # rs) = ?sec2 + moreSectors ?left2 rs" by simp
  show ?case
    apply (rule exI [of _ d'], rule exI [of _ n'], rule exI [of _ left'])
    using f e l by (simp only: foldl_Cons step ms)
qed

lemma writeDataSectors_variable:
  assumes "getFileType f = DATA" and "getRecordType f = VARIABLE"
      and "\<forall>r\<in>set (getRecords f). length (getData r) \<le> 255"
  shows "writeDataSectors d f start
         = (fst (storeAll u8store d (start * 256) (varBytes 256 (getRecords f))),
            start + moreSectors 256 (getRecords f))"
proof -
  obtain d' n' left' where
    f: "foldl imageVariableStep (d, start * 256, start, 256) (getRecords f)
        = (d', n', start + moreSectors 256 (getRecords f), left')"
    and s: "fst (storeAll u8store d' n' (closing left'))
            = fst (storeAll u8store d (start * 256) (varBytes 256 (getRecords f)))"
    and l: "0 \<le> left'" "left' \<le> 256"
    using imageVariableLoop_blit [OF assms(3), of 256 "start * 256" start d] by auto
  show ?thesis
    using assms(1,2) s l
    by (simp add: writeDataSectors_def f closeSector_storeAll del: storeAll.simps)
qed

lemma writeDataSectors_program:
  assumes "getFileType f = PROGRAM"
  shows "writeDataSectors d f start
         = (fst (storeAll u8store d (start * 256)
                   (map (\<lambda>b. Some (band b 0xFF)) (map (\<lambda>b. Some (uint b)) (getProgram f)))),
            start + int (length (getProgram f)) div 256
              - (if int (length (getProgram f)) mod 256 = 0 then 1 else 0))"
  using assms by (simp add: writeDataSectors_def writeBytes_storeAll case_prod_beta del: storeAll.simps)


subsection \<open>What a write leaves as it is\<close>

lemma sameOutside_refl: "sameOutside d d W"
  by (simp add: sameOutside_def)

lemma sameOutside_trans:
  assumes "sameOutside d d' W" and "sameOutside d' d'' W'"
      and "\<And>p. W p \<Longrightarrow> V p" and "\<And>p. W' p \<Longrightarrow> V p"
  shows "sameOutside d d'' V"
  using assms unfolding sameOutside_def by metis

lemma sameOutside_mono:
  assumes "sameOutside d d' W" and "\<And>p. W p \<Longrightarrow> V p"
  shows "sameOutside d d' V"
  using assms unfolding sameOutside_def by metis

lemma sameOutside_storeAll:
  assumes "\<And>p. n \<le> p \<Longrightarrow> p < n + int (length vs) \<Longrightarrow> W p"
  shows "sameOutside d (fst (storeAll u8store d n vs)) W"
  unfolding sameOutside_def
proof (intro conjI allI impI)
  show "length (fst (storeAll u8store d n vs)) = length d" by simp
next
  fix p assume "\<not> W p"
  then have "\<not> (n \<le> p \<and> p < n + int (length vs))" using assms by blast
  then show "rd (fst (storeAll u8store d n vs)) (Some p) = rd d (Some p)"
    by (simp only: rd_storeAll_u8) (simp add: rd_def)
qed

lemma sameOutside_length: "sameOutside d d' W \<Longrightarrow> length d' = length d"
  by (simp add: sameOutside_def)

lemma holds_sameOutside:
  assumes "holds d n vs" and "sameOutside d d' W"
      and "\<And>p. n \<le> p \<Longrightarrow> p < n + int (length vs) \<Longrightarrow> \<not> W p"
  shows "holds d' n vs"
  unfolding holds_def
proof (intro allI impI)
  fix i assume i: "i < length vs"
  then have "\<not> W (n + int i)" using assms(3) by simp
  then have "rd d' (Some (n + int i)) = rd d (Some (n + int i))"
    using assms(2) by (simp add: sameOutside_def)
  then show "rd d' (Some (n + int i)) = Some (uint (toByte (vs ! i)))"
    using assms(1) i by (simp add: holds_def)
qed

lemma holds_storeAll:
  assumes "0 \<le> n" and "n + int (length vs) \<le> int (length d)"
  shows "holds (fst (storeAll u8store d n vs)) n vs"
  unfolding holds_def
proof (intro allI impI)
  fix i assume i: "i < length vs"
  then show "rd (fst (storeAll u8store d n vs)) (Some (n + int i)) = Some (uint (toByte (vs ! i)))"
    using assms by (simp only: rd_storeAll_u8) simp
qed

lemma fixedPos_Suc:
  assumes "0 < k" and "int k * l \<le> 256"
  shows "fixedPos s l k i + l \<le> fixedPos s l k (Suc i)"
proof (cases "Suc (i mod k) = k")
  case True
  then have "Suc i mod k = 0" "Suc i div k = Suc (i div k)"
    by (simp_all add: mod_Suc div_Suc)
  moreover have "int (i mod k) * l + l = int k * l"
    using True by (metis add.commute of_nat_Suc distrib_right mult_1)
  ultimately show ?thesis using assms(2) by (simp add: fixedPos_def algebra_simps)
next
  case False
  then have "Suc i mod k = Suc (i mod k)" "Suc i div k = i div k"
    by (simp_all add: mod_Suc div_Suc)
  then show ?thesis by (simp add: fixedPos_def algebra_simps)
qed

lemma fixedPos_mono:
  assumes "0 < k" and "int k * l \<le> 256" and "0 \<le> l" and "i \<le> j"
  shows "fixedPos s l k i \<le> fixedPos s l k j"
  using assms(4)
proof (induction j)
  case 0
  then show ?case by simp
next
  case (Suc j)
  show ?case
  proof (cases "i = Suc j")
    case True
    then show ?thesis by simp
  next
    case False
    then have "fixedPos s l k i \<le> fixedPos s l k j" using Suc by simp
    also have "\<dots> \<le> fixedPos s l k j + l" using assms(3) by simp
    also have "\<dots> \<le> fixedPos s l k (Suc j)" by (rule fixedPos_Suc [OF assms(1,2)])
    finally show ?thesis .
  qed
qed

lemma imageFixedStep_stores:
  assumes "0 < k" and "int (length (getData r)) = l"
  shows "imageFixedStep (Some (int k))
           (d, fixedPos s l k i, s + int (i div k), int (i mod k)) r
         = (fst (storeAll u8store d (fixedPos s l k i) (map (\<lambda>b. Some (band b 0xFF)) (getData r))),
            fixedPos s l k (Suc i), s + int (Suc i div k), int (Suc i mod k))"
proof (cases "Suc (i mod k) = k")
  case True
  then have e: "Suc i mod k = 0" "Suc i div k = Suc (i div k)"
    by (simp_all add: mod_Suc div_Suc)
  have t: "int (i mod k) + 1 = int k" using True by linarith
  show ?thesis
    by (simp add: writeBytes_storeAll case_prod_beta t e fixedPos_def del: storeAll.simps)
next
  case False
  then have e: "Suc i mod k = Suc (i mod k)" "Suc i div k = i div k"
    by (simp_all add: mod_Suc div_Suc)
  have t: "int (i mod k) + 1 \<noteq> int k" using False by linarith
  show ?thesis
    using assms(2) t
    by (simp add: writeBytes_storeAll case_prod_beta e fixedPos_def algebra_simps
        del: storeAll.simps)
qed


lemma imageFixedLoop:
  assumes k: "0 < k" and kl: "int k * l \<le> 256" and l0: "0 \<le> l"
      and recs: "\<forall>r\<in>set rs. int (length (getData r)) = l"
  shows "\<exists>d'. foldl (imageFixedStep (Some (int k)))
                (d, fixedPos s l k i, s + int (i div k), int (i mod k)) rs
              = (d', fixedPos s l k (i + length rs), s + int ((i + length rs) div k),
                 int ((i + length rs) mod k))
            \<and> sameOutside d d' (\<lambda>p. fixedPos s l k i \<le> p \<and> p < fixedPos s l k (i + length rs))
            \<and> (0 \<le> fixedPos s l k i \<and> fixedPos s l k (i + length rs) \<le> int (length d)
               \<longrightarrow> (\<forall>j<length rs. holds d' (fixedPos s l k (i + j))
                                     (map (\<lambda>b. Some (band b 0xFF)) (getData (rs ! j)))))"
  using recs
proof (induction rs arbitrary: d i)
  case Nil
  show ?case by (simp add: sameOutside_refl)
next
  case (Cons r rs)
  let ?bytes = "map (\<lambda>b. Some (band b 0xFF)) (getData r)"
  let ?d1 = "fst (storeAll u8store d (fixedPos s l k i) ?bytes)"
  have lr: "int (length (getData r)) = l" using Cons.prems by simp
  have a: "\<forall>r\<in>set rs. int (length (getData r)) = l" using Cons.prems by simp
  have step: "imageFixedStep (Some (int k)) (d, fixedPos s l k i, s + int (i div k), int (i mod k)) r
              = (?d1, fixedPos s l k (Suc i), s + int (Suc i div k), int (Suc i mod k))"
    by (rule imageFixedStep_stores [OF k lr])
  have ix: "Suc i + length rs = i + length (r # rs)" by simp
  obtain d' where
    f: "foldl (imageFixedStep (Some (int k)))
          (?d1, fixedPos s l k (Suc i), s + int (Suc i div k), int (Suc i mod k)) rs
        = (d', fixedPos s l k (i + length (r # rs)), s + int ((i + length (r # rs)) div k),
           int ((i + length (r # rs)) mod k))"
    and o: "sameOutside ?d1 d'
              (\<lambda>p. fixedPos s l k (Suc i) \<le> p \<and> p < fixedPos s l k (i + length (r # rs)))"
    and h: "0 \<le> fixedPos s l k (Suc i) \<and> fixedPos s l k (i + length (r # rs)) \<le> int (length ?d1)
            \<longrightarrow> (\<forall>j<length rs. holds d' (fixedPos s l k (Suc i + j))
                                  (map (\<lambda>b. Some (band b 0xFF)) (getData (rs ! j))))"
    using Cons.IH [OF a, of ?d1 "Suc i"] unfolding ix by blast
  have s1: "fixedPos s l k i + l \<le> fixedPos s l k (Suc i)" by (rule fixedPos_Suc [OF k kl])
  have s2: "fixedPos s l k (Suc i) \<le> fixedPos s l k (i + length (r # rs))"
    by (rule fixedPos_mono [OF k kl l0]) simp
  have o1: "sameOutside d ?d1 (\<lambda>p. fixedPos s l k i \<le> p \<and> p < fixedPos s l k (i + length (r # rs)))"
    by (rule sameOutside_storeAll) (use lr s1 s2 in simp)
  have o2: "sameOutside d d' (\<lambda>p. fixedPos s l k i \<le> p \<and> p < fixedPos s l k (i + length (r # rs)))"
    by (rule sameOutside_trans [OF o1 o]) (use l0 s1 in auto)
  have hh: "\<forall>j<length (r # rs). holds d' (fixedPos s l k (i + j))
              (map (\<lambda>b. Some (band b 0xFF)) (getData ((r # rs) ! j)))"
    if r: "0 \<le> fixedPos s l k i" "fixedPos s l k (i + length (r # rs)) \<le> int (length d)"
  proof (intro allI impI)
    fix j assume j: "j < length (r # rs)"
    show "holds d' (fixedPos s l k (i + j)) (map (\<lambda>b. Some (band b 0xFF)) (getData ((r # rs) ! j)))"
    proof (cases j)
      case 0
      have "holds ?d1 (fixedPos s l k i) ?bytes"
        by (rule holds_storeAll) (use r lr s1 s2 in simp_all)
      then have "holds d' (fixedPos s l k i) ?bytes"
        by (rule holds_sameOutside [OF _ o]) (use lr s1 in simp)
      then show ?thesis using 0 by simp
    next
      case (Suc j')
      have "0 \<le> fixedPos s l k (Suc i)" using r(1) s1 l0 by simp
      then have "holds d' (fixedPos s l k (Suc i + j')) (map (\<lambda>b. Some (band b 0xFF)) (getData (rs ! j')))"
        using h r(2) j Suc by simp
      then show ?thesis using Suc by simp
    qed
  qed
  show ?case
    apply (rule exI [of _ d'])
    using f o2 hh by (simp only: foldl_Cons step) blast
qed


lemma recordsPerSector:
  assumes "0 < l" and "l \<le> 256"
  shows "0 < nat (256 div l)" and "int (nat (256 div l)) * l \<le> 256"
    and "floor256 (Some l) = Some (int (nat (256 div l)))"
proof -
  have p: "0 < 256 div l" using assms by (simp add: pos_imp_zdiv_pos_iff)
  then show "0 < nat (256 div l)" by simp
  have "(256 div l) * l + 256 mod l = 256" by simp
  moreover have "0 \<le> 256 mod l" using assms(1) by simp
  ultimately have "(256 div l) * l \<le> 256" by linarith
  then show "int (nat (256 div l)) * l \<le> 256" using p by simp
  show "floor256 (Some l) = Some (int (nat (256 div l)))"
    using assms(1) p by (simp add: floor256_def)
qed

lemma writeDataSectors_fixed:
  assumes "getFileType f = DATA" and "getRecordType f = FIXED" and "getRecordLength f = Some l"
      and l: "0 < l" "l \<le> 256"
      and recs: "\<forall>r\<in>set (getRecords f). int (length (getData r)) = l"
  shows "\<exists>d'. writeDataSectors d f start
              = (d', start + int (length (getRecords f) div nat (256 div l))
                     - (if length (getRecords f) mod nat (256 div l) = 0 then 1 else 0))
            \<and> sameOutside d d'
                (\<lambda>p. start * 256 \<le> p
                      \<and> p < fixedPos start l (nat (256 div l)) (length (getRecords f)))
            \<and> (0 \<le> start
                 \<and> fixedPos start l (nat (256 div l)) (length (getRecords f)) \<le> int (length d)
               \<longrightarrow> (\<forall>j<length (getRecords f).
                      holds d' (fixedPos start l (nat (256 div l)) j)
                        (map (\<lambda>b. Some (band b 0xFF)) (getData (getRecords f ! j)))))"
proof -
  define k where "k = nat (256 div l)"
  note k = recordsPerSector [OF l, folded k_def]
  have l0: "0 \<le> l" using l by simp
  have p0: "fixedPos start l k 0 = start * 256" by (simp add: fixedPos_def)
  obtain d' where
    f: "foldl (imageFixedStep (Some (int k))) (d, start * 256, start, 0) (getRecords f)
        = (d', fixedPos start l k (length (getRecords f)),
           start + int (length (getRecords f) div k), int (length (getRecords f) mod k))"
    and o: "sameOutside d d'
              (\<lambda>p. start * 256 \<le> p \<and> p < fixedPos start l k (length (getRecords f)))"
    and h: "0 \<le> start * 256 \<and> fixedPos start l k (length (getRecords f)) \<le> int (length d)
            \<longrightarrow> (\<forall>j<length (getRecords f).
                   holds d' (fixedPos start l k j)
                     (map (\<lambda>b. Some (band b 0xFF)) (getData (getRecords f ! j))))"
    using imageFixedLoop [OF k(1,2) l0 recs, of d start 0] unfolding p0 by auto
  have w: "writeDataSectors d f start
           = (d', start + int (length (getRecords f) div k)
                  - (if length (getRecords f) mod k = 0 then 1 else 0))"
    using assms(1-3) by (simp add: writeDataSectors_def k(3) f)
  show ?thesis
    unfolding k_def [symmetric]
    apply (rule exI [of _ d'])
    using w o h by simp
qed


subsection \<open>The data sectors of a file\<close>

lemma length_varBytes:
  assumes "\<forall>r\<in>set rs. length (getData r) \<le> 255" and "0 \<le> left" and "left \<le> 256"
  shows "int (length (varBytes left rs)) = left + 256 * moreSectors left rs"
  using assms
proof (induction rs arbitrary: left)
  case Nil
  then show ?case by (simp add: length_closing)
next
  case (Cons r rs)
  let ?len = "int (length (getData r))"
  let ?left2 = "(if left \<le> ?len then 256 else left) - 1 - ?len"
  have len: "?len \<le> 255" using Cons.prems(1) by simp
  have a: "\<forall>r\<in>set rs. length (getData r) \<le> 255" using Cons.prems(1) by simp
  have b: "0 \<le> ?left2" "?left2 \<le> 256" using len Cons.prems(2,3) by auto
  have ih: "int (length (varBytes ?left2 rs)) = ?left2 + 256 * moreSectors ?left2 rs"
    by (rule Cons.IH [OF a b])
  show ?case
  proof (cases "left \<le> ?len")
    case True
    then show ?thesis using ih Cons.prems(2) by (simp add: length_closing)
  next
    case False
    then show ?thesis using ih by simp
  qed
qed

lemma lastSector_program:
  assumes "getFileType f = PROGRAM"
  shows "lastSector f start
         = start + int (length (getProgram f)) div 256
             - (if int (length (getProgram f)) mod 256 = 0 then 1 else 0)"
  by (simp add: lastSector_def writeDataSectors_program [OF assms] del: storeAll.simps)

lemma lastSector_variable:
  assumes "getFileType f = DATA" and "getRecordType f = VARIABLE"
      and "\<forall>r\<in>set (getRecords f). length (getData r) \<le> 255"
  shows "lastSector f start = start + moreSectors 256 (getRecords f)"
  by (simp add: lastSector_def writeDataSectors_variable [OF assms] del: storeAll.simps)

lemma lastSector_fixed:
  assumes "getFileType f = DATA" and "getRecordType f = FIXED" and "getRecordLength f = Some l"
      and "0 < l" and "l \<le> 256"
      and "\<forall>r\<in>set (getRecords f). int (length (getData r)) = l"
  shows "lastSector f start
         = start + int (length (getRecords f) div nat (256 div l))
             - (if length (getRecords f) mod nat (256 div l) = 0 then 1 else 0)"
  using writeDataSectors_fixed [OF assms, of "[]" start] by (auto simp add: lastSector_def)

lemma fixedPos_end:
  assumes "0 < k" and "int k * l \<le> 256" and "0 \<le> l"
  shows "fixedPos start l k c
         \<le> (start + int (c div k) - (if c mod k = 0 then 1 else 0) + 1) * 256"
proof (cases "c mod k = 0")
  case True
  then show ?thesis by (simp add: fixedPos_def)
next
  case False
  have "c mod k \<le> k" using assms(1) by (simp add: less_imp_le)
  then have "int (c mod k) * l \<le> int k * l" using assms(3) by (intro mult_right_mono) simp_all
  then show ?thesis using False assms(2) by (simp add: fixedPos_def)
qed

lemma packable_cases:
  assumes "packable f"
  obtains (program) "getFileType f = PROGRAM"
  | (variable) "getFileType f = DATA" "getRecordType f = VARIABLE"
      "\<forall>r\<in>set (getRecords f). length (getData r) \<le> 255"
  | (fixed) l where "getFileType f = DATA" "getRecordType f = FIXED" "getRecordLength f = Some l"
      "0 < l" "l \<le> 256" "\<forall>r\<in>set (getRecords f). int (length (getData r)) = l"
  using assms
  by (auto simp add: packable_def list_all_iff
      split: FileType.splits RecordType.splits option.splits)

lemma snd_writeDataSectors:
  assumes "packable f"
  shows "snd (writeDataSectors d f start) = lastSector f start"
  using assms
proof (cases rule: packable_cases)
  case program
  then show ?thesis
    by (simp add: lastSector_def writeDataSectors_program del: storeAll.simps)
next
  case variable
  then show ?thesis
    by (simp add: lastSector_def writeDataSectors_variable del: storeAll.simps)
next
  case (fixed l)
  show ?thesis
    using writeDataSectors_fixed [OF fixed, of d start] lastSector_fixed [OF fixed, of start]
    by auto
qed

lemma writeDataSectors_frame:
  assumes "packable f"
  shows "sameOutside d (fst (writeDataSectors d f start))
           (\<lambda>p. start * 256 \<le> p \<and> p < (lastSector f start + 1) * 256)"
  using assms
proof (cases rule: packable_cases)
  case program
  let ?n = "int (length (getProgram f))"
  have dm: "?n = 256 * (?n div 256) + ?n mod 256" by simp
  have lt: "?n mod 256 < 256" by simp
  have "start * 256 + ?n \<le> (lastSector f start + 1) * 256"
  proof (cases "?n mod 256 = 0")
    case True
    then have "?n = 256 * (?n div 256)" using dm by simp
    then show ?thesis unfolding lastSector_program [OF program] using True by simp
  next
    case False
    have "?n \<le> 256 * (?n div 256) + 256" using dm lt by linarith
    then show ?thesis unfolding lastSector_program [OF program] using False by simp
  qed
  then show ?thesis
    unfolding writeDataSectors_program [OF program] fst_conv
    by (intro sameOutside_storeAll) simp
next
  case variable
  have "int (length (varBytes 256 (getRecords f))) = 256 + 256 * moreSectors 256 (getRecords f)"
    by (rule length_varBytes [OF variable(3)]) simp_all
  then show ?thesis
    unfolding writeDataSectors_variable [OF variable] fst_conv lastSector_variable [OF variable]
    by (intro sameOutside_storeAll) (simp add: algebra_simps)
next
  case (fixed l)
  note k = recordsPerSector [OF fixed(4,5)]
  have e: "fixedPos start l (nat (256 div l)) (length (getRecords f))
           \<le> (lastSector f start + 1) * 256"
    unfolding lastSector_fixed [OF fixed]
    by (rule fixedPos_end [OF k(1,2)]) (use fixed(4) in simp)
  obtain d' where w: "fst (writeDataSectors d f start) = d'"
    and o: "sameOutside d d'
              (\<lambda>p. start * 256 \<le> p
                    \<and> p < fixedPos start l (nat (256 div l)) (length (getRecords f)))"
    using writeDataSectors_fixed [OF fixed, of d start] by auto
  show ?thesis
    unfolding w by (rule sameOutside_mono [OF o]) (use e in simp)
qed


lemma lastSector_ge:
  assumes "packable f"
  shows "start - 1 \<le> lastSector f start"
  using assms
proof (cases rule: packable_cases)
  case program
  have "0 \<le> int (length (getProgram f)) div 256" by simp
  moreover have "int (length (getProgram f)) mod 256 = 0 \<or> 0 < int (length (getProgram f)) mod 256"
    by (smt (verit) pos_mod_sign)
  ultimately show ?thesis unfolding lastSector_program [OF program] by auto
next
  case variable
  then show ?thesis
    unfolding lastSector_variable [OF variable]
    using moreSectors_nonneg [of 256 "getRecords f"] by simp
next
  case (fixed l)
  show ?thesis unfolding lastSector_fixed [OF fixed] by simp
qed

lemma writeDataSectors_stored:
  assumes "packable f" and "0 \<le> start" and "(lastSector f start + 1) * 256 \<le> int (length d)"
  shows "dataStored (fst (writeDataSectors d f start)) f start"
  using assms(1)
proof (cases rule: packable_cases)
  case program
  let ?n = "int (length (getProgram f))"
  let ?vs = "map (\<lambda>b. Some (band b 0xFF)) (map (\<lambda>b. Some (uint b)) (getProgram f))"
  have o: "sameOutside d (fst (writeDataSectors d f start))
           (\<lambda>p. start * 256 \<le> p \<and> p < (lastSector f start + 1) * 256)"
    by (rule writeDataSectors_frame [OF assms(1)])
  have dm: "?n = 256 * (?n div 256) + ?n mod 256" by simp
  have lt: "?n mod 256 < 256" by simp
  have "start * 256 + ?n \<le> (lastSector f start + 1) * 256"
  proof (cases "?n mod 256 = 0")
    case True
    then have "?n = 256 * (?n div 256)" using dm by simp
    then show ?thesis unfolding lastSector_program [OF program] using True by simp
  next
    case False
    have "?n \<le> 256 * (?n div 256) + 256" using dm lt by linarith
    then show ?thesis unfolding lastSector_program [OF program] using False by simp
  qed
  then have "start * 256 + int (length ?vs) \<le> int (length d)" using assms(3) by simp
  then have "holds (fst (storeAll u8store d (start * 256) ?vs)) (start * 256) ?vs"
    using assms(2) by (intro holds_storeAll) simp_all
  then show ?thesis
    using program by (simp add: dataStored_def writeDataSectors_program del: storeAll.simps)
next
  case variable
  let ?vs = "varBytes 256 (getRecords f)"
  have "int (length ?vs) = 256 + 256 * moreSectors 256 (getRecords f)"
    by (rule length_varBytes [OF variable(3)]) simp_all
  then have "start * 256 + int (length ?vs) \<le> int (length d)"
    using assms(3) unfolding lastSector_variable [OF variable] by (simp add: algebra_simps)
  then have "holds (fst (storeAll u8store d (start * 256) ?vs)) (start * 256) ?vs"
    using assms(2) by (intro holds_storeAll) simp_all
  then show ?thesis
    using variable(1,2)
    by (simp add: dataStored_def writeDataSectors_variable [OF variable] del: storeAll.simps)
next
  case (fixed l)
  note k = recordsPerSector [OF fixed(4,5)]
  have e: "fixedPos start l (nat (256 div l)) (length (getRecords f))
           \<le> (lastSector f start + 1) * 256"
    unfolding lastSector_fixed [OF fixed]
    by (rule fixedPos_end [OF k(1,2)]) (use fixed(4) in simp)
  obtain d' where w: "fst (writeDataSectors d f start) = d'"
    and h: "0 \<le> start
            \<and> fixedPos start l (nat (256 div l)) (length (getRecords f)) \<le> int (length d)
            \<longrightarrow> (\<forall>j<length (getRecords f).
                   holds d' (fixedPos start l (nat (256 div l)) j)
                     (map (\<lambda>b. Some (band b 0xFF)) (getData (getRecords f ! j))))"
    using writeDataSectors_fixed [OF fixed, of d start] by auto
  have "\<forall>j<length (getRecords f).
          holds d' (fixedPos start l (nat (256 div l)) j)
            (map (\<lambda>b. Some (band b 0xFF)) (getData (getRecords f ! j)))"
    using h e assms(2,3) by simp
  then show ?thesis
    using fixed(1-3) by (simp add: dataStored_def w)
qed


subsection \<open>The descriptor of a file\<close>

lemma length_nameBytes [simp]: "length (nameBytes str) = 10"
  by (simp add: nameBytes_def)

lemma length_descriptorBytes [simp]: "length (descriptorBytes f) = 10"
  by (simp add: descriptorBytes_def)

lemma length_pointerBytes [simp]: "length (pointerBytes au c) = 3"
  by (simp add: pointerBytes_def)

lemma writeFileDescriptor_storeAll:
  "writeFileDescriptor d f addr
   = fst (storeAll u8store d addr (nameBytes (getName f) @ descriptorBytes f))"
proof -
  have n: "writeString u8store d addr (getName f) 10
           = storeAll u8store d addr (nameBytes (getName f))"
    by (simp add: writeString_def nameBytes_def)
  have s: "storeAll u8store d addr (nameBytes (getName f))
           = (fst (storeAll u8store d addr (nameBytes (getName f))), addr + 10)"
    by (simp add: prod_eq_iff)
  show ?thesis
    unfolding writeFileDescriptor_def n
    by (subst s)
       (simp add: storeAll_append [of u8store d addr "nameBytes (getName f)"]
          descriptorBytes_def writeByte_def writeWord_def writeLEWord_def Let_def)
qed

lemma writeDataChainPointer_storeAll:
  "writeDataChainPointer d addr au c
   = fst (storeAll u8store d (addr + 0x1C) (pointerBytes au c))"
  by (simp add: writeDataChainPointer_def pointerBytes_def writeByte_def)

lemma sectorsToAllocationUnits_1 [simp]: "sectorsToAllocationUnits x 1 = x"
  by (simp add: sectorsToAllocationUnits_def)

lemma markAllocationUnit_frame:
  "sameOutside d (markAllocationUnit d i) (\<lambda>p. p = 0x38 + drop_bit 3 i)"
  unfolding sameOutside_def markAllocationUnit_def Let_def
  by (auto simp add: rd_def u8store_def)

lemma markAllocationUnits_frame:
  assumes "\<forall>i\<in>set is. W (0x38 + drop_bit 3 i)"
  shows "sameOutside d (foldl markAllocationUnit d is) W"
  using assms
proof (induction "is" arbitrary: d)
  case Nil
  show ?case by (simp add: sameOutside_refl)
next
  case (Cons i "is")
  have 1: "sameOutside d (markAllocationUnit d i) W"
    by (rule sameOutside_mono [OF markAllocationUnit_frame]) (use Cons.prems in simp)
  have 2: "sameOutside (markAllocationUnit d i) (foldl markAllocationUnit (markAllocationUnit d i) is) W"
    by (rule Cons.IH) (use Cons.prems in simp)
  show ?case using sameOutside_trans [OF 1 2] by simp
qed


lemma sameOutside_or:
  assumes "sameOutside d d' W" and "sameOutside d' d'' W'"
  shows "sameOutside d d'' (\<lambda>p. W p \<or> W' p)"
  by (rule sameOutside_trans [OF assms]) simp_all

lemma fixedPos_0: "fixedPos start l k 0 = start * 256"
  by (simp add: fixedPos_def)

lemma dataStored_sameOutside:
  assumes s: "dataStored d f start" and p: "packable f" and o: "sameOutside d d' W"
      and w: "\<And>p. start * 256 \<le> p \<Longrightarrow> p < (lastSector f start + 1) * 256 \<Longrightarrow> \<not> W p"
  shows "dataStored d' f start"
  using p
proof (cases rule: packable_cases)
  case program
  let ?n = "int (length (getProgram f))"
  let ?vs = "map (\<lambda>b. Some (band b 0xFF)) (map (\<lambda>b. Some (uint b)) (getProgram f))"
  have dm: "?n = 256 * (?n div 256) + ?n mod 256" by simp
  have lt: "?n mod 256 < 256" by simp
  have e: "start * 256 + ?n \<le> (lastSector f start + 1) * 256"
  proof (cases "?n mod 256 = 0")
    case True
    then have "?n = 256 * (?n div 256)" using dm by simp
    then show ?thesis unfolding lastSector_program [OF program] using True by simp
  next
    case False
    have "?n \<le> 256 * (?n div 256) + 256" using dm lt by linarith
    then show ?thesis unfolding lastSector_program [OF program] using False by simp
  qed
  have "holds d (start * 256) ?vs" using s program by (simp add: dataStored_def)
  then have "holds d' (start * 256) ?vs"
    by (rule holds_sameOutside [OF _ o]) (rule w, use e in simp_all)
  then show ?thesis using program by (simp add: dataStored_def)
next
  case variable
  let ?vs = "varBytes 256 (getRecords f)"
  have e: "int (length ?vs) = 256 + 256 * moreSectors 256 (getRecords f)"
    by (rule length_varBytes [OF variable(3)]) simp_all
  have "holds d (start * 256) ?vs" using s variable by (simp add: dataStored_def)
  then have "holds d' (start * 256) ?vs"
    by (rule holds_sameOutside [OF _ o])
       (rule w, use e in \<open>simp_all add: lastSector_variable [OF variable] algebra_simps\<close>)
  then show ?thesis using variable by (simp add: dataStored_def)
next
  case (fixed l)
  define k where "k = nat (256 div l)"
  note k = recordsPerSector [OF fixed(4,5), folded k_def]
  have l0: "0 \<le> l" using fixed(4) by simp
  have e: "fixedPos start l k (length (getRecords f)) \<le> (lastSector f start + 1) * 256"
    unfolding lastSector_fixed [OF fixed] k_def
    by (rule fixedPos_end [OF k(1,2) l0, unfolded k_def])
  have h: "\<forall>j<length (getRecords f).
             holds d (fixedPos start l k j)
               (map (\<lambda>b. Some (band b 0xFF)) (getData (getRecords f ! j)))"
    using s fixed(1-3) by (simp add: dataStored_def k_def)
  have "holds d' (fixedPos start l k j) (map (\<lambda>b. Some (band b 0xFF)) (getData (getRecords f ! j)))"
    if j: "j < length (getRecords f)" for j
  proof -
    have lj: "int (length (getData (getRecords f ! j))) = l" using fixed(6) j by simp
    have lo: "start * 256 \<le> fixedPos start l k j"
      using fixedPos_mono [OF k(1,2) l0, of 0 j start] by (simp add: fixedPos_0)
    have "fixedPos start l k j + l \<le> fixedPos start l k (Suc j)" by (rule fixedPos_Suc [OF k(1,2)])
    also have "\<dots> \<le> fixedPos start l k (length (getRecords f))"
      by (rule fixedPos_mono [OF k(1,2) l0]) (use j in simp)
    finally have hi: "fixedPos start l k j + l \<le> (lastSector f start + 1) * 256" using e by simp
    have "holds d (fixedPos start l k j) (map (\<lambda>b. Some (band b 0xFF)) (getData (getRecords f ! j)))"
      using h j by simp
    then show ?thesis
      by (rule holds_sameOutside [OF _ o]) (rule w, use lo hi lj in simp_all)
  qed
  then show ?thesis using fixed(1-3) by (simp add: dataStored_def k_def)
qed

lemma describes_sameOutside:
  assumes s: "describes d fdr f start" and p: "packable f" and o: "sameOutside d d' W"
      and w1: "\<And>p. fdr * 256 \<le> p \<Longrightarrow> p < fdr * 256 + 0x1F \<Longrightarrow> \<not> W p"
      and w2: "\<And>p. start * 256 \<le> p \<Longrightarrow> p < (lastSector f start + 1) * 256 \<Longrightarrow> \<not> W p"
  shows "describes d' fdr f start"
proof -
  have 1: "holds d' (fdr * 256) (nameBytes (getName f))"
    by (rule holds_sameOutside [OF _ o]) (use s in \<open>simp add: describes_def\<close>, rule w1, simp_all)
  have 2: "holds d' (fdr * 256 + 10) (descriptorBytes f)"
    by (rule holds_sameOutside [OF _ o]) (use s in \<open>simp add: describes_def\<close>, rule w1, simp_all)
  have 3: "holds d' (fdr * 256 + 0x1C) (pointerBytes start (lastSector f start - start))"
    by (rule holds_sameOutside [OF _ o]) (use s in \<open>simp add: describes_def\<close>, rule w1, simp_all)
  have 4: "dataStored d' f start"
    by (rule dataStored_sameOutside [OF _ p o w2]) (use s in \<open>simp add: describes_def\<close>)
  show ?thesis using 1 2 3 4 by (simp add: describes_def)
qed


lemma au_bound:
  assumes "0 < S" and "0 \<le> x" and "x \<le> 1599 * S"
  shows "0 \<le> sectorsToAllocationUnits x S" and "sectorsToAllocationUnits x S < 1600"
proof -
  have "(- x) div S \<le> 0" using assms(1,2) by (simp add: div_nonpos_pos_le0)
  then show "0 \<le> sectorsToAllocationUnits x S" by (simp add: sectorsToAllocationUnits_def)
  have "(- 1599 * S) div S \<le> (- x) div S" using assms(1,3) by (intro zdiv_mono1) simp_all
  moreover have "(- 1599 * S) div S = - 1599"
    using assms(1) nonzero_mult_div_cancel_right [of S "- 1599"] by simp
  ultimately show "sectorsToAllocationUnits x S < 1600" by (simp add: sectorsToAllocationUnits_def)
qed

lemma bitmap_position:
  assumes "0 \<le> (i::int)" and "i < 1600"
  shows "0x38 \<le> 0x38 + drop_bit 3 i" and "0x38 + drop_bit 3 i < 0x100"
proof -
  have "drop_bit 3 i = i div 8" by (simp add: drop_bit_eq_div)
  then show "0x38 \<le> 0x38 + drop_bit 3 i" "0x38 + drop_bit 3 i < 0x100" using assms by auto
qed

lemma writeWord_u8: "fst (writeWord u8store d n w)
   = fst (storeAll u8store d n [Some (drop_bit 8 (band w 0xFF00)), Some (band w 0xFF)])"
  by (simp add: writeWord_storeAll del: storeAll.simps)

lemma encodeFile_eq:
  assumes "packable f"
  shows "encodeFile S 1 first (d, start) (k, f)
         = (markAllocationUnit
              (foldl markAllocationUnit
                 (fst (storeAll u8store
                         (fst (writeDataSectors
                                 (fst (storeAll u8store
                                         (fst (storeAll u8store d (256 + 2 * k)
                                                 [Some (drop_bit 8 (band (Some (first + k * S)) 0xFF00)),
                                                  Some (band (Some (first + k * S)) 0xFF)]))
                                         ((first + k * S) * 256)
                                         (nameBytes (getName f) @ descriptorBytes f)))
                                 f start))
                         ((first + k * S) * 256 + 0x1C)
                         (pointerBytes start (lastSector f start - start))))
                 [sectorsToAllocationUnits start S..sectorsToAllocationUnits (lastSector f start) S])
              (sectorsToAllocationUnits (first + k * S) S),
            ceilN (lastSector f start + 1) S)"
proof -
  have s: "snd (writeDataSectors d' f start) = lastSector f start" for d'
    by (rule snd_writeDataSectors [OF assms])
  show ?thesis
    by (simp only: encodeFile.simps Let_def case_prod_beta s writeWord_u8
        writeFileDescriptor_storeAll writeDataChainPointer_storeAll sectorsToAllocationUnits_1)
qed


lemma encodeFile_describes:
  assumes p: "packable f" and S: "0 < S"
      and k: "0 \<le> k" "k < 127"
      and fdr: "fdr = first + k * S" "2 \<le> fdr" "fdr < start"
      and fit: "(lastSector f start + 1) * 256 \<le> int (length d)"
      and au: "lastSector f start \<le> 1599 * S"
  shows "snd (encodeFile S 1 first (d, start) (k, f)) = ceilN (lastSector f start + 1) S"
    and "sameOutside d (fst (encodeFile S 1 first (d, start) (k, f)))
           (fileRegion k fdr start (lastSector f start + 1))"
    and "describes (fst (encodeFile S 1 first (d, start) (k, f))) fdr f start"
    and "holds (fst (encodeFile S 1 first (d, start) (k, f))) (256 + 2 * k)
           [Some (drop_bit 8 (band (Some fdr) 0xFF00)), Some (band (Some fdr) 0xFF)]"
proof -
  let ?last = "lastSector f start"
  let ?w = "[Some (drop_bit 8 (band (Some fdr) 0xFF00)), Some (band (Some fdr) 0xFF)]"
  define d1 where "d1 = fst (storeAll u8store d (256 + 2 * k) ?w)"
  define d2 where "d2 = fst (storeAll u8store d1 (fdr * 256) (nameBytes (getName f) @ descriptorBytes f))"
  define d3 where "d3 = fst (writeDataSectors d2 f start)"
  define d4 where "d4 = fst (storeAll u8store d3 (fdr * 256 + 0x1C) (pointerBytes start (?last - start)))"
  define d5 where "d5 = foldl markAllocationUnit d4
                          [sectorsToAllocationUnits start S..sectorsToAllocationUnits ?last S]"
  define d6 where "d6 = markAllocationUnit d5 (sectorsToAllocationUnits fdr S)"
  have e: "encodeFile S 1 first (d, start) (k, f) = (d6, ceilN (?last + 1) S)"
    unfolding encodeFile_eq [OF p] d6_def d5_def d4_def d3_def d2_def d1_def fdr(1) ..
  show "snd (encodeFile S 1 first (d, start) (k, f)) = ceilN (?last + 1) S"
    by (simp only: e snd_conv)
  have ge: "start - 1 \<le> ?last" by (rule lastSector_ge [OF p])
  have len: "start * 256 \<le> int (length d)" using fit ge by simp
  have o01: "sameOutside d d1 (\<lambda>p. 256 + 2 * k \<le> p \<and> p < 256 + 2 * k + 2)"
    unfolding d1_def by (rule sameOutside_storeAll) simp
  have o12: "sameOutside d1 d2 (\<lambda>p. fdr * 256 \<le> p \<and> p < fdr * 256 + 20)"
    unfolding d2_def by (rule sameOutside_storeAll) simp
  have o23: "sameOutside d2 d3 (\<lambda>p. start * 256 \<le> p \<and> p < (?last + 1) * 256)"
    unfolding d3_def by (rule writeDataSectors_frame [OF p])
  have o34: "sameOutside d3 d4 (\<lambda>p. fdr * 256 + 0x1C \<le> p \<and> p < fdr * 256 + 0x1F)"
    unfolding d4_def by (rule sameOutside_storeAll) simp
  have b: "0x38 \<le> 0x38 + drop_bit 3 i \<and> 0x38 + drop_bit 3 i < 0x100"
    if "0 \<le> x" "x \<le> 1599 * S" "sectorsToAllocationUnits 0 S \<le> i"
       "i \<le> sectorsToAllocationUnits x S" for i x
  proof -
    have "0 \<le> i" using that(3) by (simp add: sectorsToAllocationUnits_def)
    moreover have "i < 1600" using au_bound(2) [OF S that(1,2)] that(4) by simp
    ultimately show ?thesis using bitmap_position [of i] by simp
  qed
  have st0: "sectorsToAllocationUnits 0 S \<le> sectorsToAllocationUnits start S"
    using au_bound(1) [OF S, of start] fdr(2,3) S
    by (simp add: sectorsToAllocationUnits_def div_nonpos_pos_le0)
  have o45: "sameOutside d4 d5 (\<lambda>p. 0x38 \<le> p \<and> p < 0x100)"
    unfolding d5_def
  proof (rule markAllocationUnits_frame, intro ballI)
    fix i assume i: "i \<in> set [sectorsToAllocationUnits start S..sectorsToAllocationUnits ?last S]"
    then have i2: "sectorsToAllocationUnits start S \<le> i" "i \<le> sectorsToAllocationUnits ?last S"
      by simp_all
    have "0 \<le> ?last" using ge fdr(2,3) by simp
    then show "0x38 \<le> 0x38 + drop_bit 3 i \<and> 0x38 + drop_bit 3 i < 0x100"
      using b [of ?last i] au st0 i2 by simp
  qed
  have fa: "fdr \<le> 1599 * S" using fdr(3) ge au by simp
  have o56: "sameOutside d5 d6 (\<lambda>p. 0x38 \<le> p \<and> p < 0x100)"
    unfolding d6_def
    by (rule sameOutside_mono [OF markAllocationUnit_frame])
       (use b [of fdr "sectorsToAllocationUnits fdr S"] fdr(2) fa S
            au_bound(1) [OF S, of fdr] in
        \<open>simp add: sectorsToAllocationUnits_def\<close>)
  have o46: "sameOutside d4 d6 (\<lambda>p. 0x38 \<le> p \<and> p < 0x100)"
    using sameOutside_trans [OF o45 o56] by simp
  have o36: "sameOutside d3 d6
               (\<lambda>p. (fdr * 256 + 0x1C \<le> p \<and> p < fdr * 256 + 0x1F) \<or> (0x38 \<le> p \<and> p < 0x100))"
    by (rule sameOutside_or [OF o34 o46])
  have o26: "sameOutside d2 d6
               (\<lambda>p. (start * 256 \<le> p \<and> p < (?last + 1) * 256)
                     \<or> (fdr * 256 + 0x1C \<le> p \<and> p < fdr * 256 + 0x1F) \<or> (0x38 \<le> p \<and> p < 0x100))"
    by (rule sameOutside_or [OF o23 o36])
  have o16: "sameOutside d1 d6
               (\<lambda>p. (fdr * 256 \<le> p \<and> p < fdr * 256 + 20)
                     \<or> (start * 256 \<le> p \<and> p < (?last + 1) * 256)
                     \<or> (fdr * 256 + 0x1C \<le> p \<and> p < fdr * 256 + 0x1F) \<or> (0x38 \<le> p \<and> p < 0x100))"
    by (rule sameOutside_or [OF o12 o26])
  have o06: "sameOutside d d6
               (\<lambda>p. (256 + 2 * k \<le> p \<and> p < 256 + 2 * k + 2)
                     \<or> (fdr * 256 \<le> p \<and> p < fdr * 256 + 20)
                     \<or> (start * 256 \<le> p \<and> p < (?last + 1) * 256)
                     \<or> (fdr * 256 + 0x1C \<le> p \<and> p < fdr * 256 + 0x1F) \<or> (0x38 \<le> p \<and> p < 0x100))"
    by (rule sameOutside_or [OF o01 o16])
  show "sameOutside d (fst (encodeFile S 1 first (d, start) (k, f))) (fileRegion k fdr start (?last + 1))"
    unfolding e fst_conv
    by (rule sameOutside_mono [OF o06]) (auto simp add: fileRegion_def)
  have l1: "length d1 = length d" by (simp add: d1_def)
  have l2: "length d2 = length d" by (simp add: d2_def l1)
  have l3: "length d3 = length d" using sameOutside_length [OF o23] l2 by simp
  have hw: "holds d1 (256 + 2 * k) ?w"
    unfolding d1_def by (rule holds_storeAll) (use k fdr(2,3) len in simp_all)
  show "holds (fst (encodeFile S 1 first (d, start) (k, f))) (256 + 2 * k) ?w"
    unfolding e fst_conv
    by (rule holds_sameOutside [OF hw o16]) (use k fdr(2,3) ge in auto)
  have hd: "holds d2 (fdr * 256) (nameBytes (getName f) @ descriptorBytes f)"
    unfolding d2_def by (rule holds_storeAll) (use fdr(2,3) len l1 in simp_all)
  have hd1: "holds d2 (fdr * 256) (nameBytes (getName f))"
    and hd2: "holds d2 (fdr * 256 + 10) (descriptorBytes f)"
    using hd by (simp_all add: holds_append)
  have hn6: "holds d6 (fdr * 256) (nameBytes (getName f))"
    by (rule holds_sameOutside [OF hd1 o26]) (use fdr(2,3) ge in auto)
  have hx6: "holds d6 (fdr * 256 + 10) (descriptorBytes f)"
    by (rule holds_sameOutside [OF hd2 o26]) (use fdr(2,3) ge in auto)
  have hs: "dataStored d3 f start"
    unfolding d3_def
    by (rule writeDataSectors_stored [OF p]) (use fdr(2,3) fit l2 in simp_all)
  have hs6: "dataStored d6 f start"
    by (rule dataStored_sameOutside [OF hs p o36]) (use fdr(2,3) in auto)
  have hp: "holds d4 (fdr * 256 + 0x1C) (pointerBytes start (?last - start))"
    unfolding d4_def by (rule holds_storeAll) (use fdr(2,3) len l3 in simp_all)
  have hp6: "holds d6 (fdr * 256 + 0x1C) (pointerBytes start (?last - start))"
    by (rule holds_sameOutside [OF hp o46]) (use fdr(2) in auto)
  show "describes (fst (encodeFile S 1 first (d, start) (k, f))) fdr f start"
    unfolding e fst_conv using hn6 hx6 hp6 hs6 by (simp add: describes_def)
qed


subsection \<open>The files of an image, one after the other\<close>

lemma ceilN_ge:
  assumes "0 < N" and "0 \<le> n"
  shows "n \<le> ceilN n N"
proof -
  have "jsrem n N = n mod N"
    using assms by (cases "n = 0") (simp_all add: jsrem_def)
  moreover have "n mod N < N" using assms(1) by simp
  ultimately show ?thesis by (simp add: ceilN_def)
qed

lemma layout_step:
  assumes "packable f" and "0 < S" and "0 \<le> start"
  shows "start \<le> ceilN (lastSector f start + 1) S"
    and "lastSector f start + 1 \<le> ceilN (lastSector f start + 1) S"
proof -
  have g: "start \<le> lastSector f start + 1" using lastSector_ge [OF assms(1), of start] by simp
  then have "0 \<le> lastSector f start + 1" using assms(3) by simp
  then show "lastSector f start + 1 \<le> ceilN (lastSector f start + 1) S"
    by (rule ceilN_ge [OF assms(2)])
  then show "start \<le> ceilN (lastSector f start + 1) S" using g by simp
qed

lemma layout_ge:
  assumes "\<forall>f\<in>set fs. packable f" and "0 < S" and "0 \<le> start"
  shows "start \<le> layout S start fs"
  using assms(1,3)
proof (induction fs arbitrary: start)
  case Nil
  show ?case by simp
next
  case (Cons f fs)
  have p: "packable f" using Cons.prems(1) by simp
  have s: "start \<le> ceilN (lastSector f start + 1) S"
    by (rule layout_step(1) [OF p assms(2) Cons.prems(2)])
  have "ceilN (lastSector f start + 1) S \<le> layout S (ceilN (lastSector f start + 1) S) fs"
    by (rule Cons.IH) (use Cons.prems s in simp_all)
  then show ?case using s by simp
qed


lemma encodeFiles:
  assumes p: "\<forall>f\<in>set fs. packable f" and S: "0 < S" and first: "2 \<le> first"
      and n: "j + length fs \<le> 127"
      and below: "first + int (j + length fs) * S \<le> start"
      and fit: "layout S start fs * 256 \<le> int (length d)"
      and au: "layout S start fs \<le> 1599 * S + 1"
  shows "sameOutside d
           (fst (foldl (encodeFile S 1 first) (d, start) (zip (map int [j..<j + length fs]) fs)))
           (filesRegion j (length fs) (first + int j * S) (first + int (j + length fs) * S)
              start (layout S start fs))
       \<and> (\<forall>i<length fs.
            describes
              (fst (foldl (encodeFile S 1 first) (d, start) (zip (map int [j..<j + length fs]) fs)))
              (first + int (j + i) * S) (fs ! i) (layout S start (take i fs))
            \<and> holds
              (fst (foldl (encodeFile S 1 first) (d, start) (zip (map int [j..<j + length fs]) fs)))
              (256 + 2 * int (j + i)) (wordBytes (first + int (j + i) * S)))"
  using p n below fit au
proof (induction fs arbitrary: d start j)
  case Nil
  show ?case by (simp add: sameOutside_refl)
next
  case (Cons f fs)
  let ?last = "lastSector f start"
  let ?fdr = "first + int j * S"
  let ?next = "ceilN (?last + 1) S"
  let ?end = "layout S ?next fs"
  let ?r = "encodeFile S 1 first (d, start) (int j, f)"
  let ?d1 = "fst ?r"
  let ?rest = "zip (map int [Suc j..<Suc j + length fs]) fs"
  let ?d' = "fst (foldl (encodeFile S 1 first) (?d1, ?next) ?rest)"
  have pf: "packable f" and ps: "\<forall>f\<in>set fs. packable f" using Cons.prems(1) by simp_all
  have jS: "0 \<le> int j * S" using S by simp
  have mono: "first + int a * S \<le> first + int b * S" if "a \<le> b" for a b
    using that S by (simp add: mult_right_mono)
  have stp: "first + int (Suc a) * S = first + int a * S + S" for a
    by (simp add: algebra_simps)
  have f2: "2 \<le> ?fdr" using first jS by simp
  have "?fdr + S = first + int (Suc j) * S" by (rule stp [symmetric])
  also have "\<dots> \<le> first + int (j + length (f # fs)) * S" by (rule mono) simp
  finally have fs: "?fdr + S \<le> start" using Cons.prems(3) by simp
  then have flt: "?fdr < start" using S by simp
  have s0: "0 \<le> start" using f2 flt by simp
  have st: "start \<le> ?next" and lt: "?last + 1 \<le> ?next"
    using layout_step [OF pf S s0] by simp_all
  have ne: "?next \<le> ?end" by (rule layout_ge [OF ps S]) (use st s0 in simp)
  have le: "layout S start (f # fs) = ?end" by simp
  have fit1: "(?last + 1) * 256 \<le> int (length d)" using Cons.prems(4) lt ne by simp
  have au1: "?last \<le> 1599 * S" using Cons.prems(5) lt ne by simp
  have kk: "0 \<le> int j" "int j < 127" using Cons.prems(2) by simp_all
  note ef = encodeFile_describes [OF pf S kk refl f2 flt fit1 au1]
  have r: "?r = (?d1, ?next)" using ef(1) by (simp add: prod_eq_iff)
  have l1: "length ?d1 = length d" using sameOutside_length [OF ef(2)] .
  define A where "A = first + int j * S"
  define B where "B = first + int (Suc j) * S"
  define C where "C = first + int (Suc j + length fs) * S"
  have C': "first + int (j + length (f # fs)) * S = C" unfolding C_def by simp
  have A2: "2 \<le> A" using f2 by (simp add: A_def)
  have AB: "A + 1 \<le> B" using S stp [of j] by (simp add: A_def B_def)
  have BC: "B \<le> C" unfolding B_def C_def by (rule mono) simp
  have Cs: "C \<le> start" using Cons.prems(3) by (simp add: C_def)
  have ih: "sameOutside ?d1 ?d' (filesRegion (Suc j) (length fs) B C ?next ?end)
       \<and> (\<forall>i<length fs.
            describes ?d' (first + int (Suc j + i) * S) (fs ! i) (layout S ?next (take i fs))
            \<and> holds ?d' (256 + 2 * int (Suc j + i)) (wordBytes (first + int (Suc j + i) * S)))"
    unfolding B_def C_def
  proof (rule Cons.IH [OF ps])
    show "Suc j + length fs \<le> 127" using Cons.prems(2) by simp
    show "first + int (Suc j + length fs) * S \<le> ?next" using Cons.prems(3) st by simp
    show "?end * 256 \<le> int (length ?d1)" using Cons.prems(4) l1 by simp
    show "?end \<le> 1599 * S + 1" using Cons.prems(5) by simp
  qed
  have up: "[j..<j + length (f # fs)] = j # [Suc j..<Suc j + length fs]"
    by (subst upt_conv_Cons) simp_all
  have fo: "fst (foldl (encodeFile S 1 first) (d, start) (zip (map int [j..<j + length (f # fs)]) (f # fs)))
            = ?d'"
  proof -
    have "foldl (encodeFile S 1 first) (d, start) (zip (map int [j..<j + length (f # fs)]) (f # fs))
          = foldl (encodeFile S 1 first) ?r ?rest"
      by (simp only: up list.map zip_Cons_Cons foldl_Cons)
    moreover have "foldl (encodeFile S 1 first) ?r ?rest
          = foldl (encodeFile S 1 first) (?d1, ?next) ?rest"
      by (rule arg_cong [of _ _ "\<lambda>x. foldl (encodeFile S 1 first) x ?rest", OF r])
    ultimately show ?thesis by (simp only:)
  qed
  note ef2 = ef(2) [folded A_def]
  note ef3 = ef(3) [folded A_def]
  note ef4 = ef(4) [folded A_def]
  have jn: "int j + int (length fs) \<le> 126" using Cons.prems(2) by simp
  have o: "sameOutside d ?d' (filesRegion j (length (f # fs)) A C start ?end)"
  proof (rule sameOutside_trans [OF ef2 conjunct1 [OF ih]])
    fix p assume "fileRegion (int j) A start (?last + 1) p"
    then show "filesRegion j (length (f # fs)) A C start ?end p"
      using lt ne AB BC by (auto simp add: fileRegion_def filesRegion_def)
  next
    fix p assume "filesRegion (Suc j) (length fs) B C ?next ?end p"
    then show "filesRegion j (length (f # fs)) A C start ?end p"
      using st AB by (auto simp add: filesRegion_def)
  qed
  have d0: "describes ?d' A f start"
  proof (rule describes_sameOutside [OF ef3 pf conjunct1 [OF ih]])
    fix p assume "A * 256 \<le> p" "p < A * 256 + 0x1F"
    then show "\<not> filesRegion (Suc j) (length fs) B C ?next ?end p"
      using A2 AB BC Cs st jn by (auto simp add: filesRegion_def)
  next
    fix p assume "start * 256 \<le> p" "p < (?last + 1) * 256"
    then show "\<not> filesRegion (Suc j) (length fs) B C ?next ?end p"
      using A2 AB BC Cs lt jn by (auto simp add: filesRegion_def)
  qed
  have h0: "holds ?d' (256 + 2 * int j) (wordBytes A)"
  proof (rule holds_sameOutside [OF _ conjunct1 [OF ih]])
    show "holds ?d1 (256 + 2 * int j) (wordBytes A)" using ef4 by (simp add: wordBytes_def)
  next
    fix p assume "256 + 2 * int j \<le> p" "p < 256 + 2 * int j + int (length (wordBytes A))"
    then show "\<not> filesRegion (Suc j) (length fs) B C ?next ?end p"
      using A2 AB BC Cs st jn by (auto simp add: filesRegion_def wordBytes_def)
  qed
  have all: "describes ?d' (first + int (j + i) * S) ((f # fs) ! i) (layout S start (take i (f # fs)))
            \<and> holds ?d' (256 + 2 * int (j + i)) (wordBytes (first + int (j + i) * S))"
    if i: "i < length (f # fs)" for i
  proof (cases i)
    case 0
    then show ?thesis using d0 h0 by (simp add: A_def)
  next
    case (Suc i')
    then have "i' < length fs" using i by simp
    then have "describes ?d' (first + int (Suc j + i') * S) (fs ! i') (layout S ?next (take i' fs))
            \<and> holds ?d' (256 + 2 * int (Suc j + i')) (wordBytes (first + int (Suc j + i') * S))"
      using ih by blast
    then show ?thesis using Suc by simp
  qed
  show ?case unfolding fo le C' using o all unfolding A_def by blast
qed


subsection \<open>Decoding what the encoder wrote\<close>

lemma statusFlags_bits:
  "0 \<le> statusFlagsOf f" "statusFlagsOf f \<le> 255"
  "statusFlagsOf f AND 0x01 = FileType_num (getFileType f)"
  "drop_bit 7 (statusFlagsOf f AND 0x80) = RecordType_num (getRecordType f)"
  "drop_bit 1 (statusFlagsOf f AND 0x02) = DataType_num (getDataType f)"
  by (cases "getFileType f"; cases "getRecordType f"; cases "getDataType f";
      simp add: statusFlagsOf_def)+

lemma FileType_of_num [simp]: "FileType_of (FileType_num a) = a"
  by (cases a) (simp_all add: FileType_of_def)

lemma RecordType_of_num [simp]: "RecordType_of (RecordType_num b) = b"
  by (cases b) (simp_all add: RecordType_of_def)

lemma DataType_of_num [simp]: "DataType_of (DataType_num c) = c"
  by (cases c) (simp_all add: DataType_of_def)

lemma descriptor_fields:
  assumes h: "holds img (addr + 10) (descriptorBytes f)"
      and sc: "0 \<le> getSectorCount f" "getSectorCount f < 65536"
  shows "rd img (Some (addr + 0x0C)) = Some (statusFlagsOf f)"
    and "rd img (Some (addr + 0x0D))
         = Some (band (if getFileType f = DATA
                        then floor256 (nadd (getRecordLength f)
                                        (Some (if getRecordType f = VARIABLE then 1 else 0)))
                        else Some 0) 0xFF)"
    and "nadd (Some (shl (rd img (Some (addr + 0x0E))) 8)) (rd img (Some (addr + 0x0F)))
         = Some (getSectorCount f)"
    and "rd img (Some (addr + 0x10)) = Some (band (Some (getEOFOffset f)) 0xFF)"
    and "rd img (Some (addr + 0x11))
         = Some (band (if getFileType f = DATA then getRecordLength f else Some 0) 0xFF)"
proof -
  have b: "uint (toByte (Some (band x 0xFF))) = band x 0xFF" for x
  proof -
    have "0 \<le> band x 0xFF \<and> band x 0xFF < 256"
      using low_byte [of "case x of None \<Rightarrow> 0 | Some v \<Rightarrow> v"]
      by (cases x) (simp_all add: band_def)
    then show ?thesis by (simp add: uint_toByte)
  qed
  have hb: "uint (toByte (Some (drop_bit 8 (band (Some w) 0xFF00)))) = drop_bit 8 (w AND 0xFF00)" for w
    using high_byte [of w] by (simp add: band_def uint_toByte)
  have fl: "statusFlagsOf f AND 0xFF = statusFlagsOf f"
    using statusFlags_bits(1,2) [of f] by (intro and_255_id)
  from h have r: "rd img (Some (addr + 10 + 2)) = Some (uint (toByte (descriptorBytes f ! 2)))"
    "rd img (Some (addr + 10 + 3)) = Some (uint (toByte (descriptorBytes f ! 3)))"
    "rd img (Some (addr + 10 + 4)) = Some (uint (toByte (descriptorBytes f ! 4)))"
    "rd img (Some (addr + 10 + 5)) = Some (uint (toByte (descriptorBytes f ! 5)))"
    "rd img (Some (addr + 10 + 6)) = Some (uint (toByte (descriptorBytes f ! 6)))"
    "rd img (Some (addr + 10 + 7)) = Some (uint (toByte (descriptorBytes f ! 7)))"
    using holds_nth [OF h, of 2] holds_nth [OF h, of 3] holds_nth [OF h, of 4]
      holds_nth [OF h, of 5] holds_nth [OF h, of 6] holds_nth [OF h, of 7]
    by simp_all
  show "rd img (Some (addr + 0x0C)) = Some (statusFlagsOf f)"
    using r(1) fl by (simp add: descriptorBytes_def b add.assoc) (simp add: band_def)
  show "rd img (Some (addr + 0x0D))
         = Some (band (if getFileType f = DATA
                        then floor256 (nadd (getRecordLength f)
                                        (Some (if getRecordType f = VARIABLE then 1 else 0)))
                        else Some 0) 0xFF)"
    using r(2) by (simp add: descriptorBytes_def b add.assoc)
  have "rd img (Some (addr + 0x0E)) = Some (drop_bit 8 (getSectorCount f AND 0xFF00))"
    using r(3) by (simp add: descriptorBytes_def hb add.assoc)
  moreover have "rd img (Some (addr + 0x0F)) = Some (getSectorCount f AND 0xFF)"
    using r(4) by (simp add: descriptorBytes_def b add.assoc) (simp add: band_def)
  ultimately show "nadd (Some (shl (rd img (Some (addr + 0x0E))) 8)) (rd img (Some (addr + 0x0F)))
         = Some (getSectorCount f)"
    using word16 [OF sc] by (simp add: nadd_def shl_def)
  show "rd img (Some (addr + 0x10)) = Some (band (Some (getEOFOffset f)) 0xFF)"
    using r(5) by (simp add: descriptorBytes_def b add.assoc)
  show "rd img (Some (addr + 0x11))
         = Some (band (if getFileType f = DATA then getRecordLength f else Some 0) 0xFF)"
    using r(6) by (simp add: descriptorBytes_def b add.assoc)
qed


lemma decodeFile_fields:
  assumes "trim (readChars img (Some addr) 10) = nm"
      and "rd img (Some (addr + 0x0C)) = Some flags"
      and "rd img (Some (addr + 0x0D)) = rps"
      and "nadd (Some (shl (rd img (Some (addr + 0x0E))) 8)) (rd img (Some (addr + 0x0F))) = Some sl"
      and "rd img (Some (addr + 0x10)) = eof"
      and "rd img (Some (addr + 0x11)) = rl"
  shows "decodeFile img sp (Some addr)
         = (case dataChainLoop img sp (Some addr) (flags AND 1) (drop_bit 7 (flags AND 0x80))
                   rps rl eof 0
                   (if flags AND 1 = 0
                    then newDiskFile nm DATA (RecordType_of (drop_bit 7 (flags AND 0x80))) rl
                           (DataType_of (drop_bit 1 (flags AND 2)))
                    else newDiskFile nm PROGRAM FIXED (Some 0) DISPLAY,
                    [], sl, - 1) of
              (df, prog, sl', nl) \<Rightarrow>
                if flags AND 1 = 1 then setProgram df (newUint8Array prog) else df)"
  using assms
  by (simp add: decodeFile_def Let_def nadd_def band_def FileType_of_def RecordType_of_def
      DataType_of_def)

lemma fst_variableSectors: "fst (variableSectors rs left) = 1 + moreSectors left rs"
  by (induction rs arbitrary: left) (simp_all add: Let_def case_prod_beta)

lemma wfFile_packable:
  assumes "wfFile f"
  shows "packable f"
  using assms
  by (auto simp add: wfFile_def packable_def list_all_iff
      split: FileType.splits RecordType.splits option.splits)

lemma div_256_up:
  "((n::int) + 255) div 256 = n div 256 + (if n mod 256 = 0 then 0 else 1)"
proof -
  define q where "q = n div 256"
  define r where "r = n mod 256"
  have n: "n = 256 * q + r" by (simp add: q_def r_def)
  have r: "0 \<le> r" "r < 256" by (simp_all add: r_def)
  have "(n + 255) div 256 = (256 * q + (r + 255)) div 256" by (simp add: n)
  also have "\<dots> = q + (r + 255) div 256" by simp
  also have "(r + 255) div 256 = (if r = 0 then 0 else 1)"
  proof (cases "r = 0")
    case True
    then show ?thesis by simp
  next
    case False
    have "(r + 255) div 256 = (r - 1 + 256) div 256" by simp
    also have "\<dots> = (r - 1) div 256 + 1" by simp
    also have "(r - 1) div 256 = 0" using r False by (simp add: div_pos_pos_trivial)
    finally show ?thesis using False by simp
  qed
  finally show ?thesis by (simp add: q_def r_def)
qed

lemma sectorCount_program:
  assumes "getFileType f = PROGRAM"
  shows "getSectorCount f = lastSector f start - start + 1"
  using assms by (simp add: getSectorCount_def lastSector_program [OF assms] div_256_up)

lemma sectorCount_variable:
  assumes "getFileType f = DATA" and "getRecordType f = VARIABLE"
      and "\<forall>r\<in>set (getRecords f). length (getData r) \<le> 255"
  shows "getSectorCount f = lastSector f start - start + 1"
  using assms(1,2)
  by (simp add: getSectorCount_def lastSector_variable [OF assms] fst_variableSectors)


lemma program_bytes_back:
  "newUint8Array (map (\<lambda>v. Some (uint (toByte v)))
     (map (\<lambda>b. Some (band b 0xFF)) (map (\<lambda>b. Some (uint b)) prog))) = prog"
proof -
  have "toByte (Some (uint (toByte (Some (band (Some (uint b)) 0xFF))))) = b" for b :: byte
  proof -
    have "uint b AND 0xFF = uint b"
      by (intro and_255_id) (use uint_lt2p [of b] in simp_all)
    then show ?thesis by (simp add: band_def toByte_def)
  qed
  then show ?thesis by (simp add: newUint8Array_def comp_def)
qed

lemma dataChainLoop_none:
  "dataChainLoop img sp addr ft rt rps rl eof i (f, p, 0, nl) = (f, p, 0, nl)"
  by (subst dataChainLoop.simps) simp

lemma decodeFile_program:
  assumes d: "describes img fdr f start" and ft: "getFileType f = PROGRAM"
      and n: "wfName (getName f)" and s: "0 < start" and l: "lastSector f start < 4096"
  shows "getName (decodeFile img 1 (Some (fdr * 256))) = getName f"
    and "getFileType (decodeFile img 1 (Some (fdr * 256))) = PROGRAM"
    and "getProgram (decodeFile img 1 (Some (fdr * 256))) = getProgram f"
proof -
  let ?addr = "fdr * 256"
  let ?len = "int (length (getProgram f))"
  let ?last = "lastSector f start"
  let ?vs = "map (\<lambda>b. Some (band b 0xFF)) (map (\<lambda>b. Some (uint b)) (getProgram f))"
  let ?f0 = "newDiskFile (getName f) PROGRAM FIXED (Some 0) DISPLAY"
  have pk: "packable f" using ft by (simp add: packable_def)
  have ge: "start - 1 \<le> ?last" by (rule lastSector_ge [OF pk])
  have sc: "getSectorCount f = ?last - start + 1" by (rule sectorCount_program [OF ft])
  have sc0: "0 \<le> getSectorCount f" "getSectorCount f < 65536" using sc ge l s by simp_all
  have hn: "holds img ?addr (nameBytes (getName f))"
    and hd: "holds img (?addr + 10) (descriptorBytes f)"
    and hp: "holds img (?addr + 0x1C) (pointerBytes start (?last - start))"
    and hs: "holds img (start * 256) ?vs"
    using d ft by (simp_all add: describes_def dataStored_def)
  have nm: "trim (readChars img (Some ?addr) 10) = getName f" by (rule fileName_decoded [OF hn n])
  note fields = descriptor_fields [OF hd sc0]
  have f1: "statusFlagsOf f AND 1 = 1" using statusFlags_bits(3) [of f] ft by simp
  have eo: "band (Some (getEOFOffset f)) 0xFF = ?len mod 256"
    using ft by (simp add: getEOFOffset_def band_def and_255_mod)
  have e5: "rd img (Some (?addr + 0x10)) = Some (?len mod 256)" using fields(4) eo by simp
  have dec: "decodeFile img 1 (Some ?addr)
         = (case dataChainLoop img 1 (Some ?addr) 1 (drop_bit 7 (statusFlagsOf f AND 0x80))
                   (rd img (Some (?addr + 0x0D))) (rd img (Some (?addr + 0x11)))
                   (Some (?len mod 256)) 0 (?f0, [], getSectorCount f, - 1) of
              (df, prog, sl', nl) \<Rightarrow> setProgram df (newUint8Array prog))"
    using decodeFile_fields [OF nm fields(1) refl fields(3) e5 refl, of 1] f1 by simp
  have run: "dataChainLoop img 1 (Some ?addr) 1 rt rps rl (Some (?len mod 256)) 0
               (?f0, [], getSectorCount f, - 1)
             = (?f0, map (\<lambda>v. Some (uint (toByte v))) ?vs, 0, nl')
             \<or> (getProgram f = [] \<and> dataChainLoop img 1 (Some ?addr) 1 rt rps rl (Some (?len mod 256)) 0
               (?f0, [], getSectorCount f, - 1) = (?f0, [], 0, - 1))" (is "?A \<or> ?B")
    if "nl' = ?last - start" for rt rps rl nl'
  proof (cases "getProgram f = []")
    case True
    then have "getSectorCount f = 0" using ft by (simp add: getSectorCount_def)
    then show ?thesis using True by (simp add: dataChainLoop_none)
  next
    case False
    then have pos: "0 < ?len" by simp
    have lp: "?last = start + ?len div 256 - (if ?len mod 256 = 0 then 1 else 0)"
      by (rule lastSector_program [OF ft])
    have dm: "?len = 256 * (?len div 256) + ?len mod 256" by simp
    have m: "0 \<le> ?len mod 256" "?len mod 256 < 256" by simp_all
    have q: "0 \<le> ?len div 256" by simp
    have q1: "?len mod 256 = 0 \<Longrightarrow> 1 \<le> ?len div 256" using pos dm by linarith
    define c where "c = ?last - start"
    have c0: "0 \<le> c" using lp q q1 by (auto simp add: c_def)
    have c1: "c < 4096" using l s by (simp add: c_def)
    have sl: "getSectorCount f = int (nat c) + 1" using sc c0 by (simp add: c_def)
    have lv: "length ?vs = nat c * 256 + (if ?len mod 256 = 0 then 256 else nat (?len mod 256))"
    proof -
      have "?len = c * 256 + (if ?len mod 256 = 0 then 256 else ?len mod 256)"
        using dm lp by (auto simp add: c_def)
      then have "int (length ?vs) = int (nat c * 256 + (if ?len mod 256 = 0 then 256 else nat (?len mod 256)))"
        using c0 m by (auto simp add: nat_mult_distrib)
      then show ?thesis by (simp only: of_nat_eq_iff)
    qed
    have sloop: "sectorLoop img 1 rt rps rl (Some (?len mod 256)) start (start + int (nat c))
                   (?f0, [], int (nat c) + 1)
                 = (?f0, [] @ map (\<lambda>v. Some (uint (toByte v))) ?vs, 0)"
      by (rule sectorLoop_program [OF _ m hs lv]) simp
    have st: "start < 4096" using l lp q q1 by (auto split: if_splits)
    have "dataChainLoop img 1 (Some ?addr) 1 rt rps rl (Some (?len mod 256)) 0
               (?f0, [], getSectorCount f, - 1)
          = (?f0, map (\<lambda>v. Some (uint (toByte v))) ?vs, 0, c)"
      unfolding sl
      by (rule dataChainLoop_first [OF hp [folded c_def] s st c0 c1])
         (use sloop c0 in simp_all)
    then show ?thesis using that by (simp add: c_def)
  qed
  have res: "decodeFile img 1 (Some ?addr)
             = setProgram ?f0 (newUint8Array (map (\<lambda>v. Some (uint (toByte v))) ?vs))"
    using run [OF refl, of "drop_bit 7 (statusFlagsOf f AND 0x80)"
        "rd img (Some (?addr + 0x0D))" "rd img (Some (?addr + 0x11))"]
  proof
    assume a: "dataChainLoop img 1 (Some ?addr) 1 (drop_bit 7 (statusFlagsOf f AND 0x80))
                 (rd img (Some (?addr + 0x0D))) (rd img (Some (?addr + 0x11)))
                 (Some (?len mod 256)) 0 (?f0, [], getSectorCount f, - 1)
               = (?f0, map (\<lambda>v. Some (uint (toByte v))) ?vs, 0, ?last - start)"
    show ?thesis by (simp only: dec a prod.case)
  next
    assume b: "getProgram f = [] \<and>
               dataChainLoop img 1 (Some ?addr) 1 (drop_bit 7 (statusFlagsOf f AND 0x80))
                 (rd img (Some (?addr + 0x0D))) (rd img (Some (?addr + 0x11)))
                 (Some (?len mod 256)) 0 (?f0, [], getSectorCount f, - 1)
               = (?f0, [], 0, - 1)"
    then have e: "getProgram f = []" by simp
    show ?thesis by (simp only: dec conjunct2 [OF b] prod.case) (simp add: e)
  qed
  show "getName (decodeFile img 1 (Some ?addr)) = getName f"
    by (simp add: res setProgram_def newDiskFile_def)
  show "getFileType (decodeFile img 1 (Some ?addr)) = PROGRAM"
    by (simp add: res setProgram_def newDiskFile_def)
  show "getProgram (decodeFile img 1 (Some ?addr)) = getProgram f"
    by (simp only: res program_bytes_back) (simp add: setProgram_def)
qed


lemma varBytes_first:
  assumes "\<forall>r\<in>set rs. length (getData r) \<le> 255"
  shows "\<exists>v vs. varBytes 256 rs = v # vs"
  using assms by (cases rs) (simp_all add: closing_def)

lemma sectorLoop_variable_file:
  assumes h: "holds img (start * 256) (varBytes 256 rs)"
      and w: "\<forall>r\<in>set rs. 1 \<le> length (getData r) \<and> length (getData r) \<le> 254 \<and> wfBytes (getData r)"
      and rt: "rt \<noteq> RecordType_num FIXED"
  shows "sectorLoop img (FileType_num DATA) rt rps rl eof start (start + moreSectors 256 rs)
           (f, p, 1 + moreSectors 256 rs)
         = (foldl putRecord f (map (\<lambda>r. VariableRecord (getData r)) rs), p, 0)"
proof -
  have "\<forall>r\<in>set rs. length (getData r) \<le> 255" using w by auto
  then obtain v vs where "varBytes 256 rs = v # vs" using varBytes_first by blast
  then have r: "start * 256 < int (length img)" using holds_in_range [of img "start * 256" v vs] h by simp
  have le: "start \<le> start + moreSectors 256 rs" using moreSectors_nonneg [of 256 rs] by simp
  have "sectorLoop img (FileType_num DATA) rt rps rl eof start (start + moreSectors 256 rs)
           (f, p, 1 + moreSectors 256 rs)
        = sectorLoop img (FileType_num DATA) rt rps rl eof (start + 1) (start + moreSectors 256 rs)
           (foldl putRecord f (cont img (start * 256) 256 []), p, 1 + moreSectors 256 rs - 1)"
    by (simp only: sectorLoop_variable_step [OF le rt r] readVariableSector_cont)
  also have "\<dots> = (foldl putRecord f ([] @ map (\<lambda>r. VariableRecord (getData r)) rs), p,
                   1 + moreSectors 256 rs - 1 - moreSectors 256 rs)"
    by (rule sectorLoop_variable [OF h _ _ _ w rt]) simp_all
  finally show ?thesis by simp
qed

lemma decodeFile_variable:
  assumes d: "describes img fdr f start" and ft: "getFileType f = DATA"
      and rt: "getRecordType f = VARIABLE" and rl: "getRecordLength f = Some l" "0 \<le> l" "l \<le> 255"
      and w: "\<forall>r\<in>set (getRecords f).
                1 \<le> length (getData r) \<and> length (getData r) \<le> 254 \<and> wfBytes (getData r)"
      and n: "wfName (getName f)" and s: "0 < start" and l: "lastSector f start < 4096"
  shows "sameContent f (decodeFile img 1 (Some (fdr * 256)))"
proof -
  let ?addr = "fdr * 256"
  let ?last = "lastSector f start"
  let ?rs = "getRecords f"
  let ?f0 = "newDiskFile (getName f) DATA VARIABLE (Some l) (getDataType f)"
  have w255: "\<forall>r\<in>set ?rs. length (getData r) \<le> 255" using w by auto
  have lv: "?last = start + moreSectors 256 ?rs" by (rule lastSector_variable [OF ft rt w255])
  have ms: "0 \<le> moreSectors 256 ?rs" by (rule moreSectors_nonneg)
  have sc: "getSectorCount f = 1 + moreSectors 256 ?rs"
    using sectorCount_variable [OF ft rt w255, of start] lv by simp
  have sc0: "0 \<le> getSectorCount f" "getSectorCount f < 65536" using sc ms l lv s by simp_all
  have hn: "holds img ?addr (nameBytes (getName f))"
    and hd: "holds img (?addr + 10) (descriptorBytes f)"
    and hp: "holds img (?addr + 0x1C) (pointerBytes start (moreSectors 256 ?rs))"
    and hs: "holds img (start * 256) (varBytes 256 ?rs)"
    using d ft rt lv by (simp_all add: describes_def dataStored_def)
  have nm: "trim (readChars img (Some ?addr) 10) = getName f" by (rule fileName_decoded [OF hn n])
  note fields = descriptor_fields [OF hd sc0]
  have f1: "statusFlagsOf f AND 1 = 0" using statusFlags_bits(3) [of f] ft by simp
  have f2: "drop_bit 7 (statusFlagsOf f AND 0x80) = 1" using statusFlags_bits(4) [of f] rt by simp
  have f3: "drop_bit 1 (statusFlagsOf f AND 0x02) = DataType_num (getDataType f)"
    by (rule statusFlags_bits(5))
  have e6: "rd img (Some (?addr + 0x11)) = Some l"
    using fields(5) ft rl by (simp add: band_def and_255_id)
  have dec: "decodeFile img 1 (Some ?addr)
         = (case dataChainLoop img 1 (Some ?addr) 0 1
                   (rd img (Some (?addr + 0x0D))) (Some l) (rd img (Some (?addr + 0x10))) 0
                   (?f0, [], 1 + moreSectors 256 ?rs, - 1) of
              (df, prog, sl', nl) \<Rightarrow> df)"
    using decodeFile_fields [OF nm fields(1) refl fields(3) refl e6, of 1] f1 f2 f3 sc
    by (simp add: RecordType_of_def)
  have sloop: "sectorLoop img 0 1 (rd img (Some (?addr + 0x0D))) (Some l)
                 (rd img (Some (?addr + 0x10))) start (start + moreSectors 256 ?rs)
                 (?f0, [], 1 + moreSectors 256 ?rs)
               = (foldl putRecord ?f0 (map (\<lambda>r. VariableRecord (getData r)) ?rs), [], 0)"
    using sectorLoop_variable_file [OF hs w, of 1] by simp
  have st: "start < 4096" "moreSectors 256 ?rs < 4096" using l lv ms s by simp_all
  have run: "dataChainLoop img 1 (Some ?addr) 0 1
                   (rd img (Some (?addr + 0x0D))) (Some l) (rd img (Some (?addr + 0x10))) 0
                   (?f0, [], 1 + moreSectors 256 ?rs, - 1)
             = (foldl putRecord ?f0 (map (\<lambda>r. VariableRecord (getData r)) ?rs), [], 0,
                moreSectors 256 ?rs)"
    by (rule dataChainLoop_first [OF hp s st(1) ms st(2) _ sloop]) (use ms in simp)
  have res: "decodeFile img 1 (Some ?addr)
             = foldl putRecord ?f0 (map (\<lambda>r. VariableRecord (getData r)) ?rs)"
    by (simp only: dec run prod.case)
  show ?thesis
    using ft rt rl(1)
    by (simp add: res sameContent_def putRecords_eq newDiskFile_def comp_def)
qed


lemma decodeFile_fixed:
  assumes d: "describes img fdr f start" and ft: "getFileType f = DATA"
      and rt: "getRecordType f = FIXED" and rl: "getRecordLength f = Some l" "2 \<le> l" "l \<le> 255"
      and w: "\<forall>r\<in>set (getRecords f). int (length (getData r)) = l \<and> wfBytes (getData r)"
      and full: "int (length (getRecords f)) mod (256 div l) = 0"
      and n: "wfName (getName f)" and s: "0 < start" and l: "lastSector f start < 4096"
  shows "sameContent f (decodeFile img 1 (Some (fdr * 256)))"
proof -
  let ?addr = "fdr * 256"
  let ?last = "lastSector f start"
  let ?rs = "getRecords f"
  let ?f0 = "newDiskFile (getName f) DATA FIXED (Some l) (getDataType f)"
  define k where "k = nat (256 div l)"
  have l0: "0 < l" "l \<le> 256" using rl(2,3) by simp_all
  note kf = recordsPerSector [OF l0, folded k_def]
  have kd: "int k = 256 div l" using kf(1) by (simp add: k_def)
  have k128: "int k \<le> 128"
  proof -
    have "256 div l \<le> 256 div 2" using rl(2) by (intro zdiv_mono2) simp_all
    then show ?thesis by (simp add: kd)
  qed
  have wl: "\<forall>r\<in>set ?rs. int (length (getData r)) = l" using w by simp
  have "int (length ?rs mod k) = 0" using full by (simp add: zmod_int kd)
  then have md: "length ?rs mod k = 0" by simp
  define m where "m = length ?rs div k"
  have lm: "length ?rs = m * k"
    using md div_mult_mod_eq [of "length ?rs" k] by (simp add: m_def)
  have lf: "?last = start + int m - 1"
    using lastSector_fixed [OF ft rt rl(1) l0 wl, of start] md by (simp add: k_def m_def)
  have sc: "getSectorCount f = int m"
  proof -
    have "(int (m * k) + int k - 1) div int k = int m"
    proof -
      have "int (m * k) + int k - 1 = int k * int m + (int k - 1)" by simp
      also have "\<dots> div int k = int m + (int k - 1) div int k"
        using kf(1) by (simp only: div_mult_self4)
      also have "(int k - 1) div int k = 0" using kf(1) by (simp add: div_pos_pos_trivial)
      finally show ?thesis by simp
    qed
    then show ?thesis
      using ft rt rl(1) l0 by (simp add: getSectorCount_def getRecordCount_def lm kd [symmetric])
  qed
  have sc0: "0 \<le> getSectorCount f" "getSectorCount f < 65536" using sc l lf s by simp_all
  have hn: "holds img ?addr (nameBytes (getName f))"
    and hd: "holds img (?addr + 10) (descriptorBytes f)"
    and hp: "holds img (?addr + 0x1C) (pointerBytes start (int m - 1))"
    and hs: "\<forall>j<length ?rs. holds img (fixedPos start l k j)
               (map (\<lambda>b. Some (band b 0xFF)) (getData (?rs ! j)))"
    using d ft rt rl(1) lf by (simp_all add: describes_def dataStored_def k_def)
  have nm: "trim (readChars img (Some ?addr) 10) = getName f" by (rule fileName_decoded [OF hn n])
  note fields = descriptor_fields [OF hd sc0]
  have f1: "statusFlagsOf f AND 1 = 0" using statusFlags_bits(3) [of f] ft by simp
  have f2: "drop_bit 7 (statusFlagsOf f AND 0x80) = 0" using statusFlags_bits(4) [of f] rt by simp
  have f3: "drop_bit 1 (statusFlagsOf f AND 0x02) = DataType_num (getDataType f)"
    by (rule statusFlags_bits(5))
  have e6: "rd img (Some (?addr + 0x11)) = Some l"
    using fields(5) ft rl by (simp add: band_def and_255_id)
  have "int k AND 0xFF = int k" using k128 by (intro and_255_id) simp_all
  then have e2: "rd img (Some (?addr + 0x0D)) = Some (int k)"
    using fields(2) ft rt rl(1) kf(3) by (simp add: nadd_def band_def)
  have dec: "decodeFile img 1 (Some ?addr)
         = (case dataChainLoop img 1 (Some ?addr) 0 0
                   (Some (int k)) (Some l) (rd img (Some (?addr + 0x10))) 0
                   (?f0, [], int m, - 1) of
              (df, prog, sl', nl) \<Rightarrow> df)"
    using decodeFile_fields [OF nm fields(1) e2 fields(3) refl e6, of 1] f1 f2 f3 sc
    by (simp add: RecordType_of_def)
  have res: "decodeFile img 1 (Some ?addr)
             = foldl putRecord ?f0 (map (\<lambda>r. FixedRecord (getData r)) ?rs)"
  proof (cases "m = 0")
    case True
    then have "?rs = []" using lm by simp
    then show ?thesis using True by (simp add: dec dataChainLoop_none)
  next
    case False
    have sloop: "sectorLoop img (FileType_num DATA) (RecordType_num FIXED) (Some (int k)) (Some l)
                   (rd img (Some (?addr + 0x10))) start (start + (int m - 1)) (?f0, [], int m)
                 = (foldl putRecord ?f0 (map (\<lambda>r. FixedRecord (getData r)) ?rs), [], int m - int m)"
      by (rule sectorLoop_fixed [OF kf(1) hs w lm]) simp
    have st: "start < 4096" "int m - 1 < 4096" "0 \<le> int m - 1" "0 < int m"
      using l lf s False by simp_all
    have run: "dataChainLoop img 1 (Some ?addr) 0 0
                   (Some (int k)) (Some l) (rd img (Some (?addr + 0x10))) 0
                   (?f0, [], int m, - 1)
               = (foldl putRecord ?f0 (map (\<lambda>r. FixedRecord (getData r)) ?rs), [], 0, int m - 1)"
      by (rule dataChainLoop_first [OF hp s st(1) st(3) st(2) st(4)]) (use sloop in simp)
    show ?thesis by (simp only: dec run prod.case)
  qed
  show ?thesis
    using ft rt rl(1)
    by (simp add: res sameContent_def putRecords_eq newDiskFile_def comp_def)
qed


subsection \<open>The image of a catalog, decoded\<close>

lemma decodeFile_describes:
  assumes w: "wfFile f" and d: "describes img fdr f start"
      and s: "0 < start" and l: "lastSector f start < 4096"
  shows "sameContent f (decodeFile img 1 (Some (fdr * 256)))"
proof (cases "getFileType f")
  case PROGRAM
  have n: "wfName (getName f)" using w by (simp add: wfFile_def)
  show ?thesis
    using decodeFile_program [OF d PROGRAM n s l] PROGRAM by (simp add: sameContent_def)
next
  case DATA
  have n: "wfName (getName f)" using w by (simp add: wfFile_def)
  obtain rl where rl: "getRecordLength f = Some rl"
    using w DATA by (auto simp add: wfFile_def split: option.splits)
  show ?thesis
  proof (cases "getRecordType f")
    case FIXED
    show ?thesis
      by (rule decodeFile_fixed [OF d DATA FIXED rl _ _ _ _ n s l])
         (use w DATA FIXED rl in \<open>simp_all add: wfFile_def\<close>)
  next
    case VARIABLE
    show ?thesis
      by (rule decodeFile_variable [OF d DATA VARIABLE rl _ _ _ n s l])
         (use w DATA VARIABLE rl in \<open>simp_all add: wfFile_def\<close>)
  qed
qed

lemma writeVolumeInformation_frame:
  "sameOutside d (writeVolumeInformation d nm g S) (\<lambda>p. p < 256)"
proof -
  have n: "writeString u8store d 0 nm 10 = storeAll u8store d 0 (nameBytes nm)"
    by (simp add: writeString_def nameBytes_def)
  have r: "rd (writeVolumeInformation d nm g S) (Some p) = rd d (Some p)" if "256 \<le> p" for p
    unfolding writeVolumeInformation_def n
    using that
    by (simp add: writeString_def writeByte_storeAll writeWord_storeAll case_prod_beta
        rd_storeAll_u8 del: storeAll.simps)
       (simp add: rd_def)
  show ?thesis using r by (simp add: sameOutside_def)
qed


lemma encodeImage_describes:
  assumes p: "\<forall>f\<in>set fs. packable f" and n: "length fs \<le> 127"
      and S: "S = getSectorsPerAllocationUnit g"
      and dcp: "getSectorsPerAllocationUnitForDataChainPointers g = 1"
      and st: "start = ceilN (max 2 S + int (length fs) * S) S"
      and fit: "layout S start fs * 256 \<le> int (length d)"
      and au: "layout S start fs \<le> 1599 * S + 1"
      and z: "\<forall>p. 256 \<le> p \<and> p < int (length d) \<longrightarrow> rd d (Some p) = Some 0"
  shows "\<forall>i<length fs.
           describes (encodeImage d nm g fs) (max 2 S + int i * S) (fs ! i)
             (layout S start (take i fs))
           \<and> holds (encodeImage d nm g fs) (256 + 2 * int i) (wordBytes (max 2 S + int i * S))"
    and "\<forall>i. length fs \<le> i \<and> i < 128
           \<longrightarrow> rd (encodeImage d nm g fs) (Some (256 + 2 * int i)) = Some 0
               \<and> rd (encodeImage d nm g fs) (Some (256 + 2 * int i + 1)) = Some 0"
proof -
  let ?first = "max 2 S"
  let ?d0 = "writeVolumeInformation d nm g S"
  let ?img = "fst (foldl (encodeFile S 1 ?first) (?d0, start) (zip (map int [0..<0 + length fs]) fs))"
  have S0: "0 < S" by (simp add: S getSectorsPerAllocationUnit_def)
  have e: "encodeImage d nm g fs = ?img"
    using n by (simp add: encodeImage_def Let_def S [symmetric] dcp st min_def)
  have nS: "0 \<le> int (length fs) * S" using S0 by simp
  have b: "?first + int (length fs) * S \<le> start"
    unfolding st by (rule ceilN_ge [OF S0]) (use nS in simp)
  have s2: "2 \<le> start" using b nS by simp
  have l0: "length ?d0 = length d" by simp
  have ef: "sameOutside ?d0 ?img
              (filesRegion 0 (length fs) (?first + int 0 * S) (?first + int (0 + length fs) * S)
                 start (layout S start fs))
       \<and> (\<forall>i<length fs.
            describes ?img (?first + int (0 + i) * S) (fs ! i) (layout S start (take i fs))
            \<and> holds ?img (256 + 2 * int (0 + i)) (wordBytes (?first + int (0 + i) * S)))"
    by (rule encodeFiles [OF p S0]) (use n b fit au l0 in simp_all)
  show "\<forall>i<length fs.
           describes (encodeImage d nm g fs) (max 2 S + int i * S) (fs ! i)
             (layout S start (take i fs))
           \<and> holds (encodeImage d nm g fs) (256 + 2 * int i) (wordBytes (max 2 S + int i * S))"
    unfolding e using ef by simp
  have le: "start \<le> layout S start fs" by (rule layout_ge [OF p S0]) (use s2 in simp)
  have len: "512 \<le> int (length d)" using fit le s2 by simp
  have zero: "rd ?img (Some q) = Some 0" if q: "256 + 2 * int (length fs) \<le> q" "q < 512" for q
  proof -
    have "\<not> filesRegion 0 (length fs) (?first + int 0 * S) (?first + int (0 + length fs) * S)
              start (layout S start fs) q"
      using q s2 by (auto simp add: filesRegion_def)
    then have "rd ?img (Some q) = rd ?d0 (Some q)"
      using ef by (simp add: sameOutside_def)
    also have "\<dots> = rd d (Some q)"
      using writeVolumeInformation_frame [of d nm g S] q by (simp add: sameOutside_def)
    also have "\<dots> = Some 0" using z q len by simp
    finally show ?thesis .
  qed
  show "\<forall>i. length fs \<le> i \<and> i < 128
           \<longrightarrow> rd (encodeImage d nm g fs) (Some (256 + 2 * int i)) = Some 0
               \<and> rd (encodeImage d nm g fs) (Some (256 + 2 * int i + 1)) = Some 0"
    unfolding e by (intro allI impI conjI; rule zero) simp_all
qed


lemma files_putFile: "files (putFile s f) = AList.update (getName f) f (files s)"
  by (simp add: putFile_def invalidateBinaryImage_def fireEvent_def Let_def)

lemma files_loadDescriptors:
  "files (foldl (loadDescriptor img sp) s is)
   = foldl (\<lambda>al f. AList.update (getName f) f al) (files s)
       (concat (map (\<lambda>i. if fileDescriptorSectorNo img i \<noteq> Some 0
                            then [decodeFile img sp (nmul (fileDescriptorSectorNo img i) (Some 256))]
                            else []) is))"
  by (induction "is" arbitrary: s) (simp_all add: loadDescriptor_def files_putFile)

lemma fileDescriptorSectorNo_holds:
  assumes "holds img (256 + 2 * int i) (wordBytes w)" and "0 \<le> w" and "w < 65536"
  shows "fileDescriptorSectorNo img i = Some w"
proof -
  have hb: "uint (toByte (Some (drop_bit 8 (band (Some w) 0xFF00)))) = drop_bit 8 (w AND 0xFF00)"
    using high_byte [of w] by (simp add: band_def uint_toByte)
  have lb: "uint (toByte (Some (band (Some w) 0xFF))) = w AND 0xFF"
    by (rule uint_toByte_band)
  have "rd img (Some (256 + 2 * int i)) = Some (drop_bit 8 (w AND 0xFF00))"
    and "rd img (Some (256 + 2 * int i + 1)) = Some (w AND 0xFF)"
    using assms(1) by (simp_all add: wordBytes_def holds_Cons hb lb)
  then show ?thesis
    using word16 [OF assms(2,3)]
    by (simp add: fileDescriptorSectorNo_def nadd_def shl_def mult.commute)
qed

lemma fileDescriptorSectorNo_zero:
  assumes "rd img (Some (256 + 2 * int i)) = Some 0"
      and "rd img (Some (256 + 2 * int i + 1)) = Some 0"
  shows "fileDescriptorSectorNo img i = Some 0"
  using assms by (simp add: fileDescriptorSectorNo_def nadd_def shl_def mult.commute)

lemma map_of_updates_other:
  assumes "nm \<notin> getName ` set ds"
  shows "map_of (foldl (\<lambda>al f. AList.update (getName f) f al) al ds) nm = map_of al nm"
  using assms by (induction ds arbitrary: al) (simp_all add: update_conv')

lemma map_of_updates_member:
  assumes "distinct (map getName ds)" and "d \<in> set ds"
  shows "map_of (foldl (\<lambda>al f. AList.update (getName f) f al) al ds) (getName d) = Some d"
  using assms
proof (induction ds arbitrary: al)
  case Nil
  then show ?case by simp
next
  case (Cons x xs)
  show ?case
  proof (cases "d = x")
    case True
    have "getName x \<notin> getName ` set xs" using Cons.prems(1) by simp
    then show ?thesis using True by (simp add: map_of_updates_other update_conv')
  next
    case False
    then show ?thesis using Cons by simp
  qed
qed


lemma layout_append: "layout S start (xs @ ys) = layout S (layout S start xs) ys"
  by (induction xs arbitrary: start) simp_all

lemma layout_nth:
  assumes p: "\<forall>f\<in>set fs. packable f" and S: "0 < S" and s: "0 \<le> start" and i: "i < length fs"
  shows "start \<le> layout S start (take i fs)"
    and "lastSector (fs ! i) (layout S start (take i fs)) + 1 \<le> layout S start fs"
proof -
  let ?si = "layout S start (take i fs)"
  have pt: "\<forall>f\<in>set (take i fs). packable f" using p by (meson in_set_takeD)
  have pd: "\<forall>f\<in>set (drop (Suc i) fs). packable f" using p by (meson in_set_dropD)
  have pi: "packable (fs ! i)" using p i by simp
  show a: "start \<le> ?si" by (rule layout_ge [OF pt S s])
  then have si0: "0 \<le> ?si" using s by simp
  have "fs = take i fs @ fs ! i # drop (Suc i) fs" using i by (simp add: id_take_nth_drop)
  then have "layout S start fs = layout S ?si (fs ! i # drop (Suc i) fs)"
    using layout_append [of S start "take i fs" "fs ! i # drop (Suc i) fs"] by simp
  also have "\<dots> = layout S (ceilN (lastSector (fs ! i) ?si + 1) S) (drop (Suc i) fs)" by simp
  finally have e: "layout S start fs = layout S (ceilN (lastSector (fs ! i) ?si + 1) S) (drop (Suc i) fs)" .
  have st: "?si \<le> ceilN (lastSector (fs ! i) ?si + 1) S"
    and lt: "lastSector (fs ! i) ?si + 1 \<le> ceilN (lastSector (fs ! i) ?si + 1) S"
    using layout_step [OF pi S si0] by simp_all
  have "ceilN (lastSector (fs ! i) ?si + 1) S
        \<le> layout S (ceilN (lastSector (fs ! i) ?si + 1) S) (drop (Suc i) fs)"
    by (rule layout_ge [OF pd S]) (use st si0 in simp)
  then show "lastSector (fs ! i) ?si + 1 \<le> layout S start fs" using lt e by simp
qed

lemma length_insertBy [simp]: "length (insertBy c x ys) = Suc (length ys)"
  by (induction ys) simp_all

lemma length_sortBy [simp]: "length (sortBy c xs) = length xs"
proof -
  have "length (foldl (\<lambda>acc x. insertBy c x acc) acc xs) = length acc + length xs" for acc
    by (induction xs arbitrary: acc) simp_all
  then show ?thesis by (simp add: sortBy_def)
qed

lemma set_sortBy [simp]: "set (sortBy c xs) = set xs"
proof -
  have "set (foldl (\<lambda>acc x. insertBy c x acc) acc xs) = set acc \<union> set xs" for acc
    by (induction xs arbitrary: acc) (simp_all add: set_insertBy)
  then show ?thesis by (simp add: sortBy_def)
qed

lemma getFilesArray_wfCatalog:
  assumes "wfCatalog s"
  shows "length (getFilesArray c s) \<le> 127"
    and "\<forall>f\<in>set (getFilesArray c s). wfFile f"
    and "distinct (map getName (getFilesArray c s))"
    and "getName ` set (getFilesArray c s) = fst ` set (files s)"
    and "\<And>nm f. getFile s nm = Some f \<Longrightarrow> f \<in> set (getFilesArray c s) \<and> getName f = nm"
proof -
  let ?fs = "getFilesArray c s"
  have d: "distinct (map fst (files s))" and n: "length (files s) \<le> 127"
    and k: "\<forall>(k, f)\<in>set (files s). k = getName f \<and> wfFile f"
    using assms by (simp_all add: wfCatalog_def)
  have st: "set ?fs = snd ` set (files s)" by (simp add: getFilesArray_def)
  have ln: "length ?fs = length (files s)" by (simp add: getFilesArray_def)
  show "length ?fs \<le> 127" using n ln by simp
  show "\<forall>f\<in>set ?fs. wfFile f" using k st by auto
  have gn: "getName (snd x) = fst x" if "x \<in> set (files s)" for x using k that by auto
  show im: "getName ` set ?fs = fst ` set (files s)"
    unfolding st image_image using gn by (auto intro: image_cong)
  have "card (set (map getName ?fs)) = card (set (map fst (files s)))" using im by simp
  also have "\<dots> = length (map fst (files s))" using d by (rule distinct_card)
  finally have "card (set (map getName ?fs)) = length (map getName ?fs)" using ln by simp
  then show "distinct (map getName ?fs)" by (rule card_distinct)
  fix nm f assume "getFile s nm = Some f"
  then have m: "(nm, f) \<in> set (files s)" by (simp add: getFile_def map_of_SomeD)
  then have "f \<in> snd ` set (files s)" by force
  moreover have "getName f = nm" using gn [OF m] by simp
  ultimately show "f \<in> set ?fs \<and> getName f = nm" using st by simp
qed


lemma loadBinaryImage_files:
  assumes slots: "\<forall>i<n. fileDescriptorSectorNo img i = Some (F i) \<and> F i \<noteq> 0"
      and rest: "\<forall>i. n \<le> i \<and> i < 128 \<longrightarrow> fileDescriptorSectorNo img i = Some 0"
      and n: "n \<le> 128"
      and sp: "getSectorsPerAllocationUnitForDataChainPointers (geometry s') = sp"
  shows "files (loadBinaryImage s' img)
         = foldl (\<lambda>al f. AList.update (getName f) f al) []
             (map (\<lambda>i. decodeFile img sp (Some (F i * 256))) [0..<n])"
proof -
  let ?g = "\<lambda>i. if fileDescriptorSectorNo img i \<noteq> Some 0
                 then [decodeFile img sp (nmul (fileDescriptorSectorNo img i) (Some 256))]
                 else []"
  have u: "[0..<128] = [0..<n] @ [n..<128]"
    using n upt_add_eq_append [of 0 n "128 - n"] by simp
  have a: "map ?g [0..<n] = map (\<lambda>i. [decodeFile img sp (Some (F i * 256))]) [0..<n]"
    using slots by (intro map_cong) (simp_all add: nmul_def)
  have b: "map ?g [n..<128] = map (\<lambda>i. []) [n..<128]"
    using rest by (intro map_cong) simp_all
  have "concat (map ?g [0..<128]) = concat (map ?g [0..<n]) @ concat (map ?g [n..<128])"
    by (simp only: u map_append concat_append)
  also have "\<dots> = map (\<lambda>i. decodeFile img sp (Some (F i * 256))) [0..<n]"
    by (simp only: a b) (simp add: concat_map_singleton)
  finally have c: "concat (map ?g [0..<128])
                   = map (\<lambda>i. decodeFile img sp (Some (F i * 256))) [0..<n]" .
  have "files (loadBinaryImage s' img)
        = files (foldl (loadDescriptor img sp) (s'\<lparr>files := []\<rparr>) [0..<128])"
    by (simp add: loadBinaryImage_def Let_def sp)
  also have "\<dots> = foldl (\<lambda>al f. AList.update (getName f) f al) [] (concat (map ?g [0..<128]))"
    by (simp only: files_loadDescriptors) simp
  finally show ?thesis by (simp only: c)
qed


lemma geometry_below_4096:
  assumes "totalSectors g = Some t" and "t < 4096"
  shows "getSectorsPerAllocationUnitForDataChainPointers g = 1"
    and "0 < getSectorsPerAllocationUnit g"
    and "t \<le> 1599 * getSectorsPerAllocationUnit g + 1"
  using assms
  by (auto simp add: getSectorsPerAllocationUnitForDataChainPointers_def
      getSectorsPerAllocationUnit_def nless_def)

lemma rd_zeros:
  "0 \<le> p \<Longrightarrow> p < int n \<Longrightarrow> rd (replicate n 0) (Some p) = Some 0"
  by (simp add: rd_def)

lemma encoded_catalog:
  assumes p: "\<forall>f\<in>set fs. packable f" and n: "length fs \<le> 127"
      and t: "totalSectors g = Some t" "t < 4096"
      and S: "S = getSectorsPerAllocationUnit g"
      and st: "start = ceilN (max 2 S + int (length fs) * S) S"
      and fit: "layout S start fs \<le> t"
      and sp: "getSectorsPerAllocationUnitForDataChainPointers (geometry s') = 1"
      and img: "img = encodeImage (replicate (nat (t * 256)) 0) nm g fs"
  shows "files (loadBinaryImage s' img)
         = foldl (\<lambda>al f. AList.update (getName f) f al) []
             (map (\<lambda>i. decodeFile img 1 (Some ((max 2 S + int i * S) * 256))) [0..<length fs])"
    and "\<forall>i<length fs.
           describes img (max 2 S + int i * S) (fs ! i) (layout S start (take i fs))
           \<and> 0 < layout S start (take i fs)
           \<and> lastSector (fs ! i) (layout S start (take i fs)) < 4096"
proof -
  let ?d = "replicate (nat (t * 256)) (0 :: byte)"
  note g = geometry_below_4096 [OF t, folded S]
  have nS: "0 \<le> int (length fs) * S" using g(2) by simp
  have b: "max 2 S + int (length fs) * S \<le> start"
    unfolding st by (rule ceilN_ge [OF g(2)]) (use nS in simp)
  have s2: "2 \<le> start" using b nS by simp
  have le: "start \<le> layout S start fs" by (rule layout_ge [OF p g(2)]) (use s2 in simp)
  have t0: "0 \<le> t" using le s2 fit by simp
  have ld: "int (length ?d) = t * 256" using t0 by simp
  have fit': "layout S start fs * 256 \<le> int (length ?d)" using fit ld by simp
  have au: "layout S start fs \<le> 1599 * S + 1" using fit g(3) by simp
  have z: "\<forall>p. 256 \<le> p \<and> p < int (length ?d) \<longrightarrow> rd ?d (Some p) = Some 0"
    by (simp add: rd_def)
  note e = encodeImage_describes [OF p n S g(1) st fit' au z, of nm, folded img]
  show d: "\<forall>i<length fs.
           describes img (max 2 S + int i * S) (fs ! i) (layout S start (take i fs))
           \<and> 0 < layout S start (take i fs)
           \<and> lastSector (fs ! i) (layout S start (take i fs)) < 4096"
  proof (intro allI impI)
    fix i assume i: "i < length fs"
    have "start \<le> layout S start (take i fs)"
      and "lastSector (fs ! i) (layout S start (take i fs)) + 1 \<le> layout S start fs"
      using layout_nth [OF p g(2) _ i, of start] s2 by simp_all
    then show "describes img (max 2 S + int i * S) (fs ! i) (layout S start (take i fs))
           \<and> 0 < layout S start (take i fs)
           \<and> lastSector (fs ! i) (layout S start (take i fs)) < 4096"
      using e(1) i s2 fit t(2) by simp
  qed
  have slots: "\<forall>i<length fs. fileDescriptorSectorNo img i = Some (max 2 S + int i * S)
                 \<and> max 2 S + int i * S \<noteq> 0"
  proof (intro allI impI)
    fix i assume i: "i < length fs"
    have iS: "0 \<le> int i * S" using g(2) by simp
    have "int i * S \<le> int (length fs) * S" using i g(2) by (intro mult_right_mono) simp_all
    then have up: "max 2 S + int i * S < 65536" using b le fit t(2) by simp
    have "holds img (256 + 2 * int i) (wordBytes (max 2 S + int i * S))" using e(1) i by simp
    then have "fileDescriptorSectorNo img i = Some (max 2 S + int i * S)"
      by (rule fileDescriptorSectorNo_holds) (use iS up in simp_all)
    then show "fileDescriptorSectorNo img i = Some (max 2 S + int i * S)
                 \<and> max 2 S + int i * S \<noteq> 0"
      using iS by simp
  qed
  have rest: "\<forall>i. length fs \<le> i \<and> i < 128 \<longrightarrow> fileDescriptorSectorNo img i = Some 0"
    using e(2) by (auto intro: fileDescriptorSectorNo_zero)
  show "files (loadBinaryImage s' img)
         = foldl (\<lambda>al f. AList.update (getName f) f al) []
             (map (\<lambda>i. decodeFile img 1 (Some ((max 2 S + int i * S) * 256))) [0..<length fs])"
    by (rule loadBinaryImage_files [OF slots rest _ sp]) (use n in simp)
qed


lemma createBinaryImage_encodeImage:
  assumes "totalSectors (geometry s) = Some t" and "0 \<le> t"
  shows "createBinaryImage c s
         = Inr (encodeImage (replicate (nat (t * 256)) 0) (name s) (geometry s) (getFilesArray c s))"
  using assms by (simp add: createBinaryImage_def allocUint8Array_def nmul_def)

subsection \<open>Fixed records that do not fill their last sector\<close>

lemma length_readFixedSector: "length (readFixedSector img sec (Some (int k)) rl) = k"
  by (simp add: readFixedSector_def turns_def)

lemma sectorLoop_fixed_count:
  assumes "e = sec + int m - 1"
  shows "\<exists>f'. sectorLoop img (FileType_num DATA) (RecordType_num FIXED) (Some (int k)) rl eof
                 sec e (f, p, sl) = (f', p, sl - int m)
              \<and> length (getRecords f') = length (getRecords f) + m * k
              \<and> getName f' = getName f"
  using assms
proof (induction m arbitrary: sec f sl)
  case 0
  then show ?case by (simp add: sectorLoop_done)
next
  case (Suc m)
  let ?f1 = "foldl putRecord f (readFixedSector img sec (Some (int k)) rl)"
  have le: "sec \<le> e" using Suc.prems by simp
  have e1: "e = sec + 1 + int m - 1" using Suc.prems by simp
  obtain f' where
    r: "sectorLoop img (FileType_num DATA) (RecordType_num FIXED) (Some (int k)) rl eof
          (sec + 1) e (?f1, p, sl - 1) = (f', p, sl - 1 - int m)"
    and n: "length (getRecords f') = length (getRecords ?f1) + m * k"
    and g: "getName f' = getName ?f1"
    using Suc.IH [OF e1, of ?f1 "sl - 1"] by blast
  have "sectorLoop img (FileType_num DATA) (RecordType_num FIXED) (Some (int k)) rl eof
          sec e (f, p, sl)
        = sectorLoop img (FileType_num DATA) (RecordType_num FIXED) (Some (int k)) rl eof
          (sec + 1) e (?f1, p, sl - 1)"
    by (rule sectorLoop_fixed_step [OF le])
  also have "\<dots> = (f', p, sl - 1 - int m)" by (rule r)
  finally have x: "sectorLoop img (FileType_num DATA) (RecordType_num FIXED) (Some (int k)) rl eof
          sec e (f, p, sl) = (f', p, sl - int (Suc m))"
    by simp
  show ?case
    apply (rule exI [of _ f'])
    using x n g by (simp add: length_readFixedSector)
qed

lemma div_up:
  assumes "0 < (k::nat)"
  shows "(int c + int k - 1) div int k = int (c div k) + (if c mod k = 0 then 0 else 1)"
proof -
  have c: "int c = int k * int (c div k) + int (c mod k)"
    by (metis of_nat_add of_nat_mult mult_div_mod_eq)
  have r: "int (c mod k) < int k" using assms by simp
  have "int c + int k - 1 = int k * int (c div k) + (int (c mod k) + int k - 1)"
    using c by linarith
  then have "(int c + int k - 1) div int k
        = (int k * int (c div k) + (int (c mod k) + int k - 1)) div int k"
    by (simp only:)
  also have "\<dots> = int (c div k) + (int (c mod k) + int k - 1) div int k"
    using assms by (simp only: div_mult_self4)
  also have "(int (c mod k) + int k - 1) div int k = (if c mod k = 0 then 0 else 1)"
  proof (cases "c mod k = 0")
    case True
    then show ?thesis using assms by (simp add: div_pos_pos_trivial)
  next
    case False
    have "(int (c mod k) + int k - 1) div int k = (int (c mod k) - 1 + int k * 1) div int k"
      by (simp add: algebra_simps)
    also have "\<dots> = (int (c mod k) - 1) div int k + 1"
      using assms by (simp only: div_mult_self2)
    also have "(int (c mod k) - 1) div int k = 0"
      using False r by (simp add: div_pos_pos_trivial)
    finally show ?thesis using False by simp
  qed
  finally show ?thesis .
qed


lemma decodeFile_fixed_count:
  assumes d: "describes img fdr f start" and ft: "getFileType f = DATA"
      and rt: "getRecordType f = FIXED" and rl: "getRecordLength f = Some l" "2 \<le> l" "l \<le> 255"
      and w: "\<forall>r\<in>set (getRecords f). int (length (getData r)) = l"
      and n: "wfName (getName f)" and s: "0 < start" and l: "lastSector f start < 4096"
  shows "getName (decodeFile img 1 (Some (fdr * 256))) = getName f
       \<and> length (getRecords (decodeFile img 1 (Some (fdr * 256))))
           = nat (getSectorCount f) * nat (256 div l)"
proof -
  let ?addr = "fdr * 256"
  let ?last = "lastSector f start"
  let ?rs = "getRecords f"
  let ?f0 = "newDiskFile (getName f) DATA FIXED (Some l) (getDataType f)"
  define k where "k = nat (256 div l)"
  have l0: "0 < l" "l \<le> 256" using rl(2,3) by simp_all
  note kf = recordsPerSector [OF l0, folded k_def]
  have kd: "int k = 256 div l" using kf(1) by (simp add: k_def)
  have k128: "int k \<le> 128"
  proof -
    have "256 div l \<le> 256 div 2" using rl(2) by (intro zdiv_mono2) simp_all
    then show ?thesis by (simp add: kd)
  qed
  define m where "m = length ?rs div k + (if length ?rs mod k = 0 then 0 else 1)"
  have lf: "?last = start + int m - 1"
    using lastSector_fixed [OF ft rt rl(1) l0 w, of start] by (simp add: k_def m_def)
  have sc: "getSectorCount f = int m"
    using ft rt rl(1) l0 div_up [OF kf(1), of "length ?rs"]
    by (simp add: getSectorCount_def getRecordCount_def kd [symmetric] m_def)
  have sc0: "0 \<le> getSectorCount f" "getSectorCount f < 65536" using sc l lf s by simp_all
  have hn: "holds img ?addr (nameBytes (getName f))"
    and hd: "holds img (?addr + 10) (descriptorBytes f)"
    and hp: "holds img (?addr + 0x1C) (pointerBytes start (int m - 1))"
    using d lf by (simp_all add: describes_def)
  have nm: "trim (readChars img (Some ?addr) 10) = getName f" by (rule fileName_decoded [OF hn n])
  note fields = descriptor_fields [OF hd sc0]
  have f1: "statusFlagsOf f AND 1 = 0" using statusFlags_bits(3) [of f] ft by simp
  have f2: "drop_bit 7 (statusFlagsOf f AND 0x80) = 0" using statusFlags_bits(4) [of f] rt by simp
  have f3: "drop_bit 1 (statusFlagsOf f AND 0x02) = DataType_num (getDataType f)"
    by (rule statusFlags_bits(5))
  have e6: "rd img (Some (?addr + 0x11)) = Some l"
    using fields(5) ft rl by (simp add: band_def and_255_id)
  have "int k AND 0xFF = int k" using k128 by (intro and_255_id) simp_all
  then have e2: "rd img (Some (?addr + 0x0D)) = Some (int k)"
    using fields(2) ft rt rl(1) kf(3) by (simp add: nadd_def band_def)
  have dec: "decodeFile img 1 (Some ?addr)
         = (case dataChainLoop img 1 (Some ?addr) 0 0
                   (Some (int k)) (Some l) (rd img (Some (?addr + 0x10))) 0
                   (?f0, [], int m, - 1) of
              (df, prog, sl', nl) \<Rightarrow> df)"
    using decodeFile_fields [OF nm fields(1) e2 fields(3) refl e6, of 1] f1 f2 f3 sc
    by (simp add: RecordType_of_def)
  have res: "getName (decodeFile img 1 (Some ?addr)) = getName f
             \<and> length (getRecords (decodeFile img 1 (Some ?addr))) = m * k"
  proof (cases "m = 0")
    case True
    then show ?thesis by (simp add: dec dataChainLoop_none newDiskFile_def)
  next
    case False
    obtain f' where
      sloop: "sectorLoop img (FileType_num DATA) (RecordType_num FIXED) (Some (int k)) (Some l)
                   (rd img (Some (?addr + 0x10))) start (start + (int m - 1)) (?f0, [], int m)
                 = (f', [], int m - int m)"
      and cnt: "length (getRecords f') = length (getRecords ?f0) + m * k"
      and gn: "getName f' = getName ?f0"
      using sectorLoop_fixed_count [of "start + (int m - 1)" start m img k "Some l"
          "rd img (Some (?addr + 0x10))" ?f0 "[]" "int m"]
      by auto
    have st: "start < 4096" "int m - 1 < 4096" "0 \<le> int m - 1" "0 < int m"
      using l lf s False by simp_all
    have run: "dataChainLoop img 1 (Some ?addr) 0 0
                   (Some (int k)) (Some l) (rd img (Some (?addr + 0x10))) 0
                   (?f0, [], int m, - 1)
               = (f', [], 0, int m - 1)"
      by (rule dataChainLoop_first [OF hp s st(1) st(3) st(2) st(4)]) (use sloop in simp)
    have "decodeFile img 1 (Some ?addr) = f'" by (simp only: dec run prod.case)
    then show ?thesis using cnt gn by (simp add: newDiskFile_def)
  qed
  then show ?thesis using sc by (simp add: k_def)
qed


lemma decodeFile_record_255:
  assumes d: "describes img fdr f start" and ft: "getFileType f = DATA"
      and rt: "getRecordType f = VARIABLE" and rl: "getRecordLength f = Some l" "0 \<le> l" "l \<le> 255"
      and recs: "getRecords f = [r]" "length (getData r) = 255"
      and n: "wfName (getName f)" and s: "0 < start" and l: "lastSector f start < 4096"
  shows "getName (decodeFile img 1 (Some (fdr * 256))) = getName f
       \<and> getRecords (decodeFile img 1 (Some (fdr * 256))) = []"
proof -
  let ?addr = "fdr * 256"
  let ?last = "lastSector f start"
  let ?f0 = "newDiskFile (getName f) DATA VARIABLE (Some l) (getDataType f)"
  have w255: "\<forall>r\<in>set (getRecords f). length (getData r) \<le> 255" using recs by simp
  have ms: "moreSectors 256 (getRecords f) = 0" using recs by simp
  have lv: "?last = start" using lastSector_variable [OF ft rt w255, of start] ms by simp
  have sc: "getSectorCount f = 1"
    using sectorCount_variable [OF ft rt w255, of start] lv by simp
  have sc0: "0 \<le> getSectorCount f" "getSectorCount f < 65536" using sc by simp_all
  have hn: "holds img ?addr (nameBytes (getName f))"
    and hd: "holds img (?addr + 10) (descriptorBytes f)"
    and hp: "holds img (?addr + 0x1C) (pointerBytes start 0)"
    and hs: "holds img (start * 256) (varBytes 256 (getRecords f))"
    using d ft rt lv by (simp_all add: describes_def dataStored_def)
  have nm: "trim (readChars img (Some ?addr) 10) = getName f" by (rule fileName_decoded [OF hn n])
  note fields = descriptor_fields [OF hd sc0]
  have f1: "statusFlagsOf f AND 1 = 0" using statusFlags_bits(3) [of f] ft by simp
  have f2: "drop_bit 7 (statusFlagsOf f AND 0x80) = 1" using statusFlags_bits(4) [of f] rt by simp
  have f3: "drop_bit 1 (statusFlagsOf f AND 0x02) = DataType_num (getDataType f)"
    by (rule statusFlags_bits(5))
  have e6: "rd img (Some (?addr + 0x11)) = Some l"
    using fields(5) ft rl by (simp add: band_def and_255_id)
  have dec: "decodeFile img 1 (Some ?addr)
         = (case dataChainLoop img 1 (Some ?addr) 0 1
                   (rd img (Some (?addr + 0x0D))) (Some l) (rd img (Some (?addr + 0x10))) 0
                   (?f0, [], 1, - 1) of
              (df, prog, sl', nl) \<Rightarrow> df)"
    using decodeFile_fields [OF nm fields(1) refl fields(3) refl e6, of 1] f1 f2 f3 sc
    by (simp add: RecordType_of_def)
  have first: "rd img (Some (start * 256)) = Some 0xFF"
    using hs recs by (simp add: holds_Cons uint_toByte)
  then have inr: "start * 256 < int (length img)"
    by (simp add: rd_def split: if_splits)
  have rv: "readVariableSector img (start * 256) = []"
    unfolding readVariableSector_def first by (subst variableLoop.simps) simp
  have "sectorLoop img (FileType_num DATA) 1 (rd img (Some (?addr + 0x0D))) (Some l)
          (rd img (Some (?addr + 0x10))) start start (?f0, [], 1)
        = sectorLoop img (FileType_num DATA) 1 (rd img (Some (?addr + 0x0D))) (Some l)
          (rd img (Some (?addr + 0x10))) (start + 1) start
          (foldl putRecord ?f0 (readVariableSector img (start * 256)), [], 1 - 1)"
    by (rule sectorLoop_variable_step [OF _ _ inr]) simp_all
  also have "\<dots> = (?f0, [], 0)" by (simp add: rv sectorLoop_done)
  finally have sloop: "sectorLoop img 0 1 (rd img (Some (?addr + 0x0D))) (Some l)
          (rd img (Some (?addr + 0x10))) start (start + 0) (?f0, [], 1) = (?f0, [], 0)"
    by simp
  have st: "start < 4096" using l lv by simp
  have run: "dataChainLoop img 1 (Some ?addr) 0 1
                   (rd img (Some (?addr + 0x0D))) (Some l) (rd img (Some (?addr + 0x10))) 0
                   (?f0, [], 1, - 1)
             = (?f0, [], 0, 0)"
    by (rule dataChainLoop_first [OF hp s st _ _ _ sloop]) simp_all
  have "decodeFile img 1 (Some ?addr) = ?f0" by (simp only: dec run prod.case)
  then show ?thesis by (simp add: newDiskFile_def)
qed
section \<open>Properties\<close>

subsection \<open>Allocation unit sizes\<close>

text \<open>
  C5: the storage allocation unit is 1 sector below 1600 total sectors, 2 below 3200,
  4 below 6400 and 8 from there on; the allocation unit of the data chain pointers is
  1 sector below 4096 total sectors and the storage allocation unit from there on.
\<close>

theorem allocation_unit_sizes:
  assumes "totalSectors g = Some t"
  shows "(t < 1600 \<longrightarrow> getSectorsPerAllocationUnit g = 1)
       \<and> (1600 \<le> t \<and> t < 3200 \<longrightarrow> getSectorsPerAllocationUnit g = 2)
       \<and> (3200 \<le> t \<and> t < 6400 \<longrightarrow> getSectorsPerAllocationUnit g = 4)
       \<and> (6400 \<le> t \<longrightarrow> getSectorsPerAllocationUnit g = 8)
       \<and> (t < 4096 \<longrightarrow> getSectorsPerAllocationUnitForDataChainPointers g = 1)
       \<and> (4096 \<le> t \<longrightarrow> getSectorsPerAllocationUnitForDataChainPointers g
                          = getSectorsPerAllocationUnit g)"
  using assms
  by (simp add: getSectorsPerAllocationUnit_def
      getSectorsPerAllocationUnitForDataChainPointers_def nless_def)

theorem allocation_unit_sizes_witness:
  "getSectorsPerAllocationUnit
     \<lparr>totalSectors = Some 1440, sectorsPerTrack = Some 18, tracksPerSide = Some 2,
      numberOfSides = Some 2, density = Some 2\<rparr> = 1
   \<and> getSectorsPerAllocationUnitForDataChainPointers
     \<lparr>totalSectors = Some 1440, sectorsPerTrack = Some 18, tracksPerSide = Some 2,
      numberOfSides = Some 2, density = Some 2\<rparr> = 1"
  using allocation_unit_sizes [of "\<lparr>totalSectors = Some 1440, sectorsPerTrack = Some 18,
      tracksPerSide = Some 2, numberOfSides = Some 2, density = Some 2\<rparr>" 1440]
  by simp

subsection \<open>Reading a sector\<close>

lemma createBinaryImage_returns:
  assumes "\<not> nless (totalSectors (geometry s)) (Some 0)"
  shows "\<exists>img. createBinaryImage localeCompare s = Inr img"
  using assms
  by (auto simp: createBinaryImage_def allocUint8Array_def nmul_def nless_def
      split: option.splits)

lemma getBinaryImage_returns:
  assumes "binaryImage s \<noteq> None \<or> \<not> nless (totalSectors (geometry s)) (Some 0)"
  shows "\<exists>img s'. getBinaryImage localeCompare s = (Inr img, s')"
proof (cases "binaryImage s")
  case None
  with assms obtain img where "createBinaryImage localeCompare s = Inr img"
    using createBinaryImage_returns by blast
  with None show ?thesis by (simp add: getBinaryImage_def)
next
  case (Some img)
  then show ?thesis by (simp add: getBinaryImage_def)
qed

text \<open>
  C10: for every sector number, also one at or past the end of the binary image,
  \<^verbatim>\<open>readSector\<close> returns 256 bytes, those of the image where the image has them and
  0 elsewhere. It returns whenever the binary image is there or can be made: the one
  thing that stops \<^verbatim>\<open>createBinaryImage\<close> is a negative number of total sectors, which no
  operation of the class sets.
\<close>

theorem readSector_256_bytes:
  assumes "binaryImage s \<noteq> None \<or> \<not> nless (totalSectors (geometry s)) (Some 0)"
  shows "\<exists>sector img s'.
           readSector localeCompare s sectorNo = (Inr sector, s')
         \<and> getBinaryImage localeCompare s = (Inr img, s')
         \<and> length sector = 256
         \<and> (\<forall>i<256. sector ! i =
               (if 0 \<le> 256 * sectorNo + int i \<and> 256 * sectorNo + int i < int (length img)
                then img ! nat (256 * sectorNo + int i) else 0))"
proof -
  from getBinaryImage_returns [OF assms]
  obtain img s' where g: "getBinaryImage localeCompare s = (Inr img, s')" by blast
  let ?vs = "map (\<lambda>i. rd img (Some (256 * sectorNo + int i))) [0..<256]"
  let ?sector = "fst (storeAll u8store (replicate 256 0) 0 ?vs)"
  have r: "readSector localeCompare s sectorNo = (Inr ?sector, s')"
    using g by (simp add: readSector_def)
  have len: "length ?sector = 256" by simp
  have "?sector ! i =
          (if 0 \<le> 256 * sectorNo + int i \<and> 256 * sectorNo + int i < int (length img)
           then img ! nat (256 * sectorNo + int i) else 0)" if "i < 256" for i
  proof -
    have "?sector ! i = toByte (?vs ! i)"
      using that nth_storeAll_u8 [of i "replicate 256 0" 0 ?vs] by simp
    also have "?vs ! i = rd img (Some (256 * sectorNo + int i))"
      using that by (simp del: upt_Suc)
    finally show ?thesis by (simp add: rd_def toByte_def)
  qed
  with r g len show ?thesis by blast
qed

theorem readSector_256_bytes_witness:
  "binaryImage (newDiskImage ''DSK1'' False\<lparr>binaryImage := Some [7, 8]\<rparr>) = Some [7, 8]
   \<and> fst (readSector (\<lambda>a b. 0) (newDiskImage ''DSK1'' False\<lparr>binaryImage := Some [7, 8]\<rparr>) 5)
       = Inr (replicate 256 0)"
proof -
  let ?s = "newDiskImage ''DSK1'' False\<lparr>binaryImage := Some [7, 8]\<rparr>"
  have b: "binaryImage ?s = Some [7, 8]" by (simp add: newDiskImage_def)
  then have h: "binaryImage ?s \<noteq> None \<or> \<not> nless (totalSectors (geometry ?s)) (Some 0)"
    by simp
  from readSector_256_bytes [OF h, of "\<lambda>a b. 0" 5]
  obtain sector img s' where r: "readSector (\<lambda>a b. 0) ?s 5 = (Inr sector, s')"
    and g: "getBinaryImage (\<lambda>a b. 0) ?s = (Inr img, s')"
    and len: "length sector = 256"
    and nth: "\<forall>i<256. sector ! i =
               (if 0 \<le> 256 * 5 + int i \<and> 256 * 5 + int i < int (length img)
                then img ! nat (256 * 5 + int i) else 0)"
    by blast
  from g b have "img = [7, 8]" by (simp add: getBinaryImage_def)
  with nth have "\<forall>i<256. sector ! i = 0" by simp
  with len have "sector = replicate 256 0" by (intro nth_equalityI) simp_all
  with r b show ?thesis by simp
qed

subsection \<open>Single-file import\<close>

lemma tiHeader_offset_length:
  "hSectorOffset (tiHeader toUpperCase fileName buf ign) + hFileLength (tiHeader toUpperCase fileName buf ign)
   = (if isTIFiles buf
      then 128 + declaredLength (push_bit 8 (byteAt buf 0x8) OR byteAt buf 0x9) (byteAt buf 0xC)
      else if isV9T9 toUpperCase fileName buf
      then 128 + declaredLength (push_bit 8 (byteAt buf 0x0E) + byteAt buf 0x0F) (byteAt buf 0x10)
      else int (length buf))"
  by (simp add: tiHeader_def tiFilesHeader_def v9t9Header_def fallbackHeader_def Let_def)

text \<open>
  C8: a buffer shorter than the 128 bytes of a header, or shorter than the header and the
  content length that its header declares (tagged archive or raw sector dump), is
  rejected: \<^verbatim>\<open>loadTIFile\<close> returns \<^verbatim>\<open>null\<close> and leaves the disk image, its catalog
  included, as it was.
\<close>

theorem loadTIFile_rejects_short_buffer:
  assumes "length buf < 128
         \<or> isTIFiles buf
           \<and> int (length buf)
               < 128 + declaredLength (push_bit 8 (byteAt buf 0x8) OR byteAt buf 0x9) (byteAt buf 0xC)
         \<or> \<not> isTIFiles buf \<and> isV9T9 toUpperCase fileName buf
           \<and> int (length buf)
               < 128 + declaredLength (push_bit 8 (byteAt buf 0x0E) + byteAt buf 0x0F) (byteAt buf 0x10)"
  shows "loadTIFile toUpperCase s fileName (Some buf) ignoreTIFileName = (Inr None, s)"
proof (cases "0x80 < length buf")
  case False
  then show ?thesis by (simp add: loadTIFile_def)
next
  case True
  with assms have "\<not> hSectorOffset (tiHeader toUpperCase fileName buf ignoreTIFileName)
                     + hFileLength (tiHeader toUpperCase fileName buf ignoreTIFileName)
                   \<le> int (length buf)"
    unfolding tiHeader_offset_length by auto
  with True show ?thesis by (simp add: loadTIFile_def Let_def)
qed

theorem loadTIFile_rejects_short_buffer_witness:
  "isTIFiles shortTIFile \<and> length shortTIFile = 129
   \<and> loadTIFile toUpperCaseAscii (newDiskImage ''DSK1'' True) ''FILE'' (Some shortTIFile) False
       = (Inr None, newDiskImage ''DSK1'' True)"
proof -
  have t: "isTIFiles shortTIFile"
    by (simp add: isTIFiles_def shortTIFile_def byteAt_def upt_rec nth_append char_of_def)
  have l: "length shortTIFile = 129" by (simp add: shortTIFile_def)
  have d: "int (length shortTIFile)
       < 128 + declaredLength (push_bit 8 (byteAt shortTIFile 0x8) OR byteAt shortTIFile 0x9)
                 (byteAt shortTIFile 0xC)"
    by (simp add: shortTIFile_def byteAt_def declaredLength_def nth_append)
  from t d have h: "length shortTIFile < 128
         \<or> isTIFiles shortTIFile
           \<and> int (length shortTIFile)
               < 128 + declaredLength (push_bit 8 (byteAt shortTIFile 0x8) OR byteAt shortTIFile 0x9)
                         (byteAt shortTIFile 0xC)
         \<or> \<not> isTIFiles shortTIFile \<and> isV9T9 toUpperCaseAscii ''FILE'' shortTIFile
           \<and> int (length shortTIFile)
               < 128 + declaredLength (push_bit 8 (byteAt shortTIFile 0x0E) + byteAt shortTIFile 0x0F)
                         (byteAt shortTIFile 0x10)"
    by blast
  from loadTIFile_rejects_short_buffer [OF h] t l show ?thesis by simp
qed

lemma loadTIFile_fallback:
  assumes "0x80 < length buf" and "\<not> isTIFiles buf" and "\<not> isV9T9 toUpperCase fileName buf"
  shows "\<exists>f. loadTIFile toUpperCase s fileName (Some buf) ignoreTIFileName
               = (Inr (Some f), putFile s f)
           \<and> getName f = (if length fileName < 10 then filter isFileNameChar fileName else [])"
  using assms
  by (simp add: loadTIFile_def tiHeader_def fallbackHeader_def tiFile_def newDiskFile_def Let_def)

text \<open>
  C9: on the fallback path the loop that filters the supplied name tests
  \<^verbatim>\<open>fileName.length < 10\<close>, so a supplied name of 10 characters or more gives the
  empty name, not its first 10 characters of the charset. Here the name
  \<^verbatim>\<open>HELLO-WORLD\<close> is imported with 129 zero bytes.
\<close>

theorem fallback_name_of_long_name:
  "\<exists>f. fst (loadTIFile toUpperCaseAscii (newDiskImage ''DSK1'' False) ''HELLO-WORLD''
              (Some (replicate 129 0)) False) = Inr (Some f)
       \<and> getName f = ''''"
proof -
  have a: "\<not> isTIFiles (replicate 129 0)" by (simp add: isTIFiles_def byteAt_def)
  have b: "\<not> isV9T9 toUpperCaseAscii ''HELLO-WORLD'' (replicate 129 0)"
    by (simp add: isV9T9_def byteAt_def trim_def isWhiteSpace_def toUpperCaseAscii_def
        upt_rec char_of_def)
  have "\<exists>f. loadTIFile toUpperCaseAscii (newDiskImage ''DSK1'' False) ''HELLO-WORLD''
               (Some (replicate 129 0)) False = (Inr (Some f), putFile (newDiskImage ''DSK1'' False) f)
           \<and> getName f = (if length ''HELLO-WORLD'' < 10 then filter isFileNameChar ''HELLO-WORLD'' else [])"
    by (rule loadTIFile_fallback [OF _ a b]) simp
  then obtain f where
    "loadTIFile toUpperCaseAscii (newDiskImage ''DSK1'' False) ''HELLO-WORLD''
       (Some (replicate 129 0)) False = (Inr (Some f), putFile (newDiskImage ''DSK1'' False) f)"
    and "getName f = []" by auto
  then show ?thesis by (intro exI [of _ f]) simp
qed

subsection \<open>Notifications of a bulk load\<close>

lemma fired_loadBinaryImage:
  "fired (loadBinaryImage s fileBuffer) =
     fired s @ (if eventHandler s
                then map (\<lambda>i. (\<lparr>eventType = ''fileAdded'',
                                eventName = trim (readChars fileBuffer
                                  (nmul (fileDescriptorSectorNo fileBuffer i) (Some 256)) 10)\<rparr>,
                               None))
                       (filter (\<lambda>i. fileDescriptorSectorNo fileBuffer i \<noteq> Some 0) [0..<128])
                else [])"
  unfolding loadBinaryImage_def Let_def
  by (simp add: fired_loadDescriptors del: upt_Suc)

text \<open>
  C4, as the code has it: \<^verbatim>\<open>loadBinaryImage\<close> puts every decoded file into the catalog
  with \<^verbatim>\<open>putFile\<close>, so the handler, when there is one, is called with a
  \<^verbatim>\<open>fileAdded\<close> event for each entry of the file descriptor index that is not 0, in
  the order of the index and with no cached image at that moment; no other event is
  fired.
\<close>

theorem loadBinaryImage_notifies:
  "fired (loadBinaryImage s fileBuffer) =
     fired s @ (if eventHandler s
                then map (\<lambda>i. (\<lparr>eventType = ''fileAdded'',
                                eventName = trim (readChars fileBuffer
                                  (nmul (fileDescriptorSectorNo fileBuffer i) (Some 256)) 10)\<rparr>,
                               None))
                       (filter (\<lambda>i. fileDescriptorSectorNo fileBuffer i \<noteq> Some 0) [0..<128])
                else [])"
  by (rule fired_loadBinaryImage)

lemma slots_oneFileImage:
  "filter (\<lambda>i. fileDescriptorSectorNo oneFileImage i \<noteq> Some 0) [0..<128] = [0]"
proof -
  have z: "fileDescriptorSectorNo oneFileImage i = Some 0" if "0 < i" "i < 128" for i
    using that
    by (auto simp: fileDescriptorSectorNo_def oneFileImage_def rd_def nadd_def shl_def
        nth_append nth_Cons' )
  have o: "fileDescriptorSectorNo oneFileImage 0 = Some 2"
    by (simp add: fileDescriptorSectorNo_def oneFileImage_def rd_def nadd_def shl_def nth_append)
  have "filter (\<lambda>i. fileDescriptorSectorNo oneFileImage i \<noteq> Some 0) [1..<128] = []"
    using z by (auto simp: filter_empty_conv)
  moreover have "[0..<128] = 0 # [1..<128]" by (simp add: upt_rec)
  ultimately show ?thesis using o by simp
qed

text \<open>The claim as stated fails: loading the image of one file with a handler set fires
  an event.\<close>

theorem loadBinaryImage_notifies_counterexample:
  "fired (loadBinaryImage (newDiskImage ''DSK1'' True) oneFileImage)
     = [(\<lparr>eventType = ''fileAdded'', eventName = ''A''\<rparr>, None)]"
proof -
  have n: "trim (readChars oneFileImage (nmul (fileDescriptorSectorNo oneFileImage 0) (Some 256)) 10) = ''A''"
    by (simp add: fileDescriptorSectorNo_def oneFileImage_def rd_def nadd_def shl_def nmul_def
        nth_append readChars_def trim_def isWhiteSpace_def upt_rec char_of_def)
  show ?thesis
    by (simp add: fired_loadBinaryImage slots_oneFileImage n newDiskImage_def del: upt_Suc)
qed

subsection \<open>The cached image\<close>

lemma createBinaryImage_cache [simp]:
  "createBinaryImage c (s\<lparr>binaryImage := x\<rparr>) = createBinaryImage c s"
  by (simp add: createBinaryImage_def getFilesArray_def split: sum.splits)

lemma createBinaryImage_eventHandler [simp]:
  "createBinaryImage c (s\<lparr>eventHandler := x\<rparr>) = createBinaryImage c s"
  by (simp add: createBinaryImage_def getFilesArray_def split: sum.splits)

lemma binaryImage_putFile [simp]: "binaryImage (putFile s f) = None"
  by (simp add: putFile_def fireEvent_def invalidateBinaryImage_def Let_def)

lemma binaryImage_deleteFile [simp]: "binaryImage (deleteFile s n) = None"
  by (simp add: deleteFile_def fireEvent_def invalidateBinaryImage_def Let_def)

lemma fired_deleteFile:
  "fired (deleteFile s n) =
     fired s @ (if eventHandler s
                then [(\<lparr>eventType = ''fileDeleted'', eventName = n\<rparr>, None)] else [])"
  by (simp add: deleteFile_def fireEvent_def invalidateBinaryImage_def Let_def)

lemma cacheFresh_getBinaryImage:
  "cacheFresh c s \<Longrightarrow> cacheFresh c (snd (getBinaryImage c s))"
  by (auto simp: cacheFresh_def getBinaryImage_def split: option.splits sum.splits)

lemma snd_readSector: "snd (readSector c s n) = snd (getBinaryImage c s)"
  by (auto simp: readSector_def Let_def split: prod.splits sum.splits)

lemma binaryImage_loadBinaryImage: "binaryImage (loadBinaryImage s fb) = Some fb"
  by (simp add: loadBinaryImage_def Let_def)

text \<open>
  C2, as the code has it. A new disk image has no cached image. \<^verbatim>\<open>putFile\<close> and
  \<^verbatim>\<open>deleteFile\<close> leave the cache absent, and absent is what the handler finds when
  their event is fired. \<^verbatim>\<open>getBinaryImage\<close>, \<^verbatim>\<open>readSector\<close> and
  \<^verbatim>\<open>setEventHandler\<close> keep the invariant that a cached image is what
  \<^verbatim>\<open>createBinaryImage\<close> makes. \<^verbatim>\<open>loadBinaryImage\<close> ends with its input buffer as
  the cached image, whatever \<^verbatim>\<open>createBinaryImage\<close> would make of the catalog it read.
\<close>

theorem cache_discipline:
  "cacheFresh c (newDiskImage nm h)
   \<and> binaryImage (putFile s f) = None \<and> cacheFresh c (putFile s f)
   \<and> fired (putFile s f) =
       fired s @ (if eventHandler s
                  then [(\<lparr>eventType = ''fileAdded'', eventName = getName f\<rparr>, None)] else [])
   \<and> binaryImage (deleteFile s fileName) = None \<and> cacheFresh c (deleteFile s fileName)
   \<and> fired (deleteFile s fileName) =
       fired s @ (if eventHandler s
                  then [(\<lparr>eventType = ''fileDeleted'', eventName = fileName\<rparr>, None)] else [])
   \<and> (cacheFresh c s \<longrightarrow> cacheFresh c (snd (getBinaryImage c s))
                         \<and> cacheFresh c (snd (readSector c s sectorNo))
                         \<and> cacheFresh c (setEventHandler s h))
   \<and> binaryImage (loadBinaryImage s fileBuffer) = Some fileBuffer"
  by (simp add: fired_putFile fired_deleteFile cacheFresh_getBinaryImage snd_readSector
      binaryImage_loadBinaryImage)
     (simp add: cacheFresh_def newDiskImage_def setEventHandler_def split: option.splits)

theorem cache_discipline_witness:
  "cacheFresh compareCodes (newDiskImage ''DSK1'' True)
   \<and> cacheFresh compareCodes (snd (getBinaryImage compareCodes (newDiskImage ''DSK1'' True)))"
  using cache_discipline [of compareCodes "''DSK1''" True "newDiskImage ''DSK1'' True"]
  by simp

text \<open>The invariant as claimed fails after \<^verbatim>\<open>loadBinaryImage\<close>: a buffer of 512 zero
  bytes is cached as it is, while the disk image read from it, of 0 sectors, encodes to
  an image of no bytes.\<close>

lemma descriptor_zero:
  "i < 128 \<Longrightarrow> fileDescriptorSectorNo (replicate 512 0) i = Some 0"
  by (simp add: fileDescriptorSectorNo_def rd_def nadd_def shl_def)

lemma loadDescriptors_zero:
  "\<forall>i\<in>set is. i < 128 \<Longrightarrow> foldl (loadDescriptor (replicate 512 0) S) s is = s"
  by (induction "is" arbitrary: s) (simp_all add: loadDescriptor_def descriptor_zero)

theorem cache_discipline_counterexample:
  "\<not> cacheFresh compareCodes (loadBinaryImage (newDiskImage ''DSK1'' False) (replicate 512 0))"
proof -
  let ?s = "loadBinaryImage (newDiskImage ''DSK1'' False) (replicate 512 0)"
  have b: "binaryImage ?s = Some (replicate 512 0)" by (rule binaryImage_loadBinaryImage)
  have t: "totalSectors (geometry ?s) = Some 0"
    by (simp add: loadBinaryImage_def Let_def rd_def nadd_def shl_def)
  have c: "createBinaryImage compareCodes ?s
             = Inr (encodeImage [] (name ?s) (geometry ?s) (getFilesArray compareCodes ?s))"
    using t by (simp add: createBinaryImage_def allocUint8Array_def nmul_def)
  have "length (encodeImage [] (name ?s) (geometry ?s) (getFilesArray compareCodes ?s)) = 0"
    by simp
  then have "encodeImage [] (name ?s) (geometry ?s) (getFilesArray compareCodes ?s)
               \<noteq> replicate 512 0"
    by (metis length_replicate zero_neq_numeral)
  with b c show ?thesis by (simp add: cacheFresh_def)
qed

subsection \<open>The end of the last sector of variable records\<close>

text \<open>
  C6, as the code has it, for a file of variable records of at most 255 bytes each. After
  the last record the export has \<open>left\<close> bytes of the sector left, from 0 to 256, and
  writes \<open>closing left\<close> there: 0xFF and zeros up to the sector boundary when a byte is
  left, and nothing when the records fill the sector. The first half is the single-file
  export after a header, the second the disk image, where the bytes go to position \<open>n\<close>
  of the image and end at the boundary of sector \<open>sectorNo\<close>.
\<close>

theorem variable_final_sector:
  assumes "getFileType f = DATA" and "getRecordType f = VARIABLE"
      and "\<forall>r\<in>set (getRecords f). length (getData r) \<le> 255"
  shows "(\<exists>d n left.
            foldl tiVariableStep (header, int (length header), 256) (getRecords f) = (d, n, left)
          \<and> n = int (length d) \<and> 0 \<le> left \<and> left \<le> 256
          \<and> (n - int (length header) + left) mod 256 = 0
          \<and> tiContent f header (int (length header)) = d @ closing left)
       \<and> (\<exists>d n sectorNo left.
            foldl imageVariableStep (dskImg, startSectorNo * 256, startSectorNo, 256) (getRecords f)
              = (d, n, sectorNo, left)
          \<and> 0 \<le> left \<and> left \<le> 256 \<and> n + left = (sectorNo + 1) * 256
          \<and> writeDataSectors dskImg f startSectorNo
              = (fst (storeAll u8store d n (closing left)), sectorNo))"
proof
  from tiVariableLoop_invariant [OF assms(3), of "int (length header)" header 256 "int (length header)"]
  obtain d n left where
    l: "foldl tiVariableStep (header, int (length header), 256) (getRecords f) = (d, n, left)"
    and i: "n = int (length d)" "0 \<le> left" "left \<le> 256"
           "(n - int (length header) + left) mod 256 = 0"
    by auto
  from tiContent_variable [OF assms(1,2) l i(1)] l i
  show "\<exists>d n left.
            foldl tiVariableStep (header, int (length header), 256) (getRecords f) = (d, n, left)
          \<and> n = int (length d) \<and> 0 \<le> left \<and> left \<le> 256
          \<and> (n - int (length header) + left) mod 256 = 0
          \<and> tiContent f header (int (length header)) = d @ closing left"
    by (rule_tac x = d in exI, rule_tac x = n in exI, rule_tac x = left in exI) simp
next
  from imageVariableLoop_invariant [OF assms(3), of 256 "startSectorNo * 256" startSectorNo dskImg]
  obtain d n sectorNo left where
    l: "foldl imageVariableStep (dskImg, startSectorNo * 256, startSectorNo, 256) (getRecords f)
          = (d, n, sectorNo, left)"
    and i: "0 \<le> left" "left \<le> 256" "n + left = (sectorNo + 1) * 256"
    by (auto simp: algebra_simps)
  have "writeDataSectors dskImg f startSectorNo
          = (fst (storeAll u8store d n (closing left)), sectorNo)"
    using assms(1,2) l i(1,2)
    by (auto simp: writeDataSectors_def closeSector_storeAll simp del: storeAll.simps)
  with l i
  show "\<exists>d n sectorNo left.
            foldl imageVariableStep (dskImg, startSectorNo * 256, startSectorNo, 256) (getRecords f)
              = (d, n, sectorNo, left)
          \<and> 0 \<le> left \<and> left \<le> 256 \<and> n + left = (sectorNo + 1) * 256
          \<and> writeDataSectors dskImg f startSectorNo
              = (fst (storeAll u8store d n (closing left)), sectorNo)"
    by (rule_tac x = d in exI, rule_tac x = n in exI, rule_tac x = sectorNo in exI,
        rule_tac x = left in exI) simp
qed

theorem variable_final_sector_witness:
  "getFileType (variableFile [3]) = DATA \<and> getRecordType (variableFile [3]) = VARIABLE
   \<and> tiContent (variableFile [3]) [] 0
       = Some 3 # replicate 3 (Some 0x41) @ Some 0xFF # replicate 251 (Some 0)"
proof -
  let ?f = "variableFile [3]"
  have t: "getFileType ?f = DATA" "getRecordType ?f = VARIABLE"
    by (simp_all add: variableFile_def)
  have b: "\<forall>r\<in>set (getRecords ?f). length (getData r) \<le> 255"
    by (simp add: variableFile_def)
  from variable_final_sector [OF t b, of "[]"]
  obtain d n left where
    l: "foldl tiVariableStep ([], int (length ([] :: num list)), 256) (getRecords ?f) = (d, n, left)"
    and c: "tiContent ?f [] (int (length ([] :: num list))) = d @ closing left"
    by blast
  have "foldl tiVariableStep ([], 0, 256) (getRecords ?f)
          = (Some 3 # replicate 3 (Some 0x41), 4, 252)"
    using tiVariableStep_append [of 0 "[]" 256 "VariableRecord (replicate 3 (Some 0x41))"]
    by (simp add: variableFile_def band_def del: tiVariableStep.simps)
  with l have "d = Some 3 # replicate 3 (Some 0x41)" "left = 252" by simp_all
  with c t show ?thesis by (simp add: closing_def)
qed

text \<open>The claim as stated fails: two records of 127 bytes fill a sector, and the
  exported file ends with the second record, without a terminator.\<close>

lemma tiContent_two_127:
  assumes "length header = 128"
  shows "tiContent (variableFile [127, 127]) header 128
         = header @ Some 127 # replicate 127 (Some 0x41) @ Some 127 # replicate 127 (Some 0x41)"
proof -
  have a: "tiVariableStep (header, 128, 256) (VariableRecord (replicate 127 (Some 0x41)))
           = (header @ Some 127 # replicate 127 (Some 0x41), 256, 128)"
    using tiVariableStep_append [of 128 header 256 "VariableRecord (replicate 127 (Some 0x41))"] assms
    by (simp add: band_def)
  have b: "tiVariableStep (header @ Some 127 # replicate 127 (Some 0x41), 256, 128)
             (VariableRecord (replicate 127 (Some 0x41)))
           = (header @ Some 127 # replicate 127 (Some 0x41) @ Some 127 # replicate 127 (Some 0x41),
              384, 0)"
    using tiVariableStep_append [of 256 "header @ Some 127 # replicate 127 (Some 0x41)" 128
        "VariableRecord (replicate 127 (Some 0x41))"] assms
    by (simp add: band_def)
  have "foldl tiVariableStep (header, 128, 256) (getRecords (variableFile [127, 127]))
        = (header @ Some 127 # replicate 127 (Some 0x41) @ Some 127 # replicate 127 (Some 0x41),
           384, 0)"
    by (simp add: variableFile_def a b del: tiVariableStep.simps)
  from tiContent_variable [OF _ _ this] assms show ?thesis
    by (simp add: variableFile_def closing_def)
qed

theorem variable_final_sector_counterexample:
  "\<exists>header. length header = 128
     \<and> createTIFile (diskWith (variableFile [127, 127])) ''V''
         = Some (header @ 127 # replicate 127 0x41 @ 127 # replicate 127 0x41)"
proof -
  have "getFile (diskWith (variableFile [127, 127])) ''V'' = Some (variableFile [127, 127])"
    using getFile_diskWith [of "variableFile [127, 127]"] by (simp add: variableFile_def)
  from createTIFile_header [OF this]
  obtain header where h: "length header = 128"
    and c: "createTIFile (diskWith (variableFile [127, 127])) ''V''
              = Some (newUint8Array (tiContent (variableFile [127, 127]) header 128))"
    by blast
  have "newUint8Array (tiContent (variableFile [127, 127]) header 128)
        = newUint8Array header @ 127 # replicate 127 0x41 @ 127 # replicate 127 0x41"
    by (simp add: tiContent_two_127 [OF h] newUint8Array_def toByte_def)
  with c h show ?thesis
    by (intro exI [of _ "newUint8Array header"]) (simp add: newUint8Array_def)
qed

subsection \<open>The length byte of a variable record\<close>






subsection \<open>The round trip through a disk image\<close>

text \<open>
  C1, as the code has it. Take a disk image of fewer than 4096 sectors whose catalog has
  at most 127 files, each under its own name, each of a kind that the image format keeps
  (\<open>wfFile\<close>: a name of at most 10 characters from space to DEL without a space at
  either end, other than \<^verbatim>\<open>__proto__\<close>; fixed records of the record length, which is from 2 to 255, that fill
  their last sector; variable records of 1 to 254 bytes; payloads of bytes), and whose
  files fit on the disk. Then \<^verbatim>\<open>createBinaryImage\<close> returns an image, and
  \<^verbatim>\<open>loadBinaryImage\<close> of that image, into a disk image that has fewer than 4096
  sectors when it loads, gives a catalog with the same file names in which the file of
  each name has the types, the record length and the payload of the original: the
  records in order, or the program bytes.
\<close>

theorem image_round_trip:
  assumes w: "wfCatalog s" and f: "fitsOnDisk localeCompare s"
      and t: "totalSectors (geometry s) = Some t" "t < 4096"
      and sp: "getSectorsPerAllocationUnitForDataChainPointers (geometry s') = 1"
  shows "\<exists>img. createBinaryImage localeCompare s = Inr img
           \<and> fst ` set (files (loadBinaryImage s' img)) = fst ` set (files s)
           \<and> (\<forall>nm f. getFile s nm = Some f
                \<longrightarrow> (\<exists>f'. getFile (loadBinaryImage s' img) nm = Some f' \<and> sameContent f f'))"
proof -
  let ?fs = "getFilesArray localeCompare s"
  define S where "S = getSectorsPerAllocationUnit (geometry s)"
  define start where "start = ceilN (max 2 S + int (length ?fs) * S) S"
  define img where "img = encodeImage (replicate (nat (t * 256)) 0) (name s) (geometry s) ?fs"
  define dec where "dec = (\<lambda>i. decodeFile img 1 (Some ((max 2 S + int i * S) * 256)))"
  let ?ds = "map dec [0..<length ?fs]"
  note c = getFilesArray_wfCatalog [OF w, where c = localeCompare]
  have p: "\<forall>f\<in>set ?fs. packable f" using c(2) wfFile_packable by blast
  have fit: "layout S start ?fs \<le> t"
    using f t(1) by (simp add: fitsOnDisk_def Let_def S_def start_def)
  note g = geometry_below_4096 [OF t, folded S_def]
  have nS: "0 \<le> int (length ?fs) * S" using g(2) by simp
  have "max 2 S + int (length ?fs) * S \<le> start"
    unfolding start_def by (rule ceilN_ge [OF g(2)]) (use nS in simp)
  then have s2: "2 \<le> start" using nS by simp
  have "start \<le> layout S start ?fs" by (rule layout_ge [OF p g(2)]) (use s2 in simp)
  then have t0: "0 \<le> t" using s2 fit by simp
  have cr: "createBinaryImage localeCompare s = Inr img"
    unfolding img_def by (rule createBinaryImage_encodeImage [OF t(1) t0])
  note e = encoded_catalog [OF p c(1) t S_def start_def fit sp img_def, folded dec_def]
  have sc: "sameContent (?fs ! i) (dec i)" if "i < length ?fs" for i
    unfolding dec_def
    by (rule decodeFile_describes [of _ _ _ "layout S start (take i ?fs)"])
       (use that c(2) e(2) in simp_all)
  have gn: "getName (dec i) = getName (?fs ! i)" if "i < length ?fs" for i
    using sc [OF that] by (simp add: sameContent_def)
  have names: "map getName ?ds = map getName ?fs"
    by (rule nth_equalityI) (simp_all add: gn)
  have dd: "distinct (map getName ?ds)" using c(3) by (simp only: names)
  have mo: "map_of (files (loadBinaryImage s' img)) nm
            = map_of (foldl (\<lambda>al f. AList.update (getName f) f al) [] ?ds) nm" for nm
    by (simp only: e(1))
  have inn: "getFile (loadBinaryImage s' img) (getName (?fs ! i)) = Some (dec i)"
    if i: "i < length ?fs" for i
  proof -
    have "dec i \<in> set ?ds" using i by simp
    from map_of_updates_member [OF dd this, of "[]"] show ?thesis
      by (simp only: getFile_def mo gn [OF i])
  qed
  have out: "getFile (loadBinaryImage s' img) nm = None" if "nm \<notin> getName ` set ?fs" for nm
  proof -
    have "getName ` set ?ds = getName ` set ?fs"
      using names by (metis set_map)
    then have "nm \<notin> getName ` set ?ds" using that by simp
    from map_of_updates_other [OF this, of "[]"] show ?thesis
      by (simp only: getFile_def mo) simp
  qed
  have dom: "fst ` set (files (loadBinaryImage s' img)) = getName ` set ?fs"
  proof -
    have "dom (map_of (files (loadBinaryImage s' img))) = getName ` set ?fs"
    proof (intro set_eqI iffI)
      fix nm assume a: "nm \<in> dom (map_of (files (loadBinaryImage s' img)))"
      show "nm \<in> getName ` set ?fs"
      proof (rule ccontr)
        assume "nm \<notin> getName ` set ?fs"
        then have "map_of (files (loadBinaryImage s' img)) nm = None"
          using out [of nm] by (simp add: getFile_def)
        then show False using a by auto
      qed
    next
      fix nm assume "nm \<in> getName ` set ?fs"
      then obtain i where "i < length ?fs" "nm = getName (?fs ! i)"
        by (auto simp add: in_set_conv_nth)
      then show "nm \<in> dom (map_of (files (loadBinaryImage s' img)))"
        using inn [of i] by (auto simp add: getFile_def)
    qed
    then show ?thesis by (simp add: dom_map_of_conv_image_fst)
  qed
  have content: "\<exists>f'. getFile (loadBinaryImage s' img) nm = Some f' \<and> sameContent f f'"
    if "getFile s nm = Some f" for nm f
  proof -
    have "f \<in> set ?fs" "getName f = nm" using c(5) [OF that] by simp_all
    then obtain i where i: "i < length ?fs" "?fs ! i = f" by (auto simp add: in_set_conv_nth)
    show ?thesis using inn [OF i(1)] sc [OF i(1)] i(2) \<open>getName f = nm\<close> by auto
  qed
  show ?thesis
    using cr dom c(4) content by (intro exI [of _ img]) simp
qed

theorem image_round_trip_witness:
  "\<exists>img. createBinaryImage compareCodes exampleDisk = Inr img
     \<and> fst ` set (files (loadBinaryImage (newDiskImage ''DSK1'' False) img))
         = fst ` set (files exampleDisk)
     \<and> (\<forall>nm f. getFile exampleDisk nm = Some f
          \<longrightarrow> (\<exists>f'. getFile (loadBinaryImage (newDiskImage ''DSK1'' False) img) nm = Some f'
                    \<and> sameContent f f'))"
proof (rule image_round_trip [where t = 360])
  show "wfCatalog exampleDisk"
    by (simp add: wfCatalog_def exampleDisk_def wfFile_def wfName_def programFile_def
        textFile_def wfBytes_def)
  have fa: "getFilesArray compareCodes exampleDisk = [programFile, textFile]"
    by (simp add: getFilesArray_def sortBy_def exampleDisk_def programFile_def textFile_def)
  have S: "getSectorsPerAllocationUnit (geometry exampleDisk) = 1"
    by (simp add: getSectorsPerAllocationUnit_def exampleDisk_def nless_def)
  have c: "ceilN n 1 = n" for n by (simp add: ceilN_def jsrem_def)
  have p: "lastSector programFile 4 = 4"
    by (simp add: lastSector_program programFile_def)
  have t: "lastSector textFile 5 = 5"
    by (subst lastSector_variable) (simp_all add: textFile_def)
  show ts: "totalSectors (geometry exampleDisk) = Some 360" by (simp add: exampleDisk_def)
  show "fitsOnDisk compareCodes exampleDisk"
    by (simp add: fitsOnDisk_def Let_def fa S c p t ts)
  show "(360::int) < 4096" by simp
  show "getSectorsPerAllocationUnitForDataChainPointers (geometry (newDiskImage ''DSK1'' False)) = 1"
    by (simp add: getSectorsPerAllocationUnitForDataChainPointers_def newDiskImage_def nless_def)
qed

text \<open>The claim as stated fails: a file of variable records with one record of 255
  bytes, on a disk of four sectors where it fits, comes back under its name with no
  record. The record is written with the length byte 0xFF, which the decoder takes for
  the end of the sector.\<close>

theorem image_round_trip_counterexample:
  "(case createBinaryImage compareCodes (smallDisk (variableFile [255])) of
      Inl e \<Rightarrow> None
    | Inr img \<Rightarrow>
        map_option getRecords
          (getFile (loadBinaryImage (newDiskImage ''DSK1'' False) img) ''V''))
   = Some []
   \<and> getRecords (variableFile [255]) = [VariableRecord (replicate 255 (Some 0x41))]"
proof -
  let ?f = "variableFile [255]"
  let ?s = "smallDisk ?f"
  let ?s' = "newDiskImage ''DSK1'' False"
  define img where
    "img = encodeImage (replicate (nat (4 * 256)) 0) (name ?s) (geometry ?s) [?f]"
  have fa: "getFilesArray compareCodes ?s = [?f]"
    by (simp add: getFilesArray_def sortBy_def smallDisk_def)
  have ts: "totalSectors (geometry ?s) = Some 4" by (simp add: smallDisk_def)
  have S: "1 = getSectorsPerAllocationUnit (geometry ?s)"
    by (simp add: getSectorsPerAllocationUnit_def smallDisk_def nless_def)
  have c: "ceilN n 1 = n" for n by (simp add: ceilN_def jsrem_def)
  have st: "3 = ceilN (max 2 1 + int (length [?f]) * 1) 1" by (simp add: c)
  have tp: "getFileType ?f = DATA" "getRecordType ?f = VARIABLE"
    "getRecordLength ?f = Some 255"
    "getRecords ?f = [VariableRecord (replicate 255 (Some 0x41))]"
    by (simp_all add: variableFile_def)
  have w255: "\<forall>r\<in>set (getRecords ?f). length (getData r) \<le> 255" by (simp add: tp(4))
  have ls: "lastSector ?f 3 = 3"
    using lastSector_variable [OF tp(1,2) w255, of 3] by (simp add: tp(4))
  have pk: "\<forall>f\<in>set [?f]. packable f" using tp by (simp add: packable_def)
  have fit: "layout 1 3 [?f] \<le> 4" by (simp add: ls c)
  have sp: "getSectorsPerAllocationUnitForDataChainPointers (geometry ?s') = 1"
    by (simp add: getSectorsPerAllocationUnitForDataChainPointers_def newDiskImage_def nless_def)
  note e = encoded_catalog [OF pk _ ts _ S st fit sp img_def]
  have d: "describes img 2 ?f 3" using e(2) by simp
  have fl: "files (loadBinaryImage ?s' img)
            = [(getName (decodeFile img 1 (Some (2 * 256))), decodeFile img 1 (Some (2 * 256)))]"
    using e(1) by simp
  have wn: "wfName (getName ?f)" by (simp add: wfName_def variableFile_def)
  have dc: "getName (decodeFile img 1 (Some (2 * 256))) = getName ?f
       \<and> getRecords (decodeFile img 1 (Some (2 * 256))) = []"
    by (rule decodeFile_record_255 [OF d tp(1-3) _ _ tp(4) _ wn]) (simp_all add: ls)
  have cr: "createBinaryImage compareCodes ?s = Inr img"
    unfolding img_def using createBinaryImage_encodeImage [OF ts, of compareCodes]
    by (simp add: fa)
  have gf: "getFile (loadBinaryImage ?s' img) ''V'' = Some (decodeFile img 1 (Some (2 * 256)))"
    using dc by (simp add: getFile_def fl variableFile_def)
  show ?thesis
    using dc by (simp add: cr gf tp(4))
qed

text \<open>Fixed records that do not fill their last sector are outside the statement. The
  decoder reads every sector of a file of fixed records in full: the file of one record
  of 128 bytes comes back with two records.\<close>

lemma fixed_records_partial_sector:
  "(case createBinaryImage compareCodes (smallDisk fixedFile) of
      Inl e \<Rightarrow> None
    | Inr img \<Rightarrow>
        map_option (\<lambda>f'. length (getRecords f'))
          (getFile (loadBinaryImage (newDiskImage ''DSK1'' False) img) ''A''))
   = Some 2
   \<and> length (getRecords fixedFile) = 1"
proof -
  let ?s = "smallDisk fixedFile"
  let ?s' = "newDiskImage ''DSK1'' False"
  define img where
    "img = encodeImage (replicate (nat (4 * 256)) 0) (name ?s) (geometry ?s) [fixedFile]"
  have fa: "getFilesArray compareCodes ?s = [fixedFile]"
    by (simp add: getFilesArray_def sortBy_def smallDisk_def)
  have ts: "totalSectors (geometry ?s) = Some 4" by (simp add: smallDisk_def)
  have S: "1 = getSectorsPerAllocationUnit (geometry ?s)"
    by (simp add: getSectorsPerAllocationUnit_def smallDisk_def nless_def)
  have c: "ceilN n 1 = n" for n by (simp add: ceilN_def jsrem_def)
  have st: "3 = ceilN (max 2 1 + int (length [fixedFile]) * 1) 1" by (simp add: c)
  have tp: "getFileType fixedFile = DATA" "getRecordType fixedFile = FIXED"
    "getRecordLength fixedFile = Some 128"
    "\<forall>r\<in>set (getRecords fixedFile). int (length (getData r)) = 128"
    by (simp_all add: fixedFile_def)
  have ls: "lastSector fixedFile 3 = 3"
    using lastSector_fixed [OF tp(1-3) _ _ tp(4), of 3] by (simp add: fixedFile_def)
  have pk: "\<forall>f\<in>set [fixedFile]. packable f" using tp by (simp add: packable_def list_all_iff)
  have fit: "layout 1 3 [fixedFile] \<le> 4" by (simp add: ls c)
  have sp: "getSectorsPerAllocationUnitForDataChainPointers (geometry ?s') = 1"
    by (simp add: getSectorsPerAllocationUnitForDataChainPointers_def newDiskImage_def nless_def)
  note e = encoded_catalog [OF pk _ ts _ S st fit sp img_def]
  have d: "describes img 2 fixedFile 3" using e(2) by simp
  have fl: "files (loadBinaryImage ?s' img)
            = [(getName (decodeFile img 1 (Some (2 * 256))), decodeFile img 1 (Some (2 * 256)))]"
    using e(1) by simp
  have wn: "wfName (getName fixedFile)" by (simp add: wfName_def fixedFile_def)
  have dc: "getName (decodeFile img 1 (Some (2 * 256))) = getName fixedFile
       \<and> length (getRecords (decodeFile img 1 (Some (2 * 256))))
           = nat (getSectorCount fixedFile) * nat (256 div 128)"
    by (rule decodeFile_fixed_count [OF d tp(1-3) _ _ tp(4) wn]) (simp_all add: ls)
  have sc: "getSectorCount fixedFile = 1"
    by (simp add: getSectorCount_def getRecordCount_def fixedFile_def)
  have cr: "createBinaryImage compareCodes ?s = Inr img"
    unfolding img_def using createBinaryImage_encodeImage [OF ts, of compareCodes]
    by (simp add: fa)
  have gf: "getFile (loadBinaryImage ?s' img) ''A'' = Some (decodeFile img 1 (Some (2 * 256)))"
    using dc by (simp add: getFile_def fl fixedFile_def)
  show ?thesis
    using dc sc by (simp add: cr gf) (simp add: fixedFile_def)
qed

subsection \<open>The order of the array of files\<close>

text \<open>
  C3, as the code has it. The array has every entry of the catalog, each as often as
  the catalog has it, and it is in the order of the host's \<^verbatim>\<open>localeCompare\<close> on the
  names, whatever that order is, as long as it is total and transitive. The array
  is a function of the catalog and the comparison: two calls give the same array.
\<close>

theorem getFilesArray_sorted:
  assumes "\<forall>a b. localeCompare a b < 0 \<or> localeCompare b a \<le> 0"
      and "\<forall>a b d. localeCompare a b \<le> 0 \<and> localeCompare b d \<le> 0 \<longrightarrow> localeCompare a d \<le> 0"
  shows "(\<forall>f. count_list (getFilesArray localeCompare s) f = count_list (map snd (files s)) f)
       \<and> sorted_wrt (\<lambda>a b. localeCompare (getName a) (getName b) \<le> 0)
           (getFilesArray localeCompare s)"
proof (intro conjI allI)
  fix f
  show "count_list (getFilesArray localeCompare s) f = count_list (map snd (files s)) f"
    by (simp add: getFilesArray_def count_list_sortBy)
  show "sorted_wrt (\<lambda>a b. localeCompare (getName a) (getName b) \<le> 0)
          (getFilesArray localeCompare s)"
    unfolding getFilesArray_def
  proof (rule sorted_sortBy)
    fix a b :: DiskFile
    show "localeCompare (getName a) (getName b) < 0 \<or> localeCompare (getName b) (getName a) \<le> 0"
      using assms(1) by blast
  next
    fix a b d :: DiskFile
    assume "localeCompare (getName a) (getName b) \<le> 0"
       and "localeCompare (getName b) (getName d) \<le> 0"
    then show "localeCompare (getName a) (getName d) \<le> 0"
      using assms(2) by blast
  qed
qed

theorem getFilesArray_sorted_witness:
  "(\<forall>f. count_list (getFilesArray compareCodes twoNames) f
          = count_list (map snd (files twoNames)) f)
   \<and> sorted_wrt (\<lambda>a b. compareCodes (getName a) (getName b) \<le> 0)
       (getFilesArray compareCodes twoNames)"
proof (rule getFilesArray_sorted)
  show "\<forall>a b. compareCodes a b < 0 \<or> compareCodes b a \<le> 0"
    by (simp add: compareCodes_total)
  show "\<forall>a b d. compareCodes a b \<le> 0 \<and> compareCodes b d \<le> 0 \<longrightarrow> compareCodes a d \<le> 0"
    by (intro allI impI) (erule conjE, rule compareCodes_trans)
qed

text \<open>The order is not the order of the character codes when the host's comparison is
  not: with the alphabet first, the file named a comes before the file named B, whose
  character code is the smaller.\<close>

theorem getFilesArray_sorted_counterexample:
  "map getName (getFilesArray compareLetters twoNames) = [''a'', ''B'']
   \<and> \<not> sorted_wrt (\<lambda>a b. compareCodes (getName a) (getName b) \<le> 0)
         (getFilesArray compareLetters twoNames)"
  by code_simp
end
